(* ===== verification/Prelude.thy ===== *)
theory Prelude
  imports Main "HOL-Library.Word" "HOL-Library.Sublist"
begin

text \<open>
  Shared vocabulary of the development: the machine integers of the C++ code, the collection
  of rules that evaluates binary32 arithmetic, generic facts about words and lists, and the two interfaces
  the state machines of the node are verified against.
\<close>

unbundle bit_operations_syntax

section \<open>Machine integers\<close>

type_synonym u8 = "8 word"
type_synonym u16 = "16 word"
type_synonym u32 = "32 word"
type_synonym u64 = "64 word"

type_synonym bytes = "u8 list"

section \<open>Collections of rules\<close>

named_theorems f32_eval \<open>equations that evaluate a closed binary32 computation\<close>

lemma unat_u8: "unat (w :: u8) < 256"
  using unsigned_less [of w, where ?'a = nat] by simp

lemma unat_u16: "unat (w :: u16) < 65536"
  using unsigned_less [of w, where ?'a = nat] by simp

lemma unat_u32: "unat (w :: u32) < 4294967296"
  using unsigned_less [of w, where ?'a = nat] by simp

lemma unat_of_nat_u32: "n < 2 ^ 32 \<Longrightarrow> unat (word_of_nat n :: u32) = n"
  by (simp add: unat_of_nat)

section \<open>Lists\<close>

lemma take_append_length [simp]: "length xs = n \<Longrightarrow> take n (xs @ ys) = xs"
  by simp

lemma drop_append_length [simp]: "length xs = n \<Longrightarrow> drop n (xs @ ys) = ys"
  by simp

lemma drop_drop_add: "drop a (drop b xs) = drop (b + a) xs"
  by (simp add: add.commute)

lemma length_concat_const:
  "(\<And>x. x \<in> set xs \<Longrightarrow> length (f x) = k) \<Longrightarrow> length (concat (map f xs)) = k * length xs"
  by (induction xs) auto

lemma filter_length_take_Suc:
  "n < length xs \<Longrightarrow>
   length (filter P (take (Suc n) xs)) = length (filter P (take n xs)) + (if P (xs ! n) then 1 else 0)"
  by (simp add: take_Suc_conv_app_nth)

lemma subseq_drop: "subseq (drop n xs) xs"
  by (simp add: suffix_drop suffix_imp_subseq)

section \<open>Threads\<close>

text \<open>
  A \<open>std::thread\<close>: not attached, running, or returned from its function and not yet joined. It is
  joinable in the last two cases.
\<close>

datatype worker = Detached | Running | Returned

definition joinable :: "worker \<Rightarrow> bool" where
  "joinable w \<longleftrightarrow> w \<noteq> Detached"

section \<open>Step relations and their invariants\<close>

text \<open>
  The contract between a state machine and a safety argument: the invariant holds of the initial
  states and every step keeps it. The reachable states of a machine are those related to an
  initial state by \<^term>\<open>step\<^sup>*\<^sup>*\<close>.
\<close>

locale inductive_invariant =
  fixes initial :: "'s \<Rightarrow> bool"
    and step :: "'s \<Rightarrow> 's \<Rightarrow> bool"
    and inv :: "'s \<Rightarrow> bool"
  assumes initial_inv: "initial s \<Longrightarrow> inv s"
    and step_inv: "step s t \<Longrightarrow> inv s \<Longrightarrow> inv t"
begin

lemma steps_inv: "step\<^sup>*\<^sup>* s t \<Longrightarrow> inv s \<Longrightarrow> inv t"
  by (induction rule: rtranclp_induct) (auto intro: step_inv)

lemma reachable_inv: "initial s \<Longrightarrow> step\<^sup>*\<^sup>* s t \<Longrightarrow> inv t"
  by (blast intro: steps_inv initial_inv)

end

text \<open>
  The contract between a machine and a more abstract one: related states stay related, a step of the
  concrete machine being any number of steps of the abstract one, none included.
\<close>

locale simulation =
  fixes step :: "'s \<Rightarrow> 's \<Rightarrow> bool"
    and abstract_step :: "'a \<Rightarrow> 'a \<Rightarrow> bool"
    and related :: "'s \<Rightarrow> 'a \<Rightarrow> bool"
  assumes simulates: "step s s' \<Longrightarrow> related s a \<Longrightarrow> \<exists>a'. abstract_step\<^sup>*\<^sup>* a a' \<and> related s' a'"
begin

lemma steps_simulate:
  assumes "step\<^sup>*\<^sup>* s s'" "related s a"
  shows "\<exists>a'. abstract_step\<^sup>*\<^sup>* a a' \<and> related s' a'"
  using assms
proof (induction rule: rtranclp_induct)
  case base
  then show ?case by blast
next
  case (step s' s'')
  then show ?case using simulates rtranclp_trans [of abstract_step] by metis
qed

end

section \<open>Fair runs\<close>

text \<open>
  A run takes a step or stays, for ever; it is fair to an action if the action is infinitely often taken or
  infinitely often impossible.
\<close>

definition possible :: "('a \<Rightarrow> 's \<Rightarrow> 's \<Rightarrow> bool) \<Rightarrow> 'a \<Rightarrow> 's \<Rightarrow> bool" where
  "possible act_step act s \<longleftrightarrow> (\<exists>s'. act_step act s s')"

definition fair_run :: "('s \<Rightarrow> 's \<Rightarrow> bool) \<Rightarrow> ('a \<Rightarrow> 's \<Rightarrow> 's \<Rightarrow> bool) \<Rightarrow> (nat \<Rightarrow> 's) \<Rightarrow> bool" where
  "fair_run step act_step run \<longleftrightarrow> (\<forall>i. step (run i) (run (Suc i)) \<or> run (Suc i) = run i) \<and>
     (\<forall>act i. \<exists>j \<ge> i. \<not> possible act_step act (run j) \<or> act_step act (run j) (run (Suc j)))"

text \<open>
  The contract of a machine some of whose steps are actions that are not put off for ever: what one
  of them brings about comes about, when nothing else can spoil it.
\<close>

locale actions =
  fixes step :: "'s \<Rightarrow> 's \<Rightarrow> bool"
    and act_step :: "'a \<Rightarrow> 's \<Rightarrow> 's \<Rightarrow> bool"
  assumes act_is_step: "act_step act s s' \<Longrightarrow> step s s'"
begin

lemma run_steps: "fair_run step act_step run \<Longrightarrow> i \<le> j \<Longrightarrow> step\<^sup>*\<^sup>* (run i) (run j)"
proof (induction j)
  case (Suc j)
  show ?case
  proof (cases "i = Suc j")
    case False
    then have "step\<^sup>*\<^sup>* (run i) (run j)" using Suc by simp
    moreover have "step (run j) (run (Suc j)) \<or> run (Suc j) = run j" using Suc.prems(1) unfolding fair_run_def by blast
    ultimately show ?thesis by (auto intro: rtranclp.rtrancl_into_rtrancl)
  qed simp
qed simp

lemma leads_to:
  assumes "fair_run step act_step run"
    and stays: "\<And>s s'. P s \<Longrightarrow> step s s' \<Longrightarrow> P s' \<or> Q s'"
    and possible: "\<And>s. P s \<Longrightarrow> possible act_step act s"
    and helps: "\<And>s s'. P s \<Longrightarrow> act_step act s s' \<Longrightarrow> Q s'"
    and "P (run i)"
  shows "\<exists>j \<ge> i. Q (run j)"
proof (rule ccontr)
  assume never: "\<not> (\<exists>j \<ge> i. Q (run j))"
  have P: "P (run j)" if "i \<le> j" for j
    using that
  proof (induction j rule: dec_induct)
    case (step j)
    have "step (run j) (run (Suc j)) \<or> run (Suc j) = run j" using assms(1) unfolding fair_run_def by blast
    moreover have "\<not> Q (run (Suc j))" using never step.hyps(1) le_SucI by blast
    ultimately show ?case using stays [OF step.IH] step.IH by auto
  qed (rule assms(5))
  obtain j where j: "i \<le> j" "\<not> possible act_step act (run j) \<or> act_step act (run j) (run (Suc j))"
    using assms(1) unfolding fair_run_def by blast
  with possible [OF P [OF j(1)]] helps [OF P [OF j(1)]] have "Q (run (Suc j))" by blast
  with never j(1) show False by (meson le_SucI)
qed

text \<open>A finite run to a state in which no action is possible is a fair run that stays there.\<close>

lemma finite_fair_run:
  assumes "step\<^sup>*\<^sup>* s s'" "\<And>act. \<not> possible act_step act s'"
  shows "\<exists>run i. fair_run step act_step run \<and> run 0 = s \<and> (\<forall>j \<ge> i. run j = s')"
  using assms(1)
proof (induction rule: converse_rtranclp_induct)
  case base
  show ?case using assms(2) by (intro exI [of _ "\<lambda>i. s'"] exI [of _ 0]) (auto simp: fair_run_def)
next
  case (step s t)
  then obtain run i where run: "fair_run step act_step run" "run 0 = t" "\<forall>j \<ge> i. run j = s'" by blast
  let ?run = "case_nat s run"
  have "step (?run i) (?run (Suc i)) \<or> ?run (Suc i) = ?run i" for i
    using run step.hyps(1) by (cases i) (auto simp: fair_run_def)
  moreover have "\<exists>j \<ge> i. \<not> possible act_step act (?run j) \<or> act_step act (?run j) (?run (Suc j))" for act i
  proof -
    obtain j where "i \<le> j" "\<not> possible act_step act (run j) \<or> act_step act (run j) (run (Suc j))"
      using run(1) unfolding fair_run_def by blast
    then show ?thesis by (intro exI [of _ "Suc j"]) simp
  qed
  ultimately have "fair_run step act_step ?run" by (simp add: fair_run_def)
  moreover have "?run j = s'" if "Suc i \<le> j" for j using run(3) that by (cases j) simp_all
  ultimately show ?case by (intro exI [of _ ?run] exI [of _ "Suc i"]) simp
qed

end

end
