(* ===== verification/Float32.thy ===== *)
theory Float32
  imports Prelude
begin

text \<open>
  IEEE-754 binary32, the \<open>float\<close> of the C++ code. A float is its 32-bit pattern; every finite
  value is an integer number of units of 2 to the power of -149 (the smallest subnormal), so
  comparison and subtraction are integer arithmetic and the other operations are one rounding of a
  quotient of naturals, to nearest with ties to even (the C++ default rounding mode). The code is
  compiled as ISO C++17 on targets that evaluate \<open>float\<close> in binary32, without contraction.
\<close>

section \<open>Representation\<close>

datatype float32 = F32 (f32_bits: u32)

text \<open>Number of binary digits; 0 for 0.\<close>

fun nat_bits :: "nat \<Rightarrow> nat" where
  "nat_bits n = (if n = 0 then 0 else Suc (nat_bits (n div 2)))"

declare nat_bits.simps [simp del]

definition f32_raw :: "float32 \<Rightarrow> nat" where
  "f32_raw x = unat (f32_bits x)"

definition f32_sign :: "float32 \<Rightarrow> bool" where
  "f32_sign x \<longleftrightarrow> 2 ^ 31 \<le> f32_raw x"

definition f32_exp :: "float32 \<Rightarrow> nat" where
  "f32_exp x = (f32_raw x div 2 ^ 23) mod 2 ^ 8"

definition f32_frac :: "float32 \<Rightarrow> nat" where
  "f32_frac x = f32_raw x mod 2 ^ 23"

definition f32_is_nan :: "float32 \<Rightarrow> bool" where
  "f32_is_nan x \<longleftrightarrow> f32_exp x = 255 \<and> f32_frac x \<noteq> 0"

definition f32_is_inf :: "float32 \<Rightarrow> bool" where
  "f32_is_inf x \<longleftrightarrow> f32_exp x = 255 \<and> f32_frac x = 0"

definition f32_is_finite :: "float32 \<Rightarrow> bool" where
  "f32_is_finite x \<longleftrightarrow> f32_exp x \<noteq> 255"

text \<open>
  Magnitude in units. An infinity reads as 2 to the power of 277, one binade above the largest
  finite magnitude, so the order of magnitudes is the order of the extended reals.
\<close>

definition f32_mag :: "float32 \<Rightarrow> nat" where
  "f32_mag x = (if f32_exp x = 0 then f32_frac x else (2 ^ 23 + f32_frac x) * 2 ^ (f32_exp x - 1))"

definition f32_val :: "float32 \<Rightarrow> int" where
  "f32_val x = (if f32_sign x then - int (f32_mag x) else int (f32_mag x))"

text \<open>One, and the first magnitude beyond the finite range, in units.\<close>

definition f32_unit :: nat where
  "f32_unit = 2 ^ 149"

definition f32_limit :: nat where
  "f32_limit = 2 ^ 277"

text \<open>The pattern with given sign, exponent and fraction fields.\<close>

definition f32_fields :: "bool \<Rightarrow> nat \<Rightarrow> nat \<Rightarrow> float32" where
  "f32_fields s e f = F32 (word_of_nat ((if s then 2 ^ 31 else 0) + (e * 2 ^ 23 + f)))"

section \<open>Rounding\<close>

text \<open>The pattern with a given sign and a magnitude that is representable, or overflows.\<close>

definition f32_encode :: "bool \<Rightarrow> nat \<Rightarrow> float32" where
  "f32_encode s u =
     F32 (word_of_nat ((if s then 2 ^ 31 else 0) +
       (if u < 2 ^ 23 then u
        else if f32_limit \<le> u then 255 * 2 ^ 23
        else let e = nat_bits u - 24 in (e + 1) * 2 ^ 23 + (u div 2 ^ e - 2 ^ 23))))"

definition round_half_even :: "nat \<Rightarrow> nat \<Rightarrow> nat" where
  "round_half_even n d =
     (let q = n div d; r = n mod d
      in if 2 * r < d then q else if d < 2 * r then q + 1 else if even q then q else q + 1)"

text \<open>The magnitude nearest to \<open>n / d\<close> units with at most 24 significant bits.\<close>

definition round_units :: "nat \<Rightarrow> nat \<Rightarrow> nat" where
  "round_units n d = (let e = nat_bits (n div d) - 24 in round_half_even n (d * 2 ^ e) * 2 ^ e)"

definition f32_round :: "bool \<Rightarrow> nat \<Rightarrow> nat \<Rightarrow> float32" where
  "f32_round s n d = f32_encode s (round_units n d)"

section \<open>Values and operations\<close>

definition f32_nan :: float32 where
  "f32_nan = F32 0x7FC00000"

definition f32_inf :: "bool \<Rightarrow> float32" where
  "f32_inf s = f32_encode s (f32_limit)"

definition f32_zero :: "bool \<Rightarrow> float32" where
  "f32_zero s = f32_encode s 0"

text \<open>Conversion from an unsigned integer, and with it the literals \<open>0.0F\<close>, \<open>180.0F\<close>, ...\<close>

definition f32_of_nat :: "nat \<Rightarrow> float32" where
  "f32_of_nat n = f32_round False (n * f32_unit) 1"

definition f32_neg :: "float32 \<Rightarrow> float32" where
  "f32_neg x = f32_fields (\<not> f32_sign x) (f32_exp x) (f32_frac x)"

definition f32_mul :: "float32 \<Rightarrow> float32 \<Rightarrow> float32" where
  "f32_mul x y =
     (let s = (f32_sign x \<noteq> f32_sign y)
      in if f32_is_nan x \<or> f32_is_nan y then f32_nan
         else if f32_is_inf x \<or> f32_is_inf y
         then (if f32_mag x = 0 \<or> f32_mag y = 0 then f32_nan else f32_inf s)
         else f32_round s (f32_mag x * f32_mag y) f32_unit)"

definition f32_div :: "float32 \<Rightarrow> float32 \<Rightarrow> float32" where
  "f32_div x y =
     (let s = (f32_sign x \<noteq> f32_sign y)
      in if f32_is_nan x \<or> f32_is_nan y then f32_nan
         else if f32_is_inf x then (if f32_is_inf y then f32_nan else f32_inf s)
         else if f32_is_inf y then f32_zero s
         else if f32_mag y = 0 then (if f32_mag x = 0 then f32_nan else f32_inf s)
         else f32_round s (f32_mag x * f32_unit) (f32_mag y))"

text \<open>
  An exact zero difference is \<open>+0\<close>, except \<open>(-0) - (+0) = -0\<close>.
\<close>

definition f32_sub :: "float32 \<Rightarrow> float32 \<Rightarrow> float32" where
  "f32_sub x y =
     (if f32_is_nan x \<or> f32_is_nan y then f32_nan
      else if f32_is_inf x
      then (if f32_is_inf y \<and> f32_sign x = f32_sign y then f32_nan else x)
      else if f32_is_inf y then f32_inf (\<not> f32_sign y)
      else let d = f32_val x - f32_val y
           in if d = 0 then f32_zero (f32_mag x = 0 \<and> f32_sign x \<and> \<not> f32_sign y)
              else f32_round (d < 0) (nat \<bar>d\<bar>) 1)"

text \<open>The C++ comparison operators: false as soon as one side is NaN.\<close>

instantiation float32 :: ord
begin

definition less_float32 :: "float32 \<Rightarrow> float32 \<Rightarrow> bool" where
  "less_float32 x y \<longleftrightarrow> \<not> f32_is_nan x \<and> \<not> f32_is_nan y \<and> f32_val x < f32_val y"

definition less_eq_float32 :: "float32 \<Rightarrow> float32 \<Rightarrow> bool" where
  "less_eq_float32 x y \<longleftrightarrow> \<not> f32_is_nan x \<and> \<not> f32_is_nan y \<and> f32_val x \<le> f32_val y"

instance ..

end

text \<open>
  \<open>static_cast<int>\<close>: truncation towards zero. The standard leaves the conversion undefined when
  the truncated value does not fit the type (or there is none): \<^const>\<open>None\<close>.
\<close>

definition f32_to_int :: "float32 \<Rightarrow> int option" where
  "f32_to_int x =
     (if \<not> f32_is_finite x then None
      else let t = int (f32_mag x div f32_unit); v = (if f32_sign x then - t else t)
           in if - (2 ^ 31) \<le> v \<and> v < 2 ^ 31 then Some v else None)"

lemmas f32_decode_defs =
  f32_raw_def f32_sign_def f32_exp_def f32_frac_def f32_mag_def f32_val_def
  f32_is_nan_def f32_is_inf_def f32_is_finite_def f32_unit_def f32_limit_def f32_fields_def

lemmas f32_compute_defs =
  f32_decode_defs f32_encode_def round_half_even_def round_units_def f32_round_def Let_def
  f32_nan_def f32_inf_def f32_zero_def f32_of_nat_def f32_neg_def f32_mul_def f32_div_def
  f32_sub_def f32_to_int_def less_float32_def less_eq_float32_def nat_bits.simps

section \<open>Binary digits\<close>

lemma nat_bits_0 [simp]: "nat_bits 0 = 0"
  by (simp add: nat_bits.simps)

lemma nat_bits_double: "0 < n \<Longrightarrow> nat_bits n = Suc (nat_bits (n div 2))"
  by (simp add: nat_bits.simps [of n])

lemma nat_bits_le_iff: "nat_bits n \<le> k \<longleftrightarrow> n < 2 ^ k"
proof (induction k arbitrary: n)
  case 0
  then show ?case by (cases "n = 0") (auto simp: nat_bits_double)
next
  case (Suc k)
  show ?case
  proof (cases "n = 0")
    case False
    then have "nat_bits n \<le> Suc k \<longleftrightarrow> n div 2 < 2 ^ k"
      by (simp add: nat_bits_double Suc.IH)
    also have "\<dots> \<longleftrightarrow> n < 2 ^ Suc k" by auto
    finally show ?thesis .
  qed simp
qed

lemma nat_bits_lower: "0 < n \<Longrightarrow> 2 ^ (nat_bits n - 1) \<le> n"
  by (metis diff_less nat_bits_le_iff nat_bits_double not_less zero_less_Suc zero_less_one)

lemma nat_bits_upper: "n < 2 ^ nat_bits n"
  by (simp flip: nat_bits_le_iff)

lemma nat_bits_mono: "m \<le> n \<Longrightarrow> nat_bits m \<le> nat_bits n"
  by (meson nat_bits_le_iff nat_bits_upper le_less_trans)

lemma nat_bits_eqI: "2 ^ k \<le> n \<Longrightarrow> n < 2 ^ Suc k \<Longrightarrow> nat_bits n = Suc k"
  by (metis nat_bits_le_iff le_antisym not_less not_less_eq_eq)

section \<open>Rounding to an integer\<close>

lemma round_half_even_cases:
  assumes "0 < d"
  shows "round_half_even n d = n div d \<and> 2 * (n mod d) \<le> d
       \<or> round_half_even n d = n div d + 1 \<and> d \<le> 2 * (n mod d)"
  using assms by (auto simp: round_half_even_def Let_def)

lemma round_half_even_exact [simp]: "0 < d \<Longrightarrow> round_half_even (q * d) d = q"
  by (simp add: round_half_even_def)

lemma round_half_even_mono:
  assumes "0 < d" "n \<le> n'"
  shows "round_half_even n d \<le> round_half_even n' d"
proof (cases "n div d = n' div d")
  case True
  then have "n mod d \<le> n' mod d"
    using assms(2) by (metis div_mult_mod_eq nat_add_left_cancel_le)
  with True show ?thesis by (auto simp: round_half_even_def Let_def)
next
  case False
  with assms have "n div d + 1 \<le> n' div d"
    by (metis Suc_eq_plus1 Suc_leI div_le_mono le_neq_implies_less)
  with round_half_even_cases [OF assms(1), of n] round_half_even_cases [OF assms(1), of n']
  show ?thesis by linarith
qed

lemma round_half_even_le: "0 < d \<Longrightarrow> n \<le> q * d \<Longrightarrow> round_half_even n d \<le> q"
  by (metis round_half_even_exact round_half_even_mono)

lemma round_half_even_ge: "0 < d \<Longrightarrow> q * d \<le> n \<Longrightarrow> q \<le> round_half_even n d"
  by (metis round_half_even_exact round_half_even_mono)

section \<open>Rounding to 24 significant bits\<close>

definition representable :: "nat \<Rightarrow> bool" where
  "representable u \<longleftrightarrow> (\<exists>m e. u = m * 2 ^ e \<and> m \<le> 2 ^ 24)"

lemma representableI: "m \<le> 2 ^ 24 \<Longrightarrow> representable (m * 2 ^ e)"
  by (auto simp: representable_def)

lemma representable_small: "u \<le> 2 ^ 24 \<Longrightarrow> representable u"
  using representableI [of u 0] by simp

text \<open>The exponent a quotient is rounded at, and what it says of the quotient.\<close>

definition round_exp :: "nat \<Rightarrow> nat \<Rightarrow> nat" where
  "round_exp n d = nat_bits (n div d) - 24"

lemma round_units_eq:
  "round_units n d = round_half_even n (d * 2 ^ round_exp n d) * 2 ^ round_exp n d"
  by (simp add: round_units_def round_exp_def Let_def)

lemma round_exp_upper: "0 < d \<Longrightarrow> n < 2 ^ (24 + round_exp n d) * d"
proof -
  assume d: "0 < d"
  have "nat_bits (n div d) \<le> 24 + round_exp n d" by (simp add: round_exp_def)
  then have "n div d < 2 ^ (24 + round_exp n d)" by (simp add: nat_bits_le_iff)
  with d show ?thesis by (simp add: div_less_iff_less_mult)
qed

lemma round_exp_lower:
  assumes "0 < d" "0 < round_exp n d"
  shows "2 ^ (23 + round_exp n d) * d \<le> n"
proof -
  from assms(2) have b: "nat_bits (n div d) = 24 + round_exp n d" by (simp add: round_exp_def)
  then have "0 < n div d" by (metis nat_bits_0 add_is_0 gr0I zero_neq_numeral)
  from nat_bits_lower [OF this] b have "2 ^ (23 + round_exp n d) \<le> n div d" by simp
  with assms(1) show ?thesis by (simp add: less_eq_div_iff_mult_less_eq)
qed

lemma round_exp_mono: "n \<le> n' \<Longrightarrow> round_exp n d \<le> round_exp n' d"
  unfolding round_exp_def by (intro diff_le_mono nat_bits_mono div_le_mono)

lemma round_units_le_binade: "0 < d \<Longrightarrow> round_units n d \<le> 2 ^ (24 + round_exp n d)"
proof -
  assume d: "0 < d"
  have "n \<le> 2 ^ 24 * (d * 2 ^ round_exp n d)"
    using round_exp_upper [OF d, of n] by (simp add: power_add mult_ac)
  then have "round_half_even n (d * 2 ^ round_exp n d) \<le> 2 ^ 24"
    using d by (intro round_half_even_le) auto
  then show ?thesis
    by (simp add: round_units_eq power_add)
qed

lemma round_units_ge_binade:
  assumes "0 < d" "0 < round_exp n d"
  shows "2 ^ (23 + round_exp n d) \<le> round_units n d"
proof -
  have "2 ^ 23 * (d * 2 ^ round_exp n d) \<le> n"
    using round_exp_lower [OF assms] by (simp add: power_add mult_ac)
  then have "2 ^ 23 \<le> round_half_even n (d * 2 ^ round_exp n d)"
    using assms(1) by (intro round_half_even_ge) auto
  then show ?thesis
    by (simp add: round_units_eq power_add)
qed

lemma round_units_representable: "0 < d \<Longrightarrow> representable (round_units n d)"
proof -
  assume d: "0 < d"
  have "n \<le> 2 ^ 24 * (d * 2 ^ round_exp n d)"
    using round_exp_upper [OF d, of n] by (simp add: power_add mult_ac)
  then have "round_half_even n (d * 2 ^ round_exp n d) \<le> 2 ^ 24"
    using d by (intro round_half_even_le) auto
  then show ?thesis by (simp add: round_units_eq representableI)
qed

lemma round_units_mono:
  assumes d: "0 < d" and le: "n \<le> n'"
  shows "round_units n d \<le> round_units n' d"
proof (cases "round_exp n d = round_exp n' d")
  case True
  have "round_half_even n (d * 2 ^ round_exp n' d) \<le> round_half_even n' (d * 2 ^ round_exp n' d)"
    using d le by (intro round_half_even_mono) auto
  with True show ?thesis by (simp add: round_units_eq)
next
  case False
  with round_exp_mono [OF le, of d] have lt: "round_exp n d < round_exp n' d" by simp
  have "round_units n d \<le> 2 ^ (24 + round_exp n d)" by (rule round_units_le_binade [OF d])
  also have "\<dots> \<le> 2 ^ (23 + round_exp n' d)" using lt by (intro power_increasing) auto
  also have "\<dots> \<le> round_units n' d" using d lt by (intro round_units_ge_binade) auto
  finally show ?thesis .
qed

lemma round_units_exact:
  assumes d: "0 < d" and u: "representable u"
  shows "round_units (u * d) d = u"
proof -
  let ?e = "round_exp (u * d) d"
  have e: "?e = nat_bits u - 24" using d by (simp add: round_exp_def)
  have "2 ^ ?e dvd u"
  proof (cases "?e = 0")
    case False
    from u obtain m k where mk: "u = m * 2 ^ k" "m \<le> 2 ^ 24" by (auto simp: representable_def)
    show ?thesis
    proof (cases "?e \<le> k")
      case True
      then show ?thesis unfolding mk(1) by (simp add: le_imp_power_dvd)
    next
      case k: False
      have "2 ^ (23 + ?e) * d \<le> u * d" using False by (intro round_exp_lower [OF d]) simp
      then have lo: "2 ^ (23 + ?e) \<le> u" using d by simp
      have "u \<le> 2 ^ (24 + k)" using mk by (simp add: power_add)
      also have "(2::nat) ^ (24 + k) \<le> 2 ^ (23 + ?e)" using k by (intro power_increasing) auto
      finally have "u = 2 ^ (23 + ?e)" using lo by simp
      then show ?thesis by (metis le_add2 le_imp_power_dvd)
    qed
  qed simp
  then obtain q where q: "u = q * 2 ^ ?e" by (metis dvd_def mult.commute)
  have "u * d = q * (d * 2 ^ ?e)"
    using q by (metis mult.assoc mult.commute)
  moreover have "0 < d * 2 ^ ?e" using d by simp
  ultimately have "round_half_even (u * d) (d * 2 ^ ?e) = q"
    using round_half_even_exact [of "d * 2 ^ ?e" q] by (simp only:)
  then show ?thesis using q by (simp add: round_units_eq)
qed

lemma round_units_le: "0 < d \<Longrightarrow> representable u \<Longrightarrow> n \<le> u * d \<Longrightarrow> round_units n d \<le> u"
  by (metis round_units_exact round_units_mono)

lemma round_units_ge: "0 < d \<Longrightarrow> representable u \<Longrightarrow> u * d \<le> n \<Longrightarrow> u \<le> round_units n d"
  by (metis round_units_exact round_units_mono)

lemma round_units_0 [simp]: "0 < d \<Longrightarrow> round_units 0 d = 0"
  using round_units_exact [of d 0] by (simp add: representable_small)

section \<open>Decoding an encoded magnitude\<close>


lemma f32_fields_raw:
  assumes "e < 256" "f < 2 ^ 23"
  shows "f32_raw (f32_fields s e f) = (if s then 2 ^ 31 else 0) + (e * 2 ^ 23 + f)"
proof -
  have "(if s then 2 ^ 31 else 0) + (e * 2 ^ 23 + f) < (2::nat) ^ LENGTH(32)"
    using assms by simp
  then show ?thesis
    by (simp add: f32_raw_def f32_fields_def unat_of_nat del: of_nat_add)
qed

lemma f32_fields_read:
  assumes "e < 256" "f < 2 ^ 23"
  shows "f32_sign (f32_fields s e f) = s" "f32_exp (f32_fields s e f) = e"
    "f32_frac (f32_fields s e f) = f"
proof -
  have sgn: "(if s then 2 ^ 31 else 0) + (e * 2 ^ 23 + f) = (e + (if s then 256 else 0)) * 2 ^ 23 + f"
    by simp
  show "f32_sign (f32_fields s e f) = s"
    using assms by (auto simp: f32_sign_def f32_fields_raw)
  show "f32_frac (f32_fields s e f) = f"
    using assms unfolding f32_frac_def f32_fields_raw [OF assms] sgn mod_mult_self3 by simp
  have "(e + (if s then 256 else 0)) mod 2 ^ 8 = e" using assms(1) by simp
  then show "f32_exp (f32_fields s e f) = e"
    using assms unfolding f32_exp_def f32_fields_raw [OF assms] sgn
    by (simp only: div_mult_self3 div_less) simp
qed

lemma f32_encode_small: "u < 2 ^ 23 \<Longrightarrow> f32_encode s u = f32_fields s 0 u"
  by (simp add: f32_encode_def f32_fields_def)

lemma f32_encode_inf: "f32_limit \<le> u \<Longrightarrow> f32_encode s u = f32_fields s 255 0"
proof -
  assume u: "f32_limit \<le> u"
  have "2 ^ 23 \<le> f32_limit" by (simp add: f32_limit_def)
  with u have "\<not> u < 2 ^ 23" by linarith
  with u show ?thesis by (simp only: f32_encode_def f32_fields_def if_True if_False) simp
qed

lemma f32_encode_normal:
  assumes u: "2 ^ 23 \<le> u" "u < f32_limit" "representable u"
  obtains m e where "m < 2 ^ 23" "e < 254" "u = (2 ^ 23 + m) * 2 ^ e"
    "f32_encode s u = f32_fields s (e + 1) m"
proof -
  define e where "e = nat_bits u - 24"
  have b: "nat_bits u = 24 + e"
    using u(1) nat_bits_le_iff [of u 23] by (simp add: e_def)
  have "nat_bits u \<le> 277" using u(2) by (simp only: nat_bits_le_iff f32_limit_def)
  with b have e: "e < 254" by simp
  have "round_exp (u * 1) 1 = e" by (simp add: round_exp_def e_def)
  then have "u = round_half_even u (2 ^ e) * 2 ^ e"
    using round_units_exact [of 1 u] u(3) by (simp add: round_units_eq)
  then obtain q where q: "u = q * 2 ^ e" by blast
  have "q < 2 ^ 24"
  proof -
    have "q * 2 ^ e < 2 ^ (24 + e)" using nat_bits_upper [of u] by (simp only: b) (simp add: q)
    then show ?thesis by (simp add: power_add)
  qed
  moreover have "2 ^ 23 \<le> q"
  proof -
    have "2 ^ (nat_bits u - 1) \<le> u" using u(1) by (intro nat_bits_lower) auto
    moreover have "nat_bits u - 1 = 23 + e" using b by simp
    ultimately have "(2::nat) ^ (23 + e) \<le> q * 2 ^ e" using q by simp
    then show ?thesis by (simp add: power_add)
  qed
  ultimately have m: "q - 2 ^ 23 < 2 ^ 23" "q = 2 ^ 23 + (q - 2 ^ 23)" by auto
  have "u div 2 ^ e = q" by (simp add: q)
  then have "f32_encode s u = f32_fields s (e + 1) (q - 2 ^ 23)"
    using u(1,2) by (simp only: f32_encode_def f32_fields_def Let_def e_def [symmetric] not_less
        if_False linorder_not_le [symmetric] if_True simp_thms)
  with m e q that show thesis by metis
qed

lemma f32_mag_fields:
  "e < 256 \<Longrightarrow> f < 2 ^ 23 \<Longrightarrow>
   f32_mag (f32_fields s e f) = (if e = 0 then f else (2 ^ 23 + f) * 2 ^ (e - 1))"
  by (simp add: f32_mag_def f32_fields_read)

lemma f32_encode_spec:
  assumes "representable u"
  shows "f32_sign (f32_encode s u) = s \<and> f32_mag (f32_encode s u) = min u (f32_limit) \<and>
         \<not> f32_is_nan (f32_encode s u) \<and> f32_is_inf (f32_encode s u) = (f32_limit \<le> u)"
proof (cases "f32_limit \<le> u")
  case True
  have *: "(255::nat) < 256" "(0::nat) < 2 ^ 23" by simp_all
  have "f32_mag (f32_fields s 255 0) = f32_limit"
    by (simp add: f32_mag_fields f32_limit_def)
  with True show ?thesis
    by (simp only: f32_encode_inf f32_is_nan_def f32_is_inf_def f32_fields_read [OF *] min_absorb2) simp
next
  case small: False
  show ?thesis
  proof (cases "u < 2 ^ 23")
    case True
    have *: "(0::nat) < 256" by simp
    from True small show ?thesis
      by (simp only: f32_encode_small f32_is_nan_def f32_is_inf_def f32_fields_read [OF * True]
          f32_mag_fields [OF * True]) simp
  next
    case False
    with small have "2 ^ 23 \<le> u" "u < f32_limit" by simp_all
    from f32_encode_normal [OF this assms, of s] obtain m e where
      m: "m < 2 ^ 23" "e < 254" "u = (2 ^ 23 + m) * 2 ^ e"
      and enc: "f32_encode s u = f32_fields s (e + 1) m" by metis
    have e: "e + 1 < 256" using m(2) by simp
    have "f32_mag (f32_encode s u) = u"
      unfolding enc f32_mag_fields [OF e m(1)] using m(3) by simp
    moreover have "f32_exp (f32_encode s u) \<noteq> 255" "f32_sign (f32_encode s u) = s"
      using m(2) unfolding enc f32_fields_read [OF e m(1)] by simp_all
    ultimately show ?thesis using small by (simp add: f32_is_nan_def f32_is_inf_def)
  qed
qed

lemmas f32_encode_sign = f32_encode_spec [THEN conjunct1]
lemmas f32_encode_mag = f32_encode_spec [THEN conjunct2, THEN conjunct1]
lemmas f32_encode_not_nan = f32_encode_spec [THEN conjunct2, THEN conjunct2, THEN conjunct1]
lemmas f32_encode_is_inf = f32_encode_spec [THEN conjunct2, THEN conjunct2, THEN conjunct2]

lemma f32_round_spec:
  assumes "0 < d"
  shows "f32_sign (f32_round s n d) = s" "f32_mag (f32_round s n d) = min (round_units n d) (f32_limit)"
    "\<not> f32_is_nan (f32_round s n d)"
  unfolding f32_round_def
  using f32_encode_spec [OF round_units_representable [OF assms], of s n] by blast+

section \<open>Comparison, and the operations on finite values\<close>

lemma f32_finite_iff: "f32_is_finite x \<longleftrightarrow> \<not> f32_is_nan x \<and> \<not> f32_is_inf x"
  by (auto simp: f32_is_finite_def f32_is_nan_def f32_is_inf_def)

lemma f32_less_iff: "\<not> f32_is_nan x \<Longrightarrow> \<not> f32_is_nan y \<Longrightarrow> x < y \<longleftrightarrow> f32_val x < f32_val y"
  by (simp add: less_float32_def)

lemma f32_le_iff: "\<not> f32_is_nan x \<Longrightarrow> \<not> f32_is_nan y \<Longrightarrow> x \<le> y \<longleftrightarrow> f32_val x \<le> f32_val y"
  by (simp add: less_eq_float32_def)

lemma f32_frac_less: "f32_frac x < 2 ^ 23"
  by (simp add: f32_frac_def)

lemma f32_exp_less: "f32_exp x < 256"
  by (simp add: f32_exp_def)

lemma f32_mag_finite_less: "f32_is_finite x \<Longrightarrow> f32_mag x < f32_limit"
proof -
  assume fin: "f32_is_finite x"
  have "f32_mag x < 2 ^ 24 * 2 ^ (f32_exp x - 1)"
    using f32_frac_less [of x] by (auto simp: f32_mag_def)
  also have "\<dots> \<le> 2 ^ 24 * 2 ^ 253"
    using fin f32_exp_less [of x] by (intro mult_le_mono2 power_increasing) (auto simp: f32_is_finite_def)
  also have "\<dots> = f32_limit" by (simp add: f32_limit_def)
  finally show ?thesis .
qed

lemma f32_mag_representable: "representable (f32_mag x)"
proof (cases "f32_exp x = 0")
  case True
  then show ?thesis using f32_frac_less [of x] by (simp add: f32_mag_def representable_small)
next
  case False
  then show ?thesis using f32_frac_less [of x] by (simp add: f32_mag_def representableI)
qed

lemma f32_abs_val: "nat \<bar>f32_val x\<bar> = f32_mag x"
  by (simp add: f32_val_def)

text \<open>Conversion of an unsigned integer that fits the significand is exact.\<close>

lemma f32_unit_pos [simp]: "0 < f32_unit"
  by (simp add: f32_unit_def)

lemma f32_round_exact:
  assumes "0 < d" "representable u" "u < f32_limit" "n = u * d"
  shows "f32_sign (f32_round s n d) = s" "f32_mag (f32_round s n d) = u"
    "f32_is_finite (f32_round s n d)"
proof -
  have r: "round_units n d = u" using assms by (simp add: round_units_exact)
  show "f32_sign (f32_round s n d) = s" by (rule f32_round_spec(1) [OF assms(1)])
  show "f32_mag (f32_round s n d) = u"
    using f32_round_spec(2) [OF assms(1), of s n] assms(3) unfolding r by simp
  have "\<not> f32_is_inf (f32_round s n d)"
    unfolding f32_round_def r using f32_encode_is_inf [OF assms(2), of s] assms(3)
    by (simp only: not_le)
  then show "f32_is_finite (f32_round s n d)"
    using f32_round_spec(3) [OF assms(1)] by (simp add: f32_finite_iff)
qed

lemma f32_of_nat_exact:
  assumes "n \<le> 2 ^ 24"
  shows "f32_is_finite (f32_of_nat n)" "f32_mag (f32_of_nat n) = n * f32_unit"
    "f32_sign (f32_of_nat n) = False" "f32_val (f32_of_nat n) = int (n * f32_unit)"
proof -
  have rep: "representable (n * f32_unit)" unfolding f32_unit_def using assms by (rule representableI)
  have "n * f32_unit \<le> 2 ^ 24 * f32_unit" using assms by (intro mult_le_mono1)
  also have "\<dots> < f32_limit" by (simp add: f32_unit_def f32_limit_def)
  finally have lt: "n * f32_unit < f32_limit" .
  have d: "(0::nat) < 1" by simp
  note ex = f32_round_exact [OF d rep lt, of "n * f32_unit" False, simplified]
  show "f32_is_finite (f32_of_nat n)" "f32_mag (f32_of_nat n) = n * f32_unit"
    "f32_sign (f32_of_nat n) = False"
    using ex by (simp_all add: f32_of_nat_def)
  then show "f32_val (f32_of_nat n) = int (n * f32_unit)" by (simp add: f32_val_def)
qed

lemma f32_neg_fields:
  "f32_sign (f32_neg x) = (\<not> f32_sign x)" "f32_exp (f32_neg x) = f32_exp x"
  "f32_frac (f32_neg x) = f32_frac x"
  unfolding f32_neg_def by (rule f32_fields_read [OF f32_exp_less f32_frac_less])+

lemma f32_neg_read:
  "f32_mag (f32_neg x) = f32_mag x" "f32_val (f32_neg x) = - f32_val x"
  "f32_is_finite (f32_neg x) = f32_is_finite x"
  by (simp_all add: f32_neg_fields f32_mag_def f32_val_def f32_is_finite_def)

text \<open>Subtraction: the difference, rounded; exact when the difference is representable.\<close>

lemma f32_sub_finite:
  assumes "f32_is_finite x" "f32_is_finite y"
  shows "\<not> f32_is_nan (f32_sub x y)"
    "f32_val (f32_sub x y) =
       sgn (f32_val x - f32_val y) * int (min (round_units (nat \<bar>f32_val x - f32_val y\<bar>) 1) (f32_limit))"
proof -
  have d: "(0::nat) < 1" by simp
  have z: "f32_mag (f32_zero s) = 0" "\<not> f32_is_nan (f32_zero s)" for s
    using f32_encode_spec [of 0 s] by (simp_all add: f32_zero_def representable_small)
  let ?d = "f32_val x - f32_val y"
  have sub: "f32_sub x y = (if ?d = 0 then f32_zero (f32_mag x = 0 \<and> f32_sign x \<and> \<not> f32_sign y)
      else f32_round (?d < 0) (nat \<bar>?d\<bar>) 1)"
    using assms by (simp add: f32_sub_def f32_finite_iff Let_def)
  show "\<not> f32_is_nan (f32_sub x y)"
    using z f32_round_spec(3) [OF d] by (simp add: sub)
  show "f32_val (f32_sub x y) = sgn ?d * int (min (round_units (nat \<bar>?d\<bar>) 1) (f32_limit))"
  proof (cases "?d = 0")
    case True
    then show ?thesis using z by (simp add: sub f32_val_def)
  next
    case False
    then have "f32_val (f32_sub x y) =
        (if ?d < 0 then - int (f32_mag (f32_sub x y)) else int (f32_mag (f32_sub x y)))"
      by (simp add: sub f32_val_def f32_round_spec(1) [OF d] del: One_nat_def)
    also have "f32_mag (f32_sub x y) = min (round_units (nat \<bar>?d\<bar>) 1) f32_limit"
      using False by (simp add: sub f32_round_spec(2) [OF d] del: One_nat_def)
    finally show ?thesis using False by (simp add: sgn_if del: One_nat_def)
  qed
qed

lemma f32_sub_exact:
  assumes "f32_is_finite x" "f32_is_finite y" and d: "f32_val x - f32_val y = d"
    and rep: "representable (nat \<bar>d\<bar>)" and lt: "nat \<bar>d\<bar> < f32_limit"
  shows "f32_is_finite (f32_sub x y)" "f32_val (f32_sub x y) = d"
proof -
  have one: "(0::nat) < 1" by simp
  have r: "round_units (nat \<bar>d\<bar>) 1 = nat \<bar>d\<bar>" using round_units_exact [OF one rep] by simp
  show v: "f32_val (f32_sub x y) = d"
    using f32_sub_finite(2) [OF assms(1,2)] lt unfolding d r by (simp add: sgn_mult_abs min_absorb1)
  have "\<not> f32_is_inf z" if "f32_mag z < f32_limit" for z
    using that by (auto simp: f32_is_inf_def f32_mag_def f32_limit_def)
  moreover have "f32_mag (f32_sub x y) < f32_limit"
    using lt by (simp add: v flip: f32_abs_val)
  ultimately show "f32_is_finite (f32_sub x y)"
    using f32_sub_finite(1) [OF assms(1,2)] by (simp add: f32_finite_iff)
qed

text \<open>Division of finite values by a non-zero one.\<close>

lemma f32_div_finite:
  assumes "f32_is_finite x" "f32_is_finite y" "f32_mag y \<noteq> 0"
  shows "f32_div x y = f32_round (f32_sign x \<noteq> f32_sign y) (f32_mag x * f32_unit) (f32_mag y)"
  using assms by (simp add: f32_div_def f32_finite_iff Let_def)

lemma f32_div_exact:
  assumes "f32_is_finite x" "f32_is_finite y" "f32_mag y \<noteq> 0"
    and "f32_mag x * f32_unit = q * f32_mag y" "representable q" "q < f32_limit"
  shows "f32_is_finite (f32_div x y)" "f32_mag (f32_div x y) = q"
    "f32_sign (f32_div x y) = (f32_sign x \<noteq> f32_sign y)"
  using f32_round_exact [of "f32_mag y" q "f32_mag x * f32_unit" "f32_sign x \<noteq> f32_sign y"] assms
  by (simp_all add: f32_div_finite)

lemma f32_mul_exact:
  assumes "f32_is_finite x" "f32_is_finite y"
    and "f32_mag x * f32_mag y = q * f32_unit" "representable q" "q < f32_limit"
  shows "f32_is_finite (f32_mul x y)" "f32_mag (f32_mul x y) = q"
    "f32_sign (f32_mul x y) = (f32_sign x \<noteq> f32_sign y)"
  using f32_round_exact [of f32_unit q "f32_mag x * f32_mag y" "f32_sign x \<noteq> f32_sign y"] assms
  by (simp_all add: f32_mul_def f32_finite_iff Let_def)

lemma f32_to_int_finite:
  assumes "f32_is_finite x" "f32_mag x div f32_unit < 2 ^ 31"
  shows "f32_to_int x = Some (if f32_sign x then - int (f32_mag x div f32_unit) else int (f32_mag x div f32_unit))"
proof -
  have "int (f32_mag x div f32_unit) < 2 ^ 31" using assms(2) by (simp only: of_nat_less_numeral_power_cancel_iff)
  with assms(1) show ?thesis by (simp add: f32_to_int_def Let_def)
qed

text \<open>Comparison of whole numbers held exactly.\<close>

lemma f32_of_nat_number [f32_eval]:
  assumes "m \<le> 16777216"
  shows "\<not> f32_is_nan (f32_of_nat m)" "\<not> f32_is_nan (f32_neg (f32_of_nat m))"
  using f32_of_nat_exact(1) [of m] f32_neg_read(3) [of "f32_of_nat m"] assms by (simp_all add: f32_finite_iff)

lemma f32_of_nat_order [f32_eval]:
  assumes "m \<le> 16777216" "n \<le> 16777216"
  shows "f32_of_nat m < f32_of_nat n \<longleftrightarrow> m < n" "f32_of_nat m \<le> f32_of_nat n \<longleftrightarrow> m \<le> n"
    "f32_neg (f32_of_nat m) < f32_of_nat n \<longleftrightarrow> 0 < m + n" "\<not> f32_of_nat m < f32_neg (f32_of_nat n)"
proof -
  have "m \<le> 2 ^ 24" "n \<le> 2 ^ 24" using assms by simp_all
  note ex = f32_of_nat_exact [OF this(1)] f32_of_nat_exact [OF this(2)]
  note nan = f32_of_nat_number [OF assms(1)] and nan' = f32_of_nat_number [OF assms(2)]
  have "int (m * f32_unit) < int (n * f32_unit) \<longleftrightarrow> m < n" "int (m * f32_unit) \<le> int (n * f32_unit) \<longleftrightarrow> m \<le> n"
    using f32_unit_pos by (simp_all only: of_nat_less_iff of_nat_le_iff mult_less_cancel2 mult_le_cancel2) simp_all
  then show "f32_of_nat m < f32_of_nat n \<longleftrightarrow> m < n" "f32_of_nat m \<le> f32_of_nat n \<longleftrightarrow> m \<le> n"
    unfolding f32_less_iff [OF nan(1) nan'(1)] f32_le_iff [OF nan(1) nan'(1)] ex(4,8) by blast+
  have z: "int (k * f32_unit) \<ge> 0" "int (k * f32_unit) = 0 \<longleftrightarrow> k = 0" for k
    using f32_unit_pos by (simp_all only: of_nat_0_le_iff of_nat_eq_0_iff mult_is_0) linarith
  show "f32_neg (f32_of_nat m) < f32_of_nat n \<longleftrightarrow> 0 < m + n"
    unfolding f32_less_iff [OF nan(2) nan'(1)] f32_neg_read(2) ex(4,8) using z [of m] z [of n] by linarith
  show "\<not> f32_of_nat m < f32_neg (f32_of_nat n)"
    unfolding f32_less_iff [OF nan(1) nan'(2)] f32_neg_read(2) ex(4,8) using z [of m] z [of n] by linarith
qed

end
