(* ===== verification/DomainTypes.thy ===== *)
theory DomainTypes
  imports Float32
begin

text \<open>
  The domain types of \<open>common/Types.hpp\<close>: one lidar measurement and one revolution of them.
\<close>

record scan_point =
  angle_deg :: float32
  distance_mm :: float32
  quality :: u8

definition isValid :: "scan_point \<Rightarrow> bool" where
  "isValid p \<longleftrightarrow> f32_of_nat 0 < distance_mm p \<and> 0 < quality p"

record scan_frame =
  sequence :: u32
  timestamp_us :: u64
  points :: "scan_point list"

text \<open>The value-initialised frame \<open>ScanFrame{}\<close>.\<close>

definition default_frame :: scan_frame where
  "default_frame = \<lparr>sequence = 0, timestamp_us = 0, points = []\<rparr>"

definition frame_size :: "scan_frame \<Rightarrow> nat" where
  "frame_size f = length (points f)"

definition frame_empty :: "scan_frame \<Rightarrow> bool" where
  "frame_empty f \<longleftrightarrow> points f = []"

text \<open>
  Sequence numbers wrap at 2 to the power of 32; the header asks consumers to compare them by the
  sign of their difference.
\<close>

definition seq_before :: "u32 \<Rightarrow> u32 \<Rightarrow> bool" where
  "seq_before a b \<longleftrightarrow> sint (a - b) < 0"

end
