(* ===== verification/Protocol.thy ===== *)
theory Protocol
  imports DomainTypes "HOL-Library.Monad_Syntax"
begin

text \<open>
  The wire protocol of \<open>common/Protocol.hpp\<close>: the little-endian primitives, the encoder, the
  decoder with its reassembly buffer, and resynchronisation. A read through the data pointer is
  checked against the buffer: reading beyond its end, undefined in C++, is \<^const>\<open>None\<close>, so
  that memory safety of the decoder is a theorem. Sizes are naturals; the largest packet size the
  decoder computes fits 32 bits (\<open>packet_size_bound\<close>), so \<open>std::size_t\<close> never wraps.
\<close>

section \<open>Constants and statuses\<close>

definition kMagic :: u32 where "kMagic = 0x42454131"
definition kVersion :: u16 where "kVersion = 1"
definition kHeaderSizeV1 :: u16 where "kHeaderSizeV1 = 32"
definition kPointStrideV1 :: u16 where "kPointStrideV1 = 10"
definition kFlagCrc32 :: u32 where "kFlagCrc32 = 1"
definition kKnownFlagsMask :: u32 where "kKnownFlagsMask = kFlagCrc32"
definition kCrcTrailerSize :: nat where "kCrcTrailerSize = 4"
definition kMaxPointsPerFrame :: u32 where "kMaxPointsPerFrame = 65536"
definition kMaxPointStride :: u16 where "kMaxPointStride = 256"
definition kMaxHeaderSize :: u16 where "kMaxHeaderSize = 1024"

lemmas protocol_constants =
  kMagic_def kVersion_def kHeaderSizeV1_def kPointStrideV1_def kFlagCrc32_def kKnownFlagsMask_def
  kCrcTrailerSize_def kMaxPointsPerFrame_def kMaxPointStride_def kMaxHeaderSize_def

datatype DecodeStatus =
  Ok | NeedMoreData | BadMagic | BadVersion | BadHeader | TooLarge | CrcMismatch

definition status_toString :: "DecodeStatus \<Rightarrow> string" where
  "status_toString status = (case status of
      Ok \<Rightarrow> ''Ok''
    | NeedMoreData \<Rightarrow> ''NeedMoreData''
    | BadMagic \<Rightarrow> ''BadMagic''
    | BadVersion \<Rightarrow> ''BadVersion''
    | BadHeader \<Rightarrow> ''BadHeader''
    | TooLarge \<Rightarrow> ''TooLarge''
    | CrcMismatch \<Rightarrow> ''CrcMismatch'')"

section \<open>Primitives\<close>

text \<open>\<open>putUint<Bytes>\<close>: append the low octets of a value, least significant first.\<close>

definition putUint :: "nat \<Rightarrow> bytes \<Rightarrow> u64 \<Rightarrow> bytes" where
  "putUint n out v = out @ map (\<lambda>i. ucast (drop_bit (8 * i) v AND 0xFF)) [0..<n]"

definition putFloat32 :: "bytes \<Rightarrow> float32 \<Rightarrow> bytes" where
  "putFloat32 out x = putUint 4 out (ucast (f32_bits x))"

text \<open>
  \<open>getUint<Bytes>(data + off)\<close>: the loop \<open>value |= data[i] << (8 * i)\<close> over the octets from the
  offset on; \<^const>\<open>None\<close> when they are not all inside the buffer.
\<close>

definition getUint :: "nat \<Rightarrow> bytes \<Rightarrow> nat \<Rightarrow> u64 option" where
  "getUint n buf off =
     (if off + n \<le> length buf
      then Some (fold (\<lambda>i v. v OR push_bit (8 * i) (ucast (buf ! (off + i)))) [0..<n] 0)
      else None)"

definition getFloat32 :: "bytes \<Rightarrow> nat \<Rightarrow> float32 option" where
  "getFloat32 buf off = do { v \<leftarrow> getUint 4 buf off; Some (F32 (ucast v)) }"

section \<open>Encoder\<close>

definition pointCount :: "scan_frame \<Rightarrow> u32" where
  "pointCount frame =
     (let n = length (points frame)
      in if unat kMaxPointsPerFrame < n then kMaxPointsPerFrame else word_of_nat n)"

definition encode_point :: "bytes \<Rightarrow> scan_point \<Rightarrow> bytes" where
  "encode_point out p =
     putUint 1 (putUint 1 (putFloat32 (putFloat32 out (angle_deg p)) (distance_mm p))
       (ucast (quality p))) 0"

definition encode_header :: "scan_frame \<Rightarrow> u32 \<Rightarrow> bytes" where
  "encode_header frame count =
     (let out = putUint 4 [] (ucast kMagic);
          out = putUint 2 out (ucast kVersion);
          out = putUint 2 out (ucast kHeaderSizeV1);
          out = putUint 4 out 0;
          out = putUint 4 out (ucast (sequence frame));
          out = putUint 8 out (timestamp_us frame);
          out = putUint 4 out (ucast count);
          out = putUint 2 out (ucast kPointStrideV1)
      in putUint 2 out 0)"

definition encode :: "scan_frame \<Rightarrow> bytes" where
  "encode frame =
     (let count = pointCount frame
      in fold (\<lambda>i out. encode_point out (points frame ! i)) [0..<unat count]
           (encode_header frame count))"

definition encodedSize :: "scan_frame \<Rightarrow> nat" where
  "encodedSize frame = unat kHeaderSizeV1 + unat (pointCount frame) * unat kPointStrideV1"

section \<open>Decoder\<close>

record protocol_decoder =
  buffer :: bytes

text \<open>A null pointer, or no bytes, leaves the buffer as it is.\<close>

definition feed :: "protocol_decoder \<Rightarrow> bytes option \<Rightarrow> protocol_decoder" where
  "feed d data = (case data of
      None \<Rightarrow> d
    | Some bs \<Rightarrow> if bs = [] then d else d\<lparr>buffer := buffer d @ bs\<rparr>)"

text \<open>The loop over the point records; the pointer advances by the packet's own stride.\<close>

fun decode_points :: "bytes \<Rightarrow> nat \<Rightarrow> nat \<Rightarrow> nat \<Rightarrow> scan_point list option" where
  "decode_points buf p stride 0 = Some []"
| "decode_points buf p stride (Suc n) = do {
     a \<leftarrow> getFloat32 buf p;
     d \<leftarrow> getFloat32 buf (p + 4);
     q \<leftarrow> getUint 1 buf (p + 8);
     ps \<leftarrow> decode_points buf (p + stride) stride n;
     Some (\<lparr>angle_deg = a, distance_mm = d, quality = ucast q\<rparr> # ps) }"

definition packet_size :: "u16 \<Rightarrow> u32 \<Rightarrow> u16 \<Rightarrow> u32 \<Rightarrow> nat" where
  "packet_size header_size point_count point_stride flags =
     (let payload_size = unat point_count * unat point_stride;
          trailer_size = (if flags AND kFlagCrc32 \<noteq> 0 then kCrcTrailerSize else 0)
      in unat header_size + payload_size + trailer_size)"

text \<open>
  \<open>decode\<close> returns the status, the decoder and the caller's frame; \<^const>\<open>None\<close> would be a read
  outside the buffer.
\<close>

definition decode ::
  "protocol_decoder \<Rightarrow> scan_frame \<Rightarrow> (DecodeStatus \<times> protocol_decoder \<times> scan_frame) option" where
  "decode d out =
     (if length (buffer d) < unat kHeaderSizeV1 then Some (NeedMoreData, d, out)
      else do {
        let h = buffer d;
        magic \<leftarrow> getUint 4 h 0;
        if magic \<noteq> ucast kMagic then Some (BadMagic, d, out) else do {
        v \<leftarrow> getUint 2 h 4;
        let version = (ucast v :: u16);
        if version \<noteq> kVersion then Some (BadVersion, d, out) else do {
        hs \<leftarrow> getUint 2 h 6;
        fl \<leftarrow> getUint 4 h 8;
        sq \<leftarrow> getUint 4 h 12;
        timestamp \<leftarrow> getUint 8 h 16;
        pc \<leftarrow> getUint 4 h 24;
        st \<leftarrow> getUint 2 h 28;
        let header_size = (ucast hs :: u16);
        let flags = (ucast fl :: u32);
        let point_count = (ucast pc :: u32);
        let point_stride = (ucast st :: u16);
        if header_size < kHeaderSizeV1 \<or> kMaxHeaderSize < header_size \<or>
           point_stride < kPointStrideV1 \<or> kMaxPointStride < point_stride
        then Some (BadHeader, d, out)
        else if flags AND NOT kKnownFlagsMask \<noteq> 0 then Some (BadHeader, d, out)
        else if kMaxPointsPerFrame < point_count then Some (TooLarge, d, out)
        else do {
        let size = packet_size header_size point_count point_stride flags;
        if length (buffer d) < size then Some (NeedMoreData, d, out) else do {
        ps \<leftarrow> decode_points h (unat header_size) (unat point_stride) (unat point_count);
        Some (Ok, d\<lparr>buffer := drop size (buffer d)\<rparr>,
              out\<lparr>sequence := ucast sq, timestamp_us := timestamp, points := ps\<rparr>) }}}}})"

text \<open>
  The scan of \<open>resynchronise\<close>: the first index in \<open>[i, limit]\<close> at which the magic value starts.
\<close>

function find_magic :: "bytes \<Rightarrow> nat \<Rightarrow> nat \<Rightarrow> nat option" where
  "find_magic buf i limit =
     (if limit < i then None
      else if getUint 4 buf i = Some (ucast kMagic) then Some i
      else find_magic buf (Suc i) limit)"
  by pat_completeness auto
termination
  by (relation "measure (\<lambda>(buf, i, limit). Suc limit - i)") auto

declare find_magic.simps [simp del]

definition resynchronise :: "protocol_decoder \<Rightarrow> bool \<times> protocol_decoder" where
  "resynchronise d =
     (let n = length (buffer d)
      in if n < 4 then (False, d\<lparr>buffer := []\<rparr>)
         else case find_magic (buffer d) 1 (n - 4) of
                Some i \<Rightarrow> (True, d\<lparr>buffer := drop i (buffer d)\<rparr>)
              | None \<Rightarrow> (False, d\<lparr>buffer := drop (n - 3) (buffer d)\<rparr>))"

definition reset :: "protocol_decoder \<Rightarrow> protocol_decoder" where
  "reset d = d\<lparr>buffer := []\<rparr>"

definition buffered :: "protocol_decoder \<Rightarrow> nat" where
  "buffered d = length (buffer d)"

section \<open>Reading back what was written\<close>

lemma putUint_length [simp]: "length (putUint n out v) = length out + n"
  by (simp add: putUint_def)

lemma putUint_append: "putUint n out v = out @ putUint n [] v"
  by (simp add: putUint_def)

lemma putFloat32_append: "putFloat32 out x = out @ putFloat32 [] x"
  by (simp add: putFloat32_def putUint_append [of _ out])

lemma putFloat32_length [simp]: "length (putFloat32 out x) = length out + 4"
  by (simp add: putFloat32_def)

lemma octet_of_u64: "ucast (ucast (w AND 0xFF :: u64) :: u8) = take_bit 8 w"
proof -
  have "w AND 0xFF = take_bit 8 w"
    by (simp add: take_bit_eq_mask mask_eq_exp_minus_1)
  moreover have "ucast (ucast (take_bit 8 w) :: u8) = take_bit 8 w"
    by (rule bit_word_eqI) (auto simp: bit_simps)
  ultimately show ?thesis by simp
qed

lemma take_bit_octet_step:
  "take_bit (8 * n) v OR push_bit (8 * n) (take_bit 8 (drop_bit (8 * n) v)) = take_bit (8 * Suc n) (v :: u64)"
  by (rule bit_eqI) (auto simp: bit_simps)

lemma fold_octets:
  "fold (\<lambda>i acc. acc OR push_bit (8 * i) (ucast (ucast (drop_bit (8 * i) v AND 0xFF :: u64) :: u8)))
     [0..<n] 0 = take_bit (8 * n) v"
proof (induction n)
  case (Suc n)
  then show ?case
    by (simp add: octet_of_u64 take_bit_octet_step del: mult_Suc_right)
qed simp

lemma getUint_cong:
  assumes "off + n \<le> length buf"
    and "\<And>i. i < n \<Longrightarrow> buf ! (off + i) = f i"
  shows "getUint n buf off = Some (fold (\<lambda>i v. v OR push_bit (8 * i) (ucast (f i))) [0..<n] 0)"
  using assms by (auto simp: getUint_def intro!: fold_cong)

lemma getUint_putUint:
  "length pre = off \<Longrightarrow> getUint n (pre @ putUint n [] v @ post) off = Some (take_bit (8 * n) v)"
  by (subst getUint_cong [where f = "\<lambda>i. ucast (drop_bit (8 * i) v AND 0xFF)"])
    (auto simp: putUint_def nth_append fold_octets)

lemma getFloat32_putFloat32:
  "length pre = off \<Longrightarrow> getFloat32 (pre @ putFloat32 [] x @ post) off = Some x"
proof -
  assume len: "length pre = off"
  have "ucast (take_bit (8 * 4) (ucast w :: u64)) = (w :: u32)" for w
    by (rule bit_word_eqI) (auto simp: bit_simps)
  then show ?thesis
    using len unfolding putFloat32_def getFloat32_def by (simp only: getUint_putUint bind.simps float32.collapse)
qed

lemma getUint_append: "getUint n buf off = Some v \<Longrightarrow> getUint n (buf @ post) off = Some v"
  by (auto simp: getUint_def nth_append intro!: fold_cong split: if_splits)

lemma getUint_Some: "off + n \<le> length buf \<Longrightarrow> \<exists>v. getUint n buf off = Some v"
  by (simp add: getUint_def)

lemma getFloat32_Some: "off + 4 \<le> length buf \<Longrightarrow> \<exists>v. getFloat32 buf off = Some v"
  using getUint_Some [of off 4 buf] by (auto simp: getFloat32_def)

section \<open>The layout of a packet\<close>

text \<open>
  The wire format as the header comment of the file tabulates it, for any writer: the version 1
  header fields, and point records of which only the first nine octets are fixed.
\<close>

definition wire_header :: "u16 \<Rightarrow> u32 \<Rightarrow> u32 \<Rightarrow> u64 \<Rightarrow> u32 \<Rightarrow> u16 \<Rightarrow> u16 \<Rightarrow> bytes" where
  "wire_header hs fl sq ts pc st res =
     putUint 4 [] (ucast kMagic) @ putUint 2 [] (ucast kVersion) @ putUint 2 [] (ucast hs) @
     putUint 4 [] (ucast fl) @ putUint 4 [] (ucast sq) @ putUint 8 [] ts @
     putUint 4 [] (ucast pc) @ putUint 2 [] (ucast st) @ putUint 2 [] (ucast res)"

definition wire_record :: "scan_point \<Rightarrow> bytes \<Rightarrow> bytes" where
  "wire_record p pad =
     putFloat32 [] (angle_deg p) @ putFloat32 [] (distance_mm p) @
     putUint 1 [] (ucast (quality p)) @ pad"

definition wire_records :: "(scan_point \<times> bytes) list \<Rightarrow> bytes" where
  "wire_records pps = concat (map (\<lambda>(p, pad). wire_record p pad) pps)"

lemma wire_header_length [simp]: "length (wire_header hs fl sq ts pc st res) = 32"
  by (simp add: wire_header_def)

lemma wire_record_length [simp]: "length (wire_record p pad) = 9 + length pad"
  by (simp add: wire_record_def)

lemma wire_records_simps [simp]:
  "wire_records [] = []"
  "wire_records ((p, pad) # pps) = wire_record p pad @ wire_records pps"
  by (simp_all add: wire_records_def)

lemma wire_records_length:
  "\<forall>(p, pad) \<in> set pps. length pad + 9 = st \<Longrightarrow> length (wire_records pps) = length pps * st"
  by (induction pps) auto

text \<open>Narrowing what a field reads as gives the field back.\<close>

lemma field_narrow16: "ucast (take_bit 16 (ucast (x :: u16) :: u64)) = x"
  by (rule bit_word_eqI) (auto simp: bit_simps)

lemma field_narrow32: "ucast (take_bit 32 (ucast (x :: u32) :: u64)) = x"
  by (rule bit_word_eqI) (auto simp: bit_simps)

lemma field_narrow8: "ucast (take_bit 8 (ucast (x :: u8) :: u64)) = x"
  by (rule bit_word_eqI) (auto simp: bit_simps)

lemma field_widen32: "take_bit 32 (ucast (x :: u32) :: u64) = ucast x"
  by (rule bit_word_eqI) (auto simp: bit_simps dest: bit_imp_le_length)

lemma field_widen64: "take_bit 64 (x :: u64) = x"
  by (rule bit_word_eqI) (auto simp: bit_simps dest: bit_imp_le_length)

lemmas field_narrow = field_narrow8 field_narrow16 field_narrow32 field_widen64

lemma wire_header_reads:
  fixes hs st res :: u16 and fl sq pc :: u32 and ts :: u64 and rest :: bytes
  defines "h \<equiv> wire_header hs fl sq ts pc st res"
  shows "getUint 4 (h @ rest) 0 = Some (take_bit 32 (ucast kMagic))"
    "getUint 2 (h @ rest) 4 = Some (take_bit 16 (ucast kVersion))"
    "getUint 2 (h @ rest) 6 = Some (take_bit 16 (ucast hs))"
    "getUint 4 (h @ rest) 8 = Some (take_bit 32 (ucast fl))"
    "getUint 4 (h @ rest) 12 = Some (take_bit 32 (ucast sq))"
    "getUint 8 (h @ rest) 16 = Some (take_bit 64 ts)"
    "getUint 4 (h @ rest) 24 = Some (take_bit 32 (ucast pc))"
    "getUint 2 (h @ rest) 28 = Some (take_bit 16 (ucast st))"
proof -
  define a b c d e f g i where
    "a = putUint 4 [] (ucast kMagic)" and "b = putUint 2 [] (ucast kVersion)"
    and "c = putUint 2 [] (ucast hs)" and "d = putUint 4 [] (ucast fl)"
    and "e = putUint 4 [] (ucast sq)" and "f = putUint 8 [] ts"
    and "g = putUint 4 [] (ucast pc)" and "i = putUint 2 [] (ucast st)"
  note defs = a_def b_def c_def d_def e_def f_def g_def i_def
  let ?z = "putUint 2 [] (ucast res) @ rest"
  have h: "h @ rest = a @ b @ c @ d @ e @ f @ g @ i @ ?z"
    by (simp add: h_def wire_header_def defs)
  have len: "length a = 4" "length b = 2" "length c = 2" "length d = 4" "length e = 4"
    "length f = 8" "length g = 4" "length i = 2" by (simp_all add: defs)
  have read: "getUint n (pre @ putUint n [] v @ post) (length pre) = Some (take_bit (8 * n) v)"
    for n pre v post by (rule getUint_putUint) simp
  show "getUint 4 (h @ rest) 0 = Some (take_bit 32 (ucast kMagic))"
    using read [of 4 "[]" "ucast kMagic"] by (simp add: h a_def)
  show "getUint 2 (h @ rest) 4 = Some (take_bit 16 (ucast kVersion))"
    using read [of 2 a "ucast kVersion"] by (simp add: h len flip: b_def)
  show "getUint 2 (h @ rest) 6 = Some (take_bit 16 (ucast hs))"
    using read [of 2 "a @ b" "ucast hs"] by (simp add: h len flip: c_def)
  show "getUint 4 (h @ rest) 8 = Some (take_bit 32 (ucast fl))"
    using read [of 4 "a @ b @ c" "ucast fl"] by (simp add: h len flip: d_def)
  show "getUint 4 (h @ rest) 12 = Some (take_bit 32 (ucast sq))"
    using read [of 4 "a @ b @ c @ d" "ucast sq"] by (simp add: h len flip: e_def)
  show "getUint 8 (h @ rest) 16 = Some (take_bit 64 ts)"
    using read [of 8 "a @ b @ c @ d @ e" ts] by (simp add: h len flip: f_def)
  show "getUint 4 (h @ rest) 24 = Some (take_bit 32 (ucast pc))"
    using read [of 4 "a @ b @ c @ d @ e @ f" "ucast pc"] by (simp add: h len flip: g_def)
  show "getUint 2 (h @ rest) 28 = Some (take_bit 16 (ucast st))"
    using read [of 2 "a @ b @ c @ d @ e @ f @ g" "ucast st"] by (simp add: h len flip: i_def)
qed

lemma decode_points_records:
  assumes "\<forall>(p, pad) \<in> set pps. length pad + 9 = st"
  shows "decode_points (pre @ wire_records pps @ post) (length pre) st (length pps) =
    Some (map fst pps)"
  using assms
proof (induction pps arbitrary: pre)
  case (Cons pp pps)
  obtain p pad where pp: "pp = (p, pad)" by (cases pp)
  have st: "length pad + 9 = st" using Cons.prems by (simp add: pp)
  let ?A = "putFloat32 [] (angle_deg p)" and ?D = "putFloat32 [] (distance_mm p)"
    and ?Q = "putUint 1 [] (ucast (quality p))" and ?Z = "pad @ wire_records pps @ post"
  have buf: "pre @ wire_records (pp # pps) @ post = pre @ ?A @ ?D @ ?Q @ ?Z"
    by (simp add: pp wire_record_def)
  have a: "getFloat32 (pre @ ?A @ ?D @ ?Q @ ?Z) (length pre) = Some (angle_deg p)"
    by (rule getFloat32_putFloat32) simp
  have d: "getFloat32 (pre @ ?A @ ?D @ ?Q @ ?Z) (length pre + 4) = Some (distance_mm p)"
    using getFloat32_putFloat32 [of "pre @ ?A" "length pre + 4" "distance_mm p" "?Q @ ?Z"] by simp
  have q: "getUint 1 (pre @ ?A @ ?D @ ?Q @ ?Z) (length pre + 8) = Some (take_bit 8 (ucast (quality p)))"
    using getUint_putUint [of "pre @ ?A @ ?D" "length pre + 8" 1 "ucast (quality p)" "?Z"] by simp
  have "decode_points ((pre @ wire_record p pad) @ wire_records pps @ post)
      (length (pre @ wire_record p pad)) st (length pps) = Some (map fst pps)"
    by (rule Cons.IH) (use Cons.prems in auto)
  then have rest: "decode_points (pre @ ?A @ ?D @ ?Q @ ?Z) (length pre + st) st (length pps) =
      Some (map fst pps)"
    using st by (simp add: wire_record_def add.commute)
  show ?case
    unfolding buf by (simp add: a d q rest pp field_narrow del: One_nat_def)
qed simp

text \<open>What the decoder does with a buffer that starts with a version 1 or newer header.\<close>

lemma decode_wire:
  assumes "buffer d = wire_header hs fl sq ts pc st res @ body"
  shows "decode d out =
    (if hs < kHeaderSizeV1 \<or> kMaxHeaderSize < hs \<or> st < kPointStrideV1 \<or> kMaxPointStride < st
     then Some (BadHeader, d, out)
     else if fl AND NOT kKnownFlagsMask \<noteq> 0 then Some (BadHeader, d, out)
     else if kMaxPointsPerFrame < pc then Some (TooLarge, d, out)
     else if length (buffer d) < packet_size hs pc st fl then Some (NeedMoreData, d, out)
     else do {
       ps \<leftarrow> decode_points (buffer d) (unat hs) (unat st) (unat pc);
       Some (Ok, d\<lparr>buffer := drop (packet_size hs pc st fl) (buffer d)\<rparr>,
             out\<lparr>sequence := sq, timestamp_us := ts, points := ps\<rparr>) })"
proof -
  have len: "\<not> length (buffer d) < unat kHeaderSizeV1"
    by (simp add: assms kHeaderSizeV1_def)
  show ?thesis
    unfolding decode_def Let_def if_not_P [OF len]
    unfolding assms wire_header_reads bind.simps field_narrow field_widen32 [of kMagic]
    by simp
qed

section \<open>What the encoder emits\<close>

lemma pointCount_eq: "unat (pointCount f) = min (length (points f)) 65536"
  by (auto simp: pointCount_def kMaxPointsPerFrame_def Let_def unat_of_nat)

text \<open>Nested calls on one output buffer, as concatenation.\<close>

lemma put_nested:
  "putUint n (x @ y) v = x @ putUint n y v"
  "putUint n (putUint m z w) v = putUint m z w @ putUint n [] v"
  "putUint n (putFloat32 z a) v = putFloat32 z a @ putUint n [] v"
  "putFloat32 (putFloat32 z a) b = putFloat32 z a @ putFloat32 [] b"
  by (simp_all add: putUint_def putFloat32_def)

lemma encode_point_append:
  "encode_point out p = out @ wire_record p (putUint 1 [] 0)"
proof -
  have "encode_point out p = putFloat32 out (angle_deg p) @ putFloat32 [] (distance_mm p) @
      putUint 1 [] (ucast (quality p)) @ putUint 1 [] 0"
    by (simp add: encode_point_def put_nested)
  then show ?thesis by (simp add: wire_record_def putFloat32_append [of out])
qed

lemma encode_header_eq:
  "encode_header f n = wire_header kHeaderSizeV1 0 (sequence f) (timestamp_us f) n kPointStrideV1 0"
  by (simp add: encode_header_def wire_header_def Let_def put_nested)

definition v1_records :: "scan_point list \<Rightarrow> (scan_point \<times> bytes) list" where
  "v1_records ps = map (\<lambda>p. (p, [0])) ps"

lemma wire_records_append: "wire_records (xs @ ys) = wire_records xs @ wire_records ys"
  by (simp add: wire_records_def)

lemma encode_points_append:
  "n \<le> length ps \<Longrightarrow>
   fold (\<lambda>i out. encode_point out (ps ! i)) [0..<n] out = out @ wire_records (v1_records (take n ps))"
proof (induction n)
  case (Suc n)
  have "putUint 1 [] 0 = [0]" by (simp add: putUint_def)
  with Suc show ?case
    by (simp add: encode_point_append v1_records_def take_Suc_conv_app_nth wire_records_append
        del: One_nat_def)
qed (simp add: v1_records_def)

lemma encode_eq:
  "encode f = wire_header kHeaderSizeV1 0 (sequence f) (timestamp_us f) (pointCount f) kPointStrideV1 0
     @ wire_records (v1_records (take 65536 (points f)))"
proof -
  have "take (min (length (points f)) 65536) (points f) = take 65536 (points f)" by (simp add: min_def)
  then show ?thesis
    by (simp add: encode_def Let_def encode_header_eq encode_points_append pointCount_eq)
qed

lemma v1_records_pads: "\<forall>(p, pad) \<in> set (v1_records ps). length pad + 9 = 10"
  by (auto simp: v1_records_def)

lemma v1_records_fst [simp]: "map fst (v1_records ps) = ps"
  by (simp add: v1_records_def comp_def)

lemma v1_records_length [simp]: "length (v1_records ps) = length ps"
  by (simp add: v1_records_def)

lemma encode_length: "length (encode f) = encodedSize f"
  by (simp add: encode_eq wire_records_length [OF v1_records_pads] encodedSize_def pointCount_eq
      kHeaderSizeV1_def kPointStrideV1_def)

lemma encode_length_ge: "32 \<le> length (encode f)"
  by (simp add: encode_length encodedSize_def kHeaderSizeV1_def)

section \<open>Decoding\<close>

lemma packet_size_bound:
  assumes "hs \<le> kMaxHeaderSize" "st \<le> kMaxPointStride" "pc \<le> kMaxPointsPerFrame"
  shows "packet_size hs pc st fl \<le> 1024 + 65536 * 256 + 4"
proof -
  have "unat hs \<le> 1024" "unat st \<le> 256" "unat pc \<le> 65536"
    using assms by (simp_all add: protocol_constants word_le_nat_alt)
  moreover from this have "unat pc * unat st \<le> 65536 * 256" by (intro mult_le_mono)
  ultimately show ?thesis by (simp add: packet_size_def Let_def kCrcTrailerSize_def)
qed

text \<open>A complete packet of any writer the decoder accepts.\<close>

lemma decode_packet:
  assumes buf: "buffer d = wire_header hs fl sq ts pc st res @ hx @ wire_records pps @ crc @ rest"
    and hs: "unat hs = 32 + length hx" "hs \<le> kMaxHeaderSize"
    and st: "kPointStrideV1 \<le> st" "st \<le> kMaxPointStride" "\<forall>(p, pad) \<in> set pps. length pad + 9 = unat st"
    and pc: "unat pc = length pps" "pc \<le> kMaxPointsPerFrame"
    and fl: "fl AND NOT kKnownFlagsMask = 0"
    and crc: "length crc = (if fl AND kFlagCrc32 \<noteq> 0 then kCrcTrailerSize else 0)"
  shows "decode d out =
    Some (Ok, d\<lparr>buffer := rest\<rparr>, out\<lparr>sequence := sq, timestamp_us := ts, points := map fst pps\<rparr>)"
proof -
  let ?pre = "wire_header hs fl sq ts pc st res @ hx"
  have pre: "length ?pre = unat hs" by (simp add: hs)
  have size: "packet_size hs pc st fl = length (?pre @ wire_records pps @ crc)"
    using wire_records_length [OF st(3)] by (simp add: packet_size_def Let_def hs pc crc)
  have pts: "decode_points (buffer d) (unat hs) (unat st) (unat pc) = Some (map fst pps)"
    using decode_points_records [OF st(3), of ?pre "crc @ rest"] unfolding pre by (simp add: buf pc)
  have drop: "drop (packet_size hs pc st fl) (buffer d) = rest"
    unfolding size by (simp add: buf)
  have small: "\<not> hs < kHeaderSizeV1" "\<not> length (buffer d) < packet_size hs pc st fl"
    unfolding size by (simp_all add: buf word_less_nat_alt hs kHeaderSizeV1_def)
  show ?thesis
    unfolding decode_wire [OF buf]
    using small hs(2) st(1,2) pc(2) fl pts drop by (simp add: not_less)
qed

lemma decode_encode:
  "buffer d = encode f @ rest \<Longrightarrow>
   decode d out = Some (Ok, d\<lparr>buffer := rest\<rparr>,
     out\<lparr>sequence := sequence f, timestamp_us := timestamp_us f, points := take 65536 (points f)\<rparr>)"
proof -
  assume buf: "buffer d = encode f @ rest"
  have pc: "unat (pointCount f) = length (v1_records (take 65536 (points f)))"
    by (simp add: pointCount_eq)
  have le: "pointCount f \<le> kMaxPointsPerFrame"
    by (simp add: word_le_nat_alt pointCount_eq kMaxPointsPerFrame_def)
  have pads: "\<forall>(p, pad) \<in> set (v1_records (take 65536 (points f))). length pad + 9 = unat kPointStrideV1"
    using v1_records_pads by (simp add: kPointStrideV1_def)
  have buf': "buffer d = wire_header kHeaderSizeV1 0 (sequence f) (timestamp_us f) (pointCount f)
      kPointStrideV1 0 @ [] @ wire_records (v1_records (take 65536 (points f))) @ [] @ rest"
    using buf by (simp add: encode_eq)
  show ?thesis
    by (subst decode_packet [OF buf' _ _ _ _ pads pc le])
      (simp_all add: protocol_constants word_le_nat_alt)
qed

section \<open>Every call of the decoder returns, inside its buffer\<close>

lemma decode_points_Some:
  "p + n * stride \<le> length buf \<Longrightarrow> 9 \<le> stride \<Longrightarrow>
   \<exists>ps. decode_points buf p stride n = Some ps \<and> length ps = n"
proof (induction n arbitrary: p)
  case (Suc n)
  obtain a where a: "getFloat32 buf p = Some a"
    using getFloat32_Some [of p buf] Suc.prems by auto
  obtain b where b: "getFloat32 buf (p + 4) = Some b"
    using getFloat32_Some [of "p + 4" buf] Suc.prems by auto
  obtain c where c: "getUint 1 buf (p + 8) = Some c"
    using getUint_Some [of "p + 8" 1 buf] Suc.prems by auto
  obtain ps where "decode_points buf (p + stride) stride n = Some ps" "length ps = n"
    using Suc.IH [of "p + stride"] Suc.prems by auto
  with a b c show ?case by (simp del: One_nat_def)
qed simp

text \<open>
  One decode call over a buffer of at least a header: the fields it reads, as a case distinction on
  its outcome.
\<close>

definition header_field :: "nat \<Rightarrow> bytes \<Rightarrow> nat \<Rightarrow> u64" where
  "header_field n buf off = (case getUint n buf off of Some v \<Rightarrow> v | None \<Rightarrow> 0)"

lemma header_field_Some:
  "32 \<le> length buf \<Longrightarrow> off + n \<le> 32 \<Longrightarrow> getUint n buf off = Some (header_field n buf off)"
  using getUint_Some [of off n buf] by (auto simp: header_field_def)

lemma header_field_append:
  "32 \<le> length buf \<Longrightarrow> off + n \<le> 32 \<Longrightarrow> header_field n (buf @ x) off = header_field n buf off"
  using getUint_append [OF header_field_Some, of buf off n x] by (simp add: header_field_def)

definition hdr_size :: "bytes \<Rightarrow> u16" where "hdr_size b = ucast (header_field 2 b 6)"
definition hdr_flags :: "bytes \<Rightarrow> u32" where "hdr_flags b = ucast (header_field 4 b 8)"
definition hdr_count :: "bytes \<Rightarrow> u32" where "hdr_count b = ucast (header_field 4 b 24)"
definition hdr_stride :: "bytes \<Rightarrow> u16" where "hdr_stride b = ucast (header_field 2 b 28)"

text \<open>The verdict on a header, in the order of the checks; \<^const>\<open>Ok\<close> when it is acceptable.\<close>

definition header_verdict :: "bytes \<Rightarrow> DecodeStatus" where
  "header_verdict b =
     (if header_field 4 b 0 \<noteq> ucast kMagic then BadMagic
      else if (ucast (header_field 2 b 4) :: u16) \<noteq> kVersion then BadVersion
      else if hdr_size b < kHeaderSizeV1 \<or> kMaxHeaderSize < hdr_size b \<or>
              hdr_stride b < kPointStrideV1 \<or> kMaxPointStride < hdr_stride b then BadHeader
      else if hdr_flags b AND NOT kKnownFlagsMask \<noteq> 0 then BadHeader
      else if kMaxPointsPerFrame < hdr_count b then TooLarge
      else Ok)"

definition hdr_packet_size :: "bytes \<Rightarrow> nat" where
  "hdr_packet_size b = packet_size (hdr_size b) (hdr_count b) (hdr_stride b) (hdr_flags b)"

definition hdr_points :: "bytes \<Rightarrow> scan_point list option" where
  "hdr_points b = decode_points b (unat (hdr_size b)) (unat (hdr_stride b)) (unat (hdr_count b))"

lemma decode_by_verdict:
  "decode d out =
    (if length (buffer d) < 32 then Some (NeedMoreData, d, out)
     else if header_verdict (buffer d) \<noteq> Ok then Some (header_verdict (buffer d), d, out)
     else if length (buffer d) < hdr_packet_size (buffer d) then Some (NeedMoreData, d, out)
     else do {
       ps \<leftarrow> hdr_points (buffer d);
       Some (Ok, d\<lparr>buffer := drop (hdr_packet_size (buffer d)) (buffer d)\<rparr>,
         out\<lparr>sequence := ucast (header_field 4 (buffer d) 12),
             timestamp_us := header_field 8 (buffer d) 16, points := ps\<rparr>) })"
proof (cases "length (buffer d) < 32")
  case True
  then show ?thesis by (simp add: decode_def kHeaderSizeV1_def)
next
  case False
  then have "32 \<le> length (buffer d)" by simp
  note reads = header_field_Some [OF this]
  have *: "\<not> length (buffer d) < unat kHeaderSizeV1" using False by (simp add: kHeaderSizeV1_def)
  show ?thesis
    unfolding decode_def Let_def if_not_P [OF *] if_not_P [OF False]
    by (simp add: reads header_verdict_def hdr_packet_size_def hdr_points_def
        flip: hdr_size_def hdr_flags_def hdr_count_def hdr_stride_def)
qed

lemma verdict_Ok_bounds:
  assumes "header_verdict b = Ok"
  shows "32 \<le> unat (hdr_size b)" "hdr_size b \<le> kMaxHeaderSize" "10 \<le> unat (hdr_stride b)"
    "hdr_stride b \<le> kMaxPointStride" "hdr_count b \<le> kMaxPointsPerFrame"
    "hdr_flags b AND NOT kKnownFlagsMask = 0"
  using assms
  by (auto simp: header_verdict_def not_less word_le_nat_alt kHeaderSizeV1_def kPointStrideV1_def
      split: if_splits)

lemma verdict_never: "header_verdict b \<noteq> NeedMoreData" "header_verdict b \<noteq> CrcMismatch"
  by (simp_all add: header_verdict_def)

lemma hdr_points_Some:
  assumes "header_verdict b = Ok" "hdr_packet_size b \<le> length b"
  shows "\<exists>ps. hdr_points b = Some ps \<and> length ps = unat (hdr_count b)"
  unfolding hdr_points_def
  by (rule decode_points_Some)
    (use verdict_Ok_bounds [OF assms(1)] assms(2) in \<open>simp_all add: hdr_packet_size_def packet_size_def Let_def\<close>)

lemma hdr_packet_size_bounds:
  assumes "header_verdict b = Ok"
  shows "32 \<le> hdr_packet_size b" "hdr_packet_size b \<le> 16778244"
proof -
  note ok = verdict_Ok_bounds [OF assms]
  show "32 \<le> hdr_packet_size b" using ok(1) by (simp add: hdr_packet_size_def packet_size_def Let_def)
  show "hdr_packet_size b \<le> 16778244"
    using packet_size_bound [OF ok(2) ok(4) ok(5)] by (simp add: hdr_packet_size_def)
qed

text \<open>The two shapes of an outcome.\<close>

lemma decode_outcome:
  obtains (failed) st where "st \<noteq> Ok" "decode d out = Some (st, d, out)"
  | (frame) n ps where "header_verdict (buffer d) = Ok" "n = hdr_packet_size (buffer d)"
      "32 \<le> n" "n \<le> length (buffer d)" "n \<le> 16778244" "length ps \<le> 65536"
      "decode d out = Some (Ok, d\<lparr>buffer := drop n (buffer d)\<rparr>,
         out\<lparr>sequence := ucast (header_field 4 (buffer d) 12),
             timestamp_us := header_field 8 (buffer d) 16, points := ps\<rparr>)"
proof (cases "32 \<le> length (buffer d) \<and> header_verdict (buffer d) = Ok \<and>
    hdr_packet_size (buffer d) \<le> length (buffer d)")
  case True
  then obtain ps where ps: "hdr_points (buffer d) = Some ps" "length ps = unat (hdr_count (buffer d))"
    using hdr_points_Some by blast
  have "unat (hdr_count (buffer d)) \<le> 65536"
    using verdict_Ok_bounds(5) [of "buffer d"] True by (simp add: word_le_nat_alt kMaxPointsPerFrame_def)
  with True ps show thesis
    using hdr_packet_size_bounds [of "buffer d"] by (intro frame) (simp_all add: decode_by_verdict)
next
  case False
  then have "\<exists>st. st \<noteq> Ok \<and> decode d out = Some (st, d, out)"
    by (subst decode_by_verdict) auto
  then show thesis using failed by blast
qed

section \<open>Growing buffers\<close>

text \<open>A verdict, once reached, does not depend on the bytes that arrive later.\<close>

lemma hdr_append:
  assumes "32 \<le> length b"
  shows "hdr_size (b @ x) = hdr_size b" "hdr_flags (b @ x) = hdr_flags b"
    "hdr_count (b @ x) = hdr_count b" "hdr_stride (b @ x) = hdr_stride b"
    "header_verdict (b @ x) = header_verdict b" "hdr_packet_size (b @ x) = hdr_packet_size b"
  by (simp_all add: hdr_size_def hdr_flags_def hdr_count_def hdr_stride_def header_verdict_def
      hdr_packet_size_def header_field_append [OF assms])

lemma getFloat32_append: "getFloat32 b q = Some v \<Longrightarrow> getFloat32 (b @ x) q = Some v"
  by (auto simp: getFloat32_def bind_eq_Some_conv getUint_append)

lemma decode_points_extend:
  "decode_points b p st n = Some ps \<Longrightarrow> decode_points (b @ x) p st n = Some ps"
proof (induction n arbitrary: p ps)
  case (Suc n)
  obtain a d q qs where
    "getFloat32 b p = Some a" "getFloat32 b (p + 4) = Some d" "getUint 1 b (p + 8) = Some q"
    and qs: "decode_points b (p + st) st n = Some qs"
    and ps: "ps = \<lparr>angle_deg = a, distance_mm = d, quality = ucast q\<rparr> # qs"
    using Suc.prems unfolding decode_points.simps bind_eq_Some_conv by blast
  then show ?case
    using Suc.IH [OF qs] unfolding decode_points.simps
    by (simp add: getFloat32_append getUint_append del: One_nat_def)
qed simp

lemma hdr_points_append:
  "32 \<le> length b \<Longrightarrow> hdr_points b = Some ps \<Longrightarrow> hdr_points (b @ x) = Some ps"
  by (simp add: hdr_points_def hdr_append decode_points_extend)

section \<open>The receiving loop\<close>

text \<open>
  One call of \<open>decode\<close> as a function of the buffered bytes: nothing while more data is needed, an
  error with the buffer kept, or a frame with the remaining bytes.
\<close>

definition decode_one :: "bytes \<Rightarrow> ((DecodeStatus + scan_frame) \<times> bytes) option" where
  "decode_one b = (case decode \<lparr>buffer = b\<rparr> default_frame of
      Some (Ok, d, f) \<Rightarrow> Some (Inr f, buffer d)
    | Some (NeedMoreData, d, f) \<Rightarrow> None
    | Some (st, d, f) \<Rightarrow> Some (Inl st, b)
    | None \<Rightarrow> None)"

text \<open>
  The loop the class comment prescribes: \<open>feed\<close> a chunk, then decode until the data runs out or an error
  is reported; a receiver that met an error stops consuming.
\<close>

fun drain :: "('b list \<Rightarrow> (('e + 'f) \<times> 'b list) option) \<Rightarrow> nat \<Rightarrow> 'b list \<Rightarrow> 'f list \<times> 'e option \<times> 'b list" where
  "drain dec 0 b = ([], None, b)"
| "drain dec (Suc n) b = (case dec b of
      None \<Rightarrow> ([], None, b)
    | Some (Inl e, _) \<Rightarrow> ([], Some e, b)
    | Some (Inr f, rest) \<Rightarrow> (case drain dec n rest of (fs, e, b') \<Rightarrow> (f # fs, e, b')))"

text \<open>Every frame consumes bytes, so fuel beyond the buffer's length is never used up.\<close>

definition drain_all :: "('b list \<Rightarrow> (('e + 'f) \<times> 'b list) option) \<Rightarrow> 'b list \<Rightarrow> 'f list \<times> 'e option \<times> 'b list" where
  "drain_all dec b = drain dec (Suc (length b)) b"

lemma feed_buffer: "buffer (feed d (Some chunk)) = buffer d @ chunk"
  by (simp add: feed_def)

definition receive ::
  "(bytes \<Rightarrow> (('e + 'f) \<times> bytes) option) \<Rightarrow> bytes \<Rightarrow> 'f list \<times> 'e option \<times> bytes
   \<Rightarrow> 'f list \<times> 'e option \<times> bytes" where
  "receive dec chunk s = (case s of (fs, e, b) \<Rightarrow>
     (case e of
        Some _ \<Rightarrow> (fs, e, b)
      | None \<Rightarrow> (case drain_all dec (buffer (feed \<lparr>buffer = b\<rparr> (Some chunk))) of
                  (gs, e', b') \<Rightarrow> (fs @ gs, e', b'))))"

definition receive_all ::
  "(bytes \<Rightarrow> (('e + 'f) \<times> bytes) option) \<Rightarrow> bytes list \<Rightarrow> 'f list \<times> 'e option \<times> bytes" where
  "receive_all dec chunks = fold (receive dec) chunks ([], None, [])"

locale stream_decoder =
  fixes dec :: "bytes \<Rightarrow> (('e + 'f) \<times> bytes) option"
  assumes dec_nil: "dec [] = None"
    and dec_error: "dec b = Some (Inl e, r) \<Longrightarrow> dec (b @ x) = Some (Inl e, r @ x)"
    and dec_frame: "dec b = Some (Inr f, r) \<Longrightarrow> dec (b @ x) = Some (Inr f, r @ x)"
    and dec_consumes: "dec b = Some (Inr f, r) \<Longrightarrow> length r < length b"
begin

lemma drain_fuel:
  "length b < n \<Longrightarrow> length b < m \<Longrightarrow> drain dec n b = drain dec m b"
proof (induction n arbitrary: b m)
  case (Suc n)
  then obtain k where m: "m = Suc k" by (cases m) auto
  have "drain dec n r = drain dec k r" if "dec b = Some (Inr f, r)" for f r
    using Suc.IH [of r k] Suc.prems dec_consumes [OF that] by (simp add: m)
  note sub = this
  show ?case
  proof (cases "dec b")
    case (Some a)
    then show ?thesis using sub [of _ "snd a"] unfolding m
      by (cases a; cases "fst a") (simp_all split: prod.splits)
  qed (simp add: m)
qed simp

abbreviation "run \<equiv> drain_all dec"

lemma run_none: "dec b = None \<Longrightarrow> run b = ([], None, b)"
  by (simp add: drain_all_def)

lemma run_error: "dec b = Some (Inl e, r) \<Longrightarrow> run b = ([], Some e, b)"
  by (simp add: drain_all_def)

lemma run_frame:
  "dec b = Some (Inr f, r) \<Longrightarrow> run b = (case run r of (fs, e, b') \<Rightarrow> (f # fs, e, b'))"
  using drain_fuel [of r "length b" "Suc (length r)"] dec_consumes [of b f r]
  by (simp add: drain_all_def)

lemma run_append:
  "run b = (fs, None, b') \<Longrightarrow> run (b @ x) = (case run (b' @ x) of (gs, e, c) \<Rightarrow> (fs @ gs, e, c))"
proof (induction "length b" arbitrary: b fs rule: less_induct)
  case less
  show ?case
  proof (cases "dec b")
    case None
    with less.prems show ?thesis by (simp add: run_none split: prod.splits)
  next
    case (Some a)
    then obtain f r where a: "dec b = Some (Inr f, r)"
      using less.prems run_error by (cases a; cases "fst a") fastforce+
    obtain gs where gs: "run r = (gs, None, b')" "fs = f # gs"
      using less.prems by (auto simp: run_frame [OF a] split: prod.splits)
    show ?thesis
      using less.hyps [OF dec_consumes [OF a] gs(1)] gs(2)
      by (simp add: run_frame [OF dec_frame [OF a]] split: prod.splits)
  qed
qed

lemma run_append_error:
  "run b = (fs, Some e, b') \<Longrightarrow> \<exists>c. run (b @ x) = (fs, Some e, c)"
proof (induction "length b" arbitrary: b fs rule: less_induct)
  case less
  show ?case
  proof (cases "dec b")
    case None
    with less.prems show ?thesis by (simp add: run_none)
  next
    case (Some a)
    then consider (err) e' r where "dec b = Some (Inl e', r)" | (frm) f r where "dec b = Some (Inr f, r)"
      by (cases a; cases "fst a") fastforce+
    then show ?thesis
    proof cases
      case err
      with less.prems show ?thesis by (simp add: run_error run_error [OF dec_error])
    next
      case frm
      obtain gs where gs: "run r = (gs, Some e, b')" "fs = f # gs"
        using less.prems by (auto simp: run_frame [OF frm] split: prod.splits)
      from less.hyps [OF dec_consumes [OF frm] gs(1)] gs(2) show ?thesis
        by (auto simp: run_frame [OF dec_frame [OF frm]] split: prod.splits)
    qed
  qed
qed

lemma receive_fold:
  assumes "run b = (fs, e, b')"
  shows "\<exists>c. fold (receive dec) chunks (fs, e, b') = (fst (run (b @ concat chunks)), fst (snd (run (b @ concat chunks))), c) \<and>
    (fst (snd (run (b @ concat chunks))) = None \<longrightarrow> c = snd (snd (run (b @ concat chunks))))"
  using assms
proof (induction chunks arbitrary: b fs e b')
  case Nil
  then show ?case by simp
next
  case (Cons x xs)
  obtain fs' e' c' where r: "run (b @ x) = (fs', e', c')" by (metis prod_cases3)
  show ?case
  proof (cases e)
    case None
    then have "receive dec x (fs, e, b') = (fs', e', c')"
      using run_append [of b fs b' x] Cons.prems r
      by (auto simp: receive_def feed_buffer drain_all_def split: prod.splits)
    with Cons.IH [OF r] show ?thesis by simp
  next
    case (Some err)
    have stop: "fold (receive dec) ys (fs, Some err, b') = (fs, Some err, b')" for ys
      by (induction ys) (simp_all add: receive_def)
    obtain c where "run (b @ concat (x # xs)) = (fs, Some err, c)"
      using run_append_error Cons.prems Some by blast
    then show ?thesis unfolding Some stop by simp
  qed
qed

text \<open>How a stream is cut into chunks never matters.\<close>

lemma receive_all_run:
  "fst (receive_all dec chunks) = fst (run (concat chunks))"
  "fst (snd (receive_all dec chunks)) = fst (snd (run (concat chunks)))"
  "fst (snd (run (concat chunks))) = None \<Longrightarrow> snd (snd (receive_all dec chunks)) = snd (snd (run (concat chunks)))"
proof -
  have "run [] = ([], None, [])"
    by (rule run_none [OF dec_nil])
  from receive_fold [OF this, of chunks]
  show "fst (receive_all dec chunks) = fst (run (concat chunks))"
    "fst (snd (receive_all dec chunks)) = fst (snd (run (concat chunks)))"
    "fst (snd (run (concat chunks))) = None \<Longrightarrow> snd (snd (receive_all dec chunks)) = snd (snd (run (concat chunks)))"
    by (auto simp: receive_all_def)
qed

end

text \<open>A decoder together with the writer it understands; \<open>norm\<close> is what the writer keeps of a frame.\<close>

locale frame_codec = stream_decoder dec
  for dec :: "bytes \<Rightarrow> (('e + 'f) \<times> bytes) option" +
  fixes enc :: "'f \<Rightarrow> bytes"
    and norm :: "'f \<Rightarrow> 'f"
  assumes dec_enc: "dec (enc f @ r) = Some (Inr (norm f), r)"
    and dec_partial: "strict_prefix p (enc f) \<Longrightarrow> dec p = None"
begin

lemma run_encoded: "run (concat (map enc fs) @ r) = (case run r of (gs, e, b) \<Rightarrow> (map norm fs @ gs, e, b))"
proof (induction fs)
  case (Cons f fs)
  have "dec (enc f @ concat (map enc fs) @ r) = Some (Inr (norm f), concat (map enc fs) @ r)"
    by (rule dec_enc)
  from run_frame [OF this] Cons.IH show ?case by (simp split: prod.splits)
qed (simp split: prod.splits)

text \<open>
  Whatever the chunking, a receiver holds after any prefix of the stream exactly the frames that
  arrived whole, has met no error, and buffers the beginning of the next packet.
\<close>

lemma receive_encoded:
  assumes "concat chunks = concat (map enc fs) @ p" and "strict_prefix p (enc f)"
  shows "receive_all dec chunks = (map norm fs, None, p)"
proof -
  have r: "run (concat chunks) = (map norm fs, None, p)"
    unfolding assms(1) run_encoded using run_none [OF dec_partial [OF assms(2)]] by simp
  have "fst (receive_all dec chunks) = map norm fs" "fst (snd (receive_all dec chunks)) = None"
    "snd (snd (receive_all dec chunks)) = p"
    using receive_all_run(1,2) [of chunks] receive_all_run(3) [of chunks] r by simp_all
  then show ?thesis by (cases "receive_all dec chunks") auto
qed

end

section \<open>The wire protocol is such a codec\<close>

definition truncate_frame :: "scan_frame \<Rightarrow> scan_frame" where
  "truncate_frame f = f\<lparr>points := take 65536 (points f)\<rparr>"

lemma truncate_frame_id: "length (points f) \<le> 65536 \<Longrightarrow> truncate_frame f = f"
  by (simp add: truncate_frame_def)

lemma decode_one_by_verdict:
  "decode_one b =
    (if length b < 32 then None
     else if header_verdict b \<noteq> Ok then Some (Inl (header_verdict b), b)
     else if length b < hdr_packet_size b then None
     else do {
       ps \<leftarrow> hdr_points b;
       Some (Inr \<lparr>sequence = ucast (header_field 4 b 12), timestamp_us = header_field 8 b 16,
         points = ps\<rparr>, drop (hdr_packet_size b) b) })"
proof -
  have *: "header_verdict b \<noteq> NeedMoreData" by (rule verdict_never)
  show ?thesis
    unfolding decode_one_def decode_by_verdict using *
    by (cases "header_verdict b"; cases "hdr_points b") (simp_all add: default_frame_def)
qed

lemma decode_one_encode: "decode_one (encode f @ r) = Some (Inr (truncate_frame f), r)"
  using decode_encode [of "\<lparr>buffer = encode f @ r\<rparr>" f r default_frame]
  by (simp add: decode_one_def truncate_frame_def default_frame_def)

lemma decode_one_error: "decode_one b = Some (Inl e, r) \<Longrightarrow> decode_one (b @ x) = Some (Inl e, r @ x)"
  by (auto simp: decode_one_by_verdict hdr_append split: if_splits bind_splits)

lemma decode_one_frame: "decode_one b = Some (Inr f, r) \<Longrightarrow> decode_one (b @ x) = Some (Inr f, r @ x)"
  by (auto simp: decode_one_by_verdict hdr_append header_field_append hdr_points_append
      split: if_splits bind_splits)

lemma decode_one_consumes: "decode_one b = Some (Inr f, r) \<Longrightarrow> length r + 32 \<le> length b"
  using hdr_packet_size_bounds(1) [of b]
  by (auto simp: decode_one_by_verdict split: if_splits bind_splits)

lemma decode_one_partial:
  assumes "strict_prefix p (encode f)"
  shows "decode_one p = None"
proof (cases "length p < 32")
  case True
  then show ?thesis by (simp add: decode_one_by_verdict)
next
  case False
  then have p: "32 \<le> length p" by simp
  obtain x where x: "encode f = p @ x" "x \<noteq> []"
    using assms by (auto simp: strict_prefix_def prefix_def)
  have full: "decode_one (p @ x) = Some (Inr (truncate_frame f), [])"
    using decode_one_encode [of f "[]"] by (simp add: x)
  then have "header_verdict (p @ x) = Ok" "length (p @ x) \<le> hdr_packet_size (p @ x)"
    by (auto simp: decode_one_by_verdict split: if_splits bind_splits)
  with p x(2) have "header_verdict p = Ok" "length p < hdr_packet_size p"
    by (cases x; simp add: hdr_append)+
  with p show ?thesis by (simp add: decode_one_by_verdict)
qed

interpretation wire: frame_codec decode_one encode truncate_frame
proof unfold_locales
  show "decode_one [] = None" by (simp add: decode_one_by_verdict)
qed (use decode_one_consumes in \<open>fastforce intro: decode_one_error decode_one_frame decode_one_encode
  decode_one_partial\<close>)+

section \<open>Resynchronisation\<close>

text \<open>The magic value occurs at an index of a byte list.\<close>

definition magic_at :: "bytes \<Rightarrow> nat \<Rightarrow> bool" where
  "magic_at b i \<longleftrightarrow> getUint 4 b i = Some (ucast kMagic)"

lemma magic_at_inside: "magic_at b i \<Longrightarrow> i + 4 \<le> length b"
  by (auto simp: magic_at_def getUint_def split: if_splits)

lemma magic_at_drop: "k \<le> i \<Longrightarrow> i + 4 \<le> length b \<Longrightarrow> magic_at (drop k b) (i - k) = magic_at b i"
  by (auto simp: magic_at_def getUint_def intro!: fold_cong arg_cong2 [where f = "(=)"])

lemma magic_at_append: "i + 4 \<le> length b \<Longrightarrow> magic_at (b @ x) i = magic_at b i"
  by (auto simp: magic_at_def getUint_def nth_append intro!: fold_cong arg_cong2 [where f = "(=)"])

lemma find_magic_Some:
  "find_magic b i limit = Some j \<Longrightarrow> i \<le> j \<and> j \<le> limit \<and> magic_at b j \<and> (\<forall>k. i \<le> k \<and> k < j \<longrightarrow> \<not> magic_at b k)"
proof (induction b i limit rule: find_magic.induct)
  case (1 b i limit)
  show ?case
  proof (cases "limit < i \<or> magic_at b i")
    case True
    with "1.prems" show ?thesis
      by (auto simp: find_magic.simps [of b i limit] magic_at_def split: if_splits)
  next
    case False
    then have c: "\<not> limit < i" "getUint 4 b i \<noteq> Some (ucast kMagic)" by (simp_all add: magic_at_def)
    with "1.prems" have "find_magic b (Suc i) limit = Some j" by (simp add: find_magic.simps [of b i])
    from "1.IH" [OF c this] have j: "Suc i \<le> j" "j \<le> limit" "magic_at b j"
      and before: "\<forall>k. Suc i \<le> k \<and> k < j \<longrightarrow> \<not> magic_at b k" by blast+
    have "\<not> magic_at b k" if "i \<le> k" "k < j" for k
      using that before False by (cases "k = i") auto
    with j show ?thesis by auto
  qed
qed

lemma find_magic_None: "find_magic b i limit = None \<Longrightarrow> i \<le> k \<Longrightarrow> k \<le> limit \<Longrightarrow> \<not> magic_at b k"
proof (induction b i limit rule: find_magic.induct)
  case (1 b i limit)
  then have c: "\<not> limit < i" "getUint 4 b i \<noteq> Some (ucast kMagic)"
    by (auto simp: find_magic.simps [of b i limit] split: if_splits)
  with "1.prems" have "find_magic b (Suc i) limit = None" by (simp add: find_magic.simps [of b i])
  from "1.IH" [OF c this] "1.prems" c show ?case
    by (cases "k = i") (auto simp: magic_at_def)
qed

section \<open>Properties\<close>

text \<open>
  C27: However TCP cuts a stream of encoded frames into chunks, and wherever the stream currently
  ends inside the packet of a further frame, the receiving loop has produced exactly the frames sent
  (each with at most its first 65536 points), in order, without an error, and buffers the incomplete
  packet.
\<close>

theorem stream_roundtrip:
  assumes "concat chunks = concat (map encode frames) @ part" and "strict_prefix part (encode next_frame)"
  shows "receive_all decode_one chunks = (map truncate_frame frames, None, part)"
  by (rule wire.receive_encoded [OF assms])

definition sample_frame :: scan_frame where
  "sample_frame = \<lparr>sequence = 7, timestamp_us = 1234567,
     points = [\<lparr>angle_deg = F32 0x43340000, distance_mm = F32 0x44FA0000, quality = 47\<rparr>]\<rparr>"

theorem stream_roundtrip_witness:
  "receive_all decode_one [take 5 (encode sample_frame), drop 5 (encode sample_frame)] =
     ([sample_frame], None, [])"
proof -
  have id: "truncate_frame sample_frame = sample_frame"
    by (rule truncate_frame_id) (simp add: sample_frame_def)
  have "[] \<noteq> encode sample_frame" using encode_length_ge [of sample_frame] by auto
  then have "strict_prefix [] (encode sample_frame)" by (simp add: strict_prefix_def)
  from stream_roundtrip [of "[take 5 (encode sample_frame), drop 5 (encode sample_frame)]"
      "[sample_frame]" "[]", OF _ this] id
  show ?thesis by simp
qed

text \<open>
  C28: For any byte stream, well-formed or corrupt, the frames delivered and the error reported do not
  depend on how the stream was cut into chunks.
\<close>

theorem chunking_irrelevant:
  assumes "concat chunks = concat chunks'"
  shows "fst (receive_all decode_one chunks) = fst (receive_all decode_one chunks') \<and>
    fst (snd (receive_all decode_one chunks)) = fst (snd (receive_all decode_one chunks'))"
  using wire.receive_all_run [of chunks] wire.receive_all_run [of chunks'] assms by simp

theorem chunking_irrelevant_witness:
  "fst (receive_all decode_one [replicate 20 0, replicate 20 0]) =
     fst (receive_all decode_one [replicate 40 (0 :: u8)])"
  using chunking_irrelevant [of "[replicate 20 0, replicate 20 0]" "[replicate 40 (0 :: u8)]"]
  by (simp flip: replicate_add)

text \<open>
  C35: Decoding any buffer returns without a read outside it. Either it reports something other than
  Ok and leaves the buffer and the caller's frame untouched, or it delivers a frame of at most 65536
  points and removes between 32 and 16778244 bytes (so sizes fit 32 bits) from the front.
\<close>

theorem decode_safe:
  "(\<exists>st. st \<noteq> Ok \<and> decode d out = Some (st, d, out)) \<or>
   (\<exists>n f. 32 \<le> n \<and> n \<le> length (buffer d) \<and> n \<le> 16778244 \<and> length (points f) \<le> 65536 \<and>
      decode d out = Some (Ok, d\<lparr>buffer := drop n (buffer d)\<rparr>, f))"
proof (cases rule: decode_outcome [of d out])
  case (frame n ps)
  then show ?thesis by (intro disjI2 exI [of _ n] exI conjI) auto
qed blast

text \<open>
  C36: Forward compatibility. A packet of a newer writer that appends header fields (up to 1024 header
  bytes), appends fields to every point record (stride up to 256) and sets the CRC flag with its four
  byte trailer decodes to the frame's own fields, and exactly its bytes are removed.
\<close>

theorem decode_newer_writer:
  assumes "buffer d = wire_header hs fl sq ts pc st res @ extra_header @ wire_records recs @ crc @ rest"
    and "unat hs = 32 + length extra_header" "unat hs \<le> 1024"
    and "10 \<le> unat st" "unat st \<le> 256" "\<forall>(p, pad) \<in> set recs. length pad + 9 = unat st"
    and "unat pc = length recs" "length recs \<le> 65536"
    and "fl = 0 \<and> crc = [] \<or> fl = kFlagCrc32 \<and> length crc = 4"
  shows "decode d out =
    Some (Ok, d\<lparr>buffer := rest\<rparr>, out\<lparr>sequence := sq, timestamp_us := ts, points := map fst recs\<rparr>)"
  by (rule decode_packet [OF assms(1,2) _ _ _ assms(6,7)])
    (use assms(3-9) in \<open>auto simp: protocol_constants word_le_nat_alt\<close>)

theorem decode_newer_writer_witness:
  "decode \<lparr>buffer = wire_header 33 kFlagCrc32 7 8 1 11 0 @ [0xAA] @
       wire_records [(\<lparr>angle_deg = F32 0, distance_mm = F32 0x44FA0000, quality = 9\<rparr>, [0, 1])] @
       [1, 2, 3, 4] @ [0x31]\<rparr> default_frame =
     Some (Ok, \<lparr>buffer = [0x31]\<rparr>, \<lparr>sequence = 7, timestamp_us = 8,
       points = [\<lparr>angle_deg = F32 0, distance_mm = F32 0x44FA0000, quality = 9\<rparr>]\<rparr>)"
  by (subst decode_newer_writer [where extra_header = "[0xAA]" and crc = "[1, 2, 3, 4]" and rest = "[0x31]"
        and recs = "[(\<lparr>angle_deg = F32 0, distance_mm = F32 0x44FA0000, quality = 9\<rparr>, [0, 1])]"
        and hs = 33 and fl = kFlagCrc32 and sq = 7 and ts = 8 and pc = 1 and st = 11 and res = 0])
    (simp_all add: default_frame_def)

text \<open>
  What the decoder refuses. A header of the current magic and version whose size fields are out of
  range or which carries an unknown flag is BadHeader, a point count above 65536 is TooLarge, and
  nothing is consumed, whatever follows the header.
\<close>

lemma decode_refuses:
  assumes "buffer d = wire_header hs fl sq ts pc st res @ body"
  shows "(unat hs < 32 \<or> 1024 < unat hs \<or> unat st < 10 \<or> 256 < unat st \<longrightarrow>
            decode d out = Some (BadHeader, d, out)) \<and>
         (fl \<noteq> 0 \<and> fl \<noteq> kFlagCrc32 \<longrightarrow> decode d out = Some (BadHeader, d, out)) \<and>
         (32 \<le> unat hs \<and> unat hs \<le> 1024 \<and> 10 \<le> unat st \<and> unat st \<le> 256 \<and>
          (fl = 0 \<or> fl = kFlagCrc32) \<and> 65536 < unat pc \<longrightarrow> decode d out = Some (TooLarge, d, out))"
proof -
  have flags: "fl AND NOT kKnownFlagsMask = 0 \<longleftrightarrow> fl = 0 \<or> fl = kFlagCrc32"
  proof
    assume "fl AND NOT kKnownFlagsMask = 0"
    then have z: "fl AND NOT 1 = 0" by (simp only: kKnownFlagsMask_def kFlagCrc32_def)
    have "fl = (fl AND 1) OR (fl AND NOT 1)"
      by (simp flip: bit.conj_disj_distrib)
    also have "\<dots> = fl AND 1" by (simp only: z or.right_neutral)
    also have "\<dots> = of_bool (odd fl)" by (simp add: and_one_eq odd_iff_mod_2_eq_one)
    finally have "fl = of_bool (odd fl)" .
    then show "fl = 0 \<or> fl = kFlagCrc32" by (cases "odd fl") (simp_all add: kFlagCrc32_def)
  qed (auto simp: kKnownFlagsMask_def)
  show ?thesis
    unfolding decode_wire [OF assms]
    by (simp add: flags protocol_constants(4,5,8,9,10) word_less_nat_alt not_less kHeaderSizeV1_def
        kPointStrideV1_def kMaxPointsPerFrame_def kMaxPointStride_def kMaxHeaderSize_def)
qed

lemma decode_refuses_witness:
  "decode \<lparr>buffer = wire_header 32 2 0 0 0 10 0\<rparr> default_frame =
     Some (BadHeader, \<lparr>buffer = wire_header 32 2 0 0 0 10 0\<rparr>, default_frame)"
  using decode_refuses [of "\<lparr>buffer = wire_header 32 2 0 0 0 10 0\<rparr>" 32 2 0 0 0 10 0 "[]" default_frame]
  by (simp add: kFlagCrc32_def)

text \<open>
  Resynchronisation removes a prefix only, and always at least one byte of a non-empty buffer. It
  reports success exactly when a magic value starts at some index from 1 on, and then the buffer starts
  with the first such magic value; otherwise, of four or more bytes the last three stay, so that no
  magic value completed by later bytes is lost.
\<close>

lemma resynchronise_spec:
  "\<exists>k. snd (resynchronise d) = d\<lparr>buffer := drop k (buffer d)\<rparr> \<and>
     (buffer d \<noteq> [] \<longrightarrow> length (buffer (snd (resynchronise d))) < length (buffer d)) \<and>
     (fst (resynchronise d) \<longleftrightarrow> (\<exists>i \<ge> 1. magic_at (buffer d) i)) \<and>
     (fst (resynchronise d) \<longrightarrow> magic_at (buffer (snd (resynchronise d))) 0) \<and>
     (4 \<le> length (buffer d) \<longrightarrow> (\<forall>x i. 1 \<le> i \<and> magic_at (buffer d @ x) i \<longrightarrow> k \<le> i))"
proof (cases "length (buffer d) < 4")
  case True
  then have "\<not> magic_at (buffer d) i" for i using magic_at_inside [of "buffer d" i] by auto
  with True show ?thesis
    by (intro exI [of _ "length (buffer d)"]) (auto simp: resynchronise_def Let_def)
next
  case False
  let ?b = "buffer d"
  let ?n = "length ?b"
  show ?thesis
  proof (cases "find_magic ?b 1 (?n - 4)")
    case None
    have none: "\<not> magic_at ?b i" if "1 \<le> i" for i
      using find_magic_None [OF None, of i] magic_at_inside [of ?b i] that by fastforce
    then have "?n - 3 \<le> i" if "1 \<le> i" "magic_at (?b @ x) i" for i x
      using that magic_at_append [of i ?b x] by (cases "i + 4 \<le> ?n") auto
    with False None none show ?thesis
      by (intro exI [of _ "?n - 3"]) (auto simp: resynchronise_def)
  next
    case (Some j)
    note j = find_magic_Some [OF Some]
    then have in_b: "j + 4 \<le> ?n" by (blast dest: magic_at_inside)
    have first: "j \<le> i" if "1 \<le> i" "magic_at (?b @ x) i" for i x
      using that j in_b magic_at_append [of i ?b x] by (cases "i + 4 \<le> ?n") (auto simp: not_less [symmetric])
    have "magic_at (drop j ?b) 0" using magic_at_drop [of j j ?b] j in_b by simp
    with False Some j in_b first show ?thesis
      by (intro exI [of _ j]) (auto simp: resynchronise_def)
  qed
qed

lemma resynchronise_spec_witness:
  "fst (resynchronise \<lparr>buffer = [0x31, 0x31, 0x41, 0x45, 0x42, 9]\<rparr>)"
proof -
  have "magic_at [0x31, 0x31, 0x41, 0x45, 0x42, 9] 1"
    by (simp add: magic_at_def getUint_def kMagic_def upt_rec)
  then show ?thesis
    using resynchronise_spec [of "\<lparr>buffer = [0x31, 0x31, 0x41, 0x45, 0x42, 9]\<rparr>"] by auto
qed

text \<open>
  A packet is exactly as long as \<open>encodedSize\<close> announces, and never longer than 655392 bytes.
\<close>

lemma encode_size: "length (encode f) = encodedSize f \<and> encodedSize f \<le> 655392"
  by (simp add: encode_length) (simp add: encodedSize_def pointCount_eq kHeaderSizeV1_def kPointStrideV1_def)

end
