(* ===== verification/FrameQueue.thy ===== *)
theory FrameQueue
  imports DomainTypes
begin

text \<open>
  The bounded, drop-oldest frame queue of \<open>network/FrameQueue.cpp\<close>. Every public operation holds the
  queue's mutex from its first to its last statement, so it is one atomic step of the model. The queue
  and the pool are lists, oldest frame first; a recycled frame keeps its sequence number and timestamp
  and loses its points, as \<open>points.clear()\<close> leaves it.
\<close>

section \<open>Code\<close>

definition kPoolSlack :: nat where "kPoolSlack = 2"

record frame_queue =
  fq_queue :: "scan_frame list"
  fq_pool :: "scan_frame list"
  fq_capacity :: nat

definition FrameQueue :: "nat \<Rightarrow> frame_queue" where
  "FrameQueue capacity =
     \<lparr>fq_queue = [], fq_pool = [], fq_capacity = (if capacity = 0 then 1 else capacity)\<rparr>"

definition recycleLocked :: "scan_frame \<Rightarrow> frame_queue \<Rightarrow> frame_queue" where
  "recycleLocked frame q =
     (if fq_capacity q + kPoolSlack \<le> length (fq_pool q) then q
      else q\<lparr>fq_pool := fq_pool q @ [frame\<lparr>points := []\<rparr>]\<rparr>)"

definition acquireLocked :: "frame_queue \<Rightarrow> scan_frame \<times> frame_queue" where
  "acquireLocked q =
     (if fq_pool q = [] then (default_frame, q)
      else (last (fq_pool q), q\<lparr>fq_pool := butlast (fq_pool q)\<rparr>))"

text \<open>
  The eviction loop of \<open>push\<close>. The constructor clamps the capacity to at least 1 and nothing changes
  it, so the loop stops before the queue is empty; the model keeps the loop's own guard and, as a
  front of an empty queue has no value, returns for an empty one.
\<close>

function evict :: "frame_queue \<Rightarrow> nat \<Rightarrow> frame_queue \<times> nat" where
  "evict q evicted =
     (if fq_capacity q \<le> length (fq_queue q) \<and> fq_queue q \<noteq> []
      then let q = recycleLocked (hd (fq_queue q)) q
           in evict (q\<lparr>fq_queue := tl (fq_queue q)\<rparr>) (evicted + 1)
      else (q, evicted))"
  by pat_completeness auto
termination
  by (relation "measure (\<lambda>(q, n). length (fq_queue q))") (auto simp: recycleLocked_def)

declare evict.simps [simp del]

definition push :: "scan_frame \<Rightarrow> frame_queue \<Rightarrow> frame_queue \<times> nat" where
  "push frame q =
     (let (q, evicted) = evict q 0;
          (slot, q) = acquireLocked q;
          slot = slot\<lparr>sequence := sequence frame\<rparr>;
          slot = slot\<lparr>timestamp_us := timestamp_us frame\<rparr>;
          slot = slot\<lparr>points := points frame\<rparr>
      in (q\<lparr>fq_queue := fq_queue q @ [slot]\<rparr>, evicted))"

text \<open>\<open>pop(out)\<close>: whether a frame was dequeued, the queue, and the caller's frame object.\<close>

definition pop :: "frame_queue \<Rightarrow> scan_frame \<Rightarrow> bool \<times> frame_queue \<times> scan_frame" where
  "pop q out =
     (if fq_queue q = [] then (False, q, out)
      else let q = recycleLocked out q;
               out = hd (fq_queue q)
           in (True, q\<lparr>fq_queue := tl (fq_queue q)\<rparr>, out))"

function clear :: "frame_queue \<Rightarrow> frame_queue" where
  "clear q =
     (if fq_queue q \<noteq> []
      then let q = recycleLocked (hd (fq_queue q)) q in clear (q\<lparr>fq_queue := tl (fq_queue q)\<rparr>)
      else q)"
  by pat_completeness auto
termination
  by (relation "measure (\<lambda>q. length (fq_queue q))") (auto simp: recycleLocked_def)

declare clear.simps [simp del]

definition queue_empty :: "frame_queue \<Rightarrow> bool" where
  "queue_empty q \<longleftrightarrow> fq_queue q = []"

definition queue_size :: "frame_queue \<Rightarrow> nat" where
  "queue_size q = length (fq_queue q)"

section \<open>Invariant\<close>

text \<open>
  What the queue promises: the hard memory bound on both lists, and that pooled frames hold no
  measurements.
\<close>

definition queue_ok :: "frame_queue \<Rightarrow> bool" where
  "queue_ok q \<longleftrightarrow> 1 \<le> fq_capacity q \<and> length (fq_queue q) \<le> fq_capacity q \<and>
     length (fq_pool q) \<le> fq_capacity q + kPoolSlack \<and> (\<forall>f \<in> set (fq_pool q). points f = [])"

definition pool_ok :: "frame_queue \<Rightarrow> bool" where
  "pool_ok q \<longleftrightarrow> length (fq_pool q) \<le> fq_capacity q + kPoolSlack \<and> (\<forall>f \<in> set (fq_pool q). points f = [])"

lemma queue_ok_alt: "queue_ok q \<longleftrightarrow> 1 \<le> fq_capacity q \<and> length (fq_queue q) \<le> fq_capacity q \<and> pool_ok q"
  by (simp add: queue_ok_def pool_ok_def)

lemma recycleLocked_simps [simp]:
  "fq_queue (recycleLocked f q) = fq_queue q" "fq_capacity (recycleLocked f q) = fq_capacity q"
  "pool_ok (q\<lparr>fq_queue := fs\<rparr>) = pool_ok q"
  by (simp_all add: recycleLocked_def pool_ok_def)

lemma recycleLocked_pool: "pool_ok q \<Longrightarrow> pool_ok (recycleLocked f q)"
  by (auto simp: recycleLocked_def pool_ok_def)

lemma acquireLocked_simps [simp]:
  "fq_queue (snd (acquireLocked q)) = fq_queue q" "fq_capacity (snd (acquireLocked q)) = fq_capacity q"
  by (simp_all add: acquireLocked_def)

lemma acquireLocked_pool: "pool_ok q \<Longrightarrow> pool_ok (snd (acquireLocked q))"
  by (auto simp: acquireLocked_def pool_ok_def dest: in_set_butlastD)

lemma evict_spec:
  assumes "1 \<le> fq_capacity q"
  shows "fq_capacity (fst (evict q n)) = fq_capacity q \<and>
    fq_queue (fst (evict q n)) = drop (Suc (length (fq_queue q)) - fq_capacity q) (fq_queue q) \<and>
    snd (evict q n) = n + (Suc (length (fq_queue q)) - fq_capacity q) \<and>
    (pool_ok q \<longrightarrow> pool_ok (fst (evict q n)))"
  using assms
proof (induction q n rule: evict.induct)
  case (1 q n)
  show ?case
  proof (cases "fq_capacity q \<le> length (fq_queue q)")
    case True
    then have ne: "fq_queue q \<noteq> []" using "1.prems" by auto
    then obtain f fs where q: "fq_queue q = f # fs" by (cases "fq_queue q") auto
    have s: "Suc (length fs) - fq_capacity q = length fs + 1 - fq_capacity q" by simp
    have "Suc (Suc (length fs)) - fq_capacity q = Suc (Suc (length fs) - fq_capacity q)"
      using True q by simp
    moreover have "evict q n = evict (recycleLocked f q\<lparr>fq_queue := fs\<rparr>) (n + 1)"
      using True by (subst evict.simps) (simp add: q Let_def)
    ultimately show ?thesis
      using "1.IH" [OF conjI [OF True ne] refl] "1.prems" recycleLocked_pool
      by (simp add: q)
  qed (simp add: evict.simps [of q n])
qed

lemma push_queue:
  assumes "1 \<le> fq_capacity q"
  shows "fq_queue (fst (push f q)) = drop (Suc (length (fq_queue q)) - fq_capacity q) (fq_queue q) @ [f]"
    "snd (push f q) = Suc (length (fq_queue q)) - fq_capacity q"
    "fq_capacity (fst (push f q)) = fq_capacity q"
    "pool_ok q \<Longrightarrow> pool_ok (fst (push f q))"
  using evict_spec [OF assms, of 0] acquireLocked_pool [of "fst (evict q 0)"]
  by (auto simp: push_def Let_def split: prod.splits)
    (metis acquireLocked_simps fst_conv snd_conv)+

lemma pop_queue:
  "fst (pop q out) \<longleftrightarrow> fq_queue q \<noteq> []"
  "fq_queue (fst (snd (pop q out))) = tl (fq_queue q)"
  "snd (snd (pop q out)) = (if fq_queue q = [] then out else hd (fq_queue q))"
  "fq_capacity (fst (snd (pop q out))) = fq_capacity q"
  "pool_ok q \<Longrightarrow> pool_ok (fst (snd (pop q out)))"
  by (auto simp: pop_def Let_def recycleLocked_pool)

lemma clear_queue:
  "fq_queue (clear q) = [] \<and> fq_capacity (clear q) = fq_capacity q \<and> (pool_ok q \<longrightarrow> pool_ok (clear q))"
proof (induction q rule: clear.induct)
  case (1 q)
  show ?case
  proof (cases "fq_queue q = []")
    case False
    from "1.IH" [OF False refl] show ?thesis
      by (subst (1 2 3) clear.simps) (simp add: False Let_def recycleLocked_pool)
  qed (simp add: clear.simps [of q])
qed

lemma queue_ok_FrameQueue: "queue_ok (FrameQueue n)"
  by (simp add: queue_ok_def FrameQueue_def)

section \<open>The interface its clients use\<close>

text \<open>
  The operations of all threads on one queue, in the order in which they took the mutex: what is
  delivered to the consumer and how many frames are lost to eviction or clearing.
\<close>

datatype 'f queue_op = Push 'f | Pop | Clear

fun run_ops ::
  "('f \<Rightarrow> 'q \<Rightarrow> 'q \<times> nat) \<Rightarrow> ('q \<Rightarrow> 'f \<Rightarrow> bool \<times> 'q \<times> 'f) \<Rightarrow> ('q \<Rightarrow> 'q) \<Rightarrow> ('q \<Rightarrow> 'f list) \<Rightarrow>
   'f queue_op list \<Rightarrow> 'q \<Rightarrow> 'f \<Rightarrow> 'f list \<times> nat \<times> 'q \<times> 'f" where
  "run_ops psh pp clr cts [] q out = ([], 0, q, out)"
| "run_ops psh pp clr cts (Push f # ops) q out =
     (case psh f q of (q', n) \<Rightarrow>
      case run_ops psh pp clr cts ops q' out of (got, lost, r) \<Rightarrow> (got, n + lost, r))"
| "run_ops psh pp clr cts (Pop # ops) q out =
     (case pp q out of (ok, q', out') \<Rightarrow>
      case run_ops psh pp clr cts ops q' out' of (got, r) \<Rightarrow> (if ok then out' # got else got, r))"
| "run_ops psh pp clr cts (Clear # ops) q out =
     (case run_ops psh pp clr cts ops (clr q) out of (got, lost, r) \<Rightarrow> (got, length (cts q) + lost, r))"

fun pushed :: "'f queue_op list \<Rightarrow> 'f list" where
  "pushed [] = []"
| "pushed (Push f # ops) = f # pushed ops"
| "pushed (_ # ops) = pushed ops"

locale drop_oldest_queue =
  fixes psh :: "'f \<Rightarrow> 'q \<Rightarrow> 'q \<times> nat"
    and pp :: "'q \<Rightarrow> 'f \<Rightarrow> bool \<times> 'q \<times> 'f"
    and clr :: "'q \<Rightarrow> 'q"
    and contents :: "'q \<Rightarrow> 'f list"
    and cap :: "'q \<Rightarrow> nat"
    and ok :: "'q \<Rightarrow> bool"
  assumes ok_bounded: "ok q \<Longrightarrow> length (contents q) \<le> cap q"
    and push_keeps: "ok q \<Longrightarrow> ok (fst (psh f q)) \<and> cap (fst (psh f q)) = cap q"
    and push_contents: "ok q \<Longrightarrow> contents (fst (psh f q)) =
      drop (length (contents q @ [f]) - cap q) (contents q) @ [f]"
    and push_evicts: "ok q \<Longrightarrow> snd (psh f q) = length (contents q @ [f]) - cap q"
    and pop_keeps: "ok q \<Longrightarrow> ok (fst (snd (pp q out))) \<and> cap (fst (snd (pp q out))) = cap q"
    and pop_empty: "ok q \<Longrightarrow> contents q = [] \<Longrightarrow> \<not> fst (pp q out) \<and> contents (fst (snd (pp q out))) = []"
    and pop_head: "ok q \<Longrightarrow> contents q = f # fs \<Longrightarrow>
      fst (pp q out) \<and> snd (snd (pp q out)) = f \<and> contents (fst (snd (pp q out))) = fs"
    and clear_keeps: "ok q \<Longrightarrow> ok (clr q) \<and> cap (clr q) = cap q \<and> contents (clr q) = []"
begin

abbreviation "run \<equiv> run_ops psh pp clr contents"

lemma cap_pos: "ok q \<Longrightarrow> 1 \<le> cap q"
proof -
  assume ok: "ok q"
  have "length (contents (fst (psh undefined q))) \<le> cap q"
    using ok_bounded push_keeps ok by metis
  then show ?thesis by (simp add: push_contents [OF ok])
qed

text \<open>
  Any interleaving of operations delivers a subsequence of what was pushed, in order and without
  duplicates, loses nothing but evicted and cleared frames, and stays within the capacity.
\<close>

lemma run_ops_order:
  "ok q \<Longrightarrow> run ops q out = (got, lost, q', out') \<Longrightarrow>
   subseq (got @ contents q') (contents q @ pushed ops) \<and> ok q' \<and> cap q' = cap q \<and>
   length (contents q) + length (pushed ops) = length got + lost + length (contents q')"
proof (induction ops arbitrary: q out got lost)
  case Nil
  then show ?case by simp
next
  case (Cons a ops)
  show ?case
  proof (cases a)
    case (Push f)
    obtain got' lost' where r: "run ops (fst (psh f q)) out = (got', lost', q', out')"
        "got = got'" "lost = snd (psh f q) + lost'"
      using Cons.prems(2) by (auto simp: Push split: prod.splits)
    have "subseq (contents (fst (psh f q)) @ pushed ops) (contents q @ pushed (a # ops))"
      by (simp add: Push push_contents [OF Cons.prems(1)] subseq_drop list_emb_append_mono)
    with Cons.IH [OF _ r(1)] push_keeps [OF Cons.prems(1)] show ?thesis
      using ok_bounded [OF Cons.prems(1)] cap_pos [OF Cons.prems(1)]
      by (auto simp: Push r push_contents [OF Cons.prems(1)] push_evicts [OF Cons.prems(1)]
          intro: subseq_order.trans)
  next
    case Pop
    obtain b q1 out1 where p: "pp q out = (b, q1, out1)" by (metis prod_cases3)
    obtain got' where r: "run ops q1 out1 = (got', lost, q', out')" "got = (if b then out1 # got' else got')"
      using Cons.prems(2) by (auto simp: Pop p split: prod.splits)
    have k: "ok q1" "cap q1 = cap q" using pop_keeps [OF Cons.prems(1), of out] by (simp_all add: p)
    show ?thesis
    proof (cases "contents q")
      case Nil
      then have "\<not> b" "contents q1 = []" using pop_empty [OF Cons.prems(1) Nil, of out] by (simp_all add: p)
      with Cons.IH [OF k(1) r(1)] k Nil show ?thesis by (simp add: Pop r(2))
    next
      case (Cons g gs)
      then have "b" "out1 = g" "contents q1 = gs"
        using pop_head [OF Cons.prems(1) Cons, of out] by (simp_all add: p)
      with Cons.IH [OF k(1) r(1)] k Cons show ?thesis by (simp add: Pop r(2))
    qed
  next
    case Clear
    obtain lost' where r: "run ops (clr q) out = (got, lost', q', out')" "lost = length (contents q) + lost'"
      using Cons.prems(2) by (auto simp: Clear split: prod.splits)
    note k = clear_keeps [OF Cons.prems(1)]
    from Cons.IH [OF _ r(1)] k show ?thesis
      by (auto simp: Clear r(2) intro: list_emb_append2 subseq_order.trans)
  qed
qed

text \<open>Producers alone: the queue holds the newest frames, as many as fit.\<close>

lemma pushes_newest:
  "ok q \<Longrightarrow> contents (fold (\<lambda>f q. fst (psh f q)) fs q) =
     drop (length (contents q) + length fs - cap q) (contents q @ fs)"
proof (induction fs arbitrary: q)
  case Nil
  then show ?case using ok_bounded by simp
next
  case (Cons f fs)
  note ih = Cons.IH [of "fst (psh f q)"]
  have le: "length (contents q) \<le> cap q" by (rule ok_bounded [OF Cons.prems])
  show ?case
  proof (cases "length (contents q) = cap q")
    case True
    with ih push_keeps [OF Cons.prems] cap_pos [OF Cons.prems] show ?thesis
      by (simp add: push_contents [OF Cons.prems])
  next
    case False
    with le have "Suc (length (contents q)) - cap q = 0" by simp
    with ih push_keeps [OF Cons.prems] show ?thesis
      by (simp add: push_contents [OF Cons.prems])
  qed
qed

end

interpretation fq: drop_oldest_queue push pop clear fq_queue fq_capacity queue_ok
  by unfold_locales
    (auto simp: queue_ok_alt push_queue pop_queue clear_queue)

section \<open>Properties\<close>

text \<open>
  C32: Whatever operations any threads perform on a new queue, in whatever order the mutex serialises
  them: the frames delivered, followed by those still queued, are a subsequence of the frames pushed (in
  order, unchanged, none twice); every pushed frame is delivered, queued, evicted or cleared; and the
  memory bounds hold: at most the configured number of frames queued (1 for 0) and two more pooled.
\<close>

theorem queue_any_interleaving:
  "case run_ops push pop clear fq_queue ops (FrameQueue n) out of (got, lost, q, out') \<Rightarrow>
     subseq (got @ fq_queue q) (pushed ops) \<and>
     length (pushed ops) = length got + lost + length (fq_queue q) \<and>
     length (fq_queue q) \<le> max 1 n \<and> length (fq_pool q) \<le> max 1 n + 2"
proof -
  obtain got lost q out' where r: "run_ops push pop clear fq_queue ops (FrameQueue n) out = (got, lost, q, out')"
    by (metis prod_cases4)
  have new: "fq_queue (FrameQueue n) = []" "fq_capacity (FrameQueue n) = max 1 n"
    by (simp_all add: FrameQueue_def max_def)
  show ?thesis
    using fq.run_ops_order [OF queue_ok_FrameQueue r] by (simp add: r queue_ok_def new kPoolSlack_def)
qed

text \<open>
  A producer that nobody drains never waits: after any number of pushes a queue holds exactly the
  newest frames, as many as its capacity.
\<close>

lemma pushes_keep_newest:
  assumes "queue_ok q"
  shows "fq_queue (fold (\<lambda>f q. fst (push f q)) frames q) =
    drop (length (fq_queue q) + length frames - fq_capacity q) (fq_queue q @ frames)"
  by (rule fq.pushes_newest [OF assms])

lemma pushes_keep_newest_witness:
  "queue_ok (FrameQueue 1) \<and>
   fq_queue (fold (\<lambda>f q. fst (push f q))
     [default_frame, default_frame\<lparr>sequence := 1\<rparr>, default_frame\<lparr>sequence := 2\<rparr>] (FrameQueue 1)) =
     [default_frame\<lparr>sequence := 2\<rparr>]"
  using pushes_keep_newest [OF queue_ok_FrameQueue,
      of "[default_frame, default_frame\<lparr>sequence := 1\<rparr>, default_frame\<lparr>sequence := 2\<rparr>]" 1]
    queue_ok_FrameQueue [of 1]
  by (simp add: FrameQueue_def)

text \<open>
  One push on a queue within its bounds appends an exact copy of the frame, whatever recycled
  storage it reuses, and evicts the oldest frame exactly when the queue was full, which is the number
  it returns.
\<close>

lemma push_functional:
  assumes "queue_ok q"
  shows "fq_queue (fst (push f q)) =
      (if length (fq_queue q) = fq_capacity q then tl (fq_queue q) else fq_queue q) @ [f] \<and>
    snd (push f q) = (if length (fq_queue q) = fq_capacity q then 1 else 0) \<and>
    queue_ok (fst (push f q))"
proof -
  have cap: "1 \<le> fq_capacity q" "length (fq_queue q) \<le> fq_capacity q"
    using assms by (auto simp: queue_ok_def)
  show ?thesis
    using fq.push_keeps [OF assms] cap
    by (auto simp: push_queue [OF cap(1)] drop_Suc)
qed

end
