(* ===== verification/Perception.thy ===== *)
theory Perception
  imports DomainTypes
begin

text \<open>
  Obstacle detection, \<open>perception/Perception.cpp\<close>: filtering of a revolution by range, field of view,
  distance and quality, and the sector statistics the brake decision rests on, in binary32. The
  conversion of the sector quotient to \<open>int\<close> is undefined in C++ when the quotient is not a number
  or out of range; then \<open>process\<close> is \<^const>\<open>None\<close>.
\<close>

section \<open>Code\<close>

record perception_config =
  min_angle_deg :: float32
  max_angle_deg :: float32
  max_distance_mm :: float32
  minimum_quality :: u8
  min_hits_per_sector :: u32

text \<open>\<open>PerceptionConfig{}\<close>.\<close>

definition default_perception_config :: perception_config where
  "default_perception_config =
     \<lparr>min_angle_deg = f32_neg (f32_of_nat 45), max_angle_deg = f32_of_nat 45,
      max_distance_mm = f32_of_nat 2000, minimum_quality = 15, min_hits_per_sector = 3\<rparr>"

record sector_result =
  obstacle_detected :: bool
  nearest_distance_mm :: float32
  nearest_angle_deg :: float32

definition default_sector :: sector_result where
  "default_sector =
     \<lparr>obstacle_detected = False, nearest_distance_mm = f32_neg (f32_of_nat 1),
      nearest_angle_deg = f32_of_nat 0\<rparr>"

record detection_result =
  left :: sector_result
  left_center :: sector_result
  center :: sector_result
  right_center :: sector_result
  right :: sector_result
  total_points :: u32
  angle_filtered_points :: u32
  distance_filtered_points :: u32
  quality_filtered_points :: u32
  timestamp :: u64

definition default_result :: detection_result where
  "default_result =
     \<lparr>left = default_sector, left_center = default_sector, center = default_sector,
      right_center = default_sector, right = default_sector, total_points = 0,
      angle_filtered_points = 0, distance_filtered_points = 0, quality_filtered_points = 0,
      timestamp = 0\<rparr>"

text \<open>The pointer table \<open>sectors[5]\<close>: reading and writing the sector an index points to.\<close>

definition sectors :: "detection_result \<Rightarrow> sector_result list" where
  "sectors r = [left r, left_center r, center r, right_center r, right r]"

definition set_sector :: "nat \<Rightarrow> sector_result \<Rightarrow> detection_result \<Rightarrow> detection_result" where
  "set_sector i s r =
     (if i = 0 then r\<lparr>left := s\<rparr> else if i = 1 then r\<lparr>left_center := s\<rparr>
      else if i = 2 then r\<lparr>center := s\<rparr> else if i = 3 then r\<lparr>right_center := s\<rparr>
      else r\<lparr>right := s\<rparr>)"

definition fov_span :: "perception_config \<Rightarrow> float32" where
  "fov_span config = f32_sub (max_angle_deg config) (min_angle_deg config)"

definition sector_width :: "perception_config \<Rightarrow> float32" where
  "sector_width config = f32_div (fov_span config) (f32_of_nat 5)"

definition normalize_angle :: "float32 \<Rightarrow> float32" where
  "normalize_angle angle =
     (if f32_of_nat 180 < angle then f32_sub angle (f32_of_nat 360) else angle)"

definition clamp_sector :: "int \<Rightarrow> nat" where
  "clamp_sector sector_idx = (if sector_idx < 0 then 0 else if 5 \<le> sector_idx then 4 else nat sector_idx)"

text \<open>What a point that passed every filter does to its sector and to the hit counters.\<close>

definition track_point ::
  "perception_config \<Rightarrow> scan_point \<Rightarrow> float32 \<Rightarrow> nat \<Rightarrow> detection_result \<times> u32 list
   \<Rightarrow> detection_result \<times> u32 list" where
  "track_point config point norm_angle sector_idx st = (case st of (result, sector_hits) \<Rightarrow>
     let sector = sectors result ! sector_idx;
         sector_hits = sector_hits[sector_idx := sector_hits ! sector_idx + 1];
         sector = (if distance_mm point < nearest_distance_mm sector \<or>
                      nearest_distance_mm sector < f32_of_nat 0
                   then sector\<lparr>nearest_distance_mm := distance_mm point,
                               nearest_angle_deg := norm_angle\<rparr>
                   else sector);
         sector = (if min_hits_per_sector config \<le> sector_hits ! sector_idx
                   then sector\<lparr>obstacle_detected := True\<rparr> else sector)
     in (set_sector sector_idx sector result, sector_hits))"

text \<open>The body of the loop over the points; a \<open>continue\<close> returns the state reached so far.\<close>

definition process_point ::
  "perception_config \<Rightarrow> scan_point \<Rightarrow> detection_result \<times> u32 list
   \<Rightarrow> (detection_result \<times> u32 list) option" where
  "process_point config point st = (case st of (result, sector_hits) \<Rightarrow>
     if distance_mm point \<le> f32_of_nat 0 then Some (result, sector_hits)
     else let norm_angle = normalize_angle (angle_deg point) in
     if norm_angle < min_angle_deg config \<or> max_angle_deg config < norm_angle
     then Some (result, sector_hits)
     else let result = result\<lparr>angle_filtered_points := angle_filtered_points result + 1\<rparr> in
     if max_distance_mm config < distance_mm point then Some (result, sector_hits)
     else let result = result\<lparr>distance_filtered_points := distance_filtered_points result + 1\<rparr> in
     if quality point < minimum_quality config then Some (result, sector_hits)
     else let result = result\<lparr>quality_filtered_points := quality_filtered_points result + 1\<rparr>;
              relative_angle = f32_sub norm_angle (min_angle_deg config) in
     (case f32_to_int (f32_div relative_angle (sector_width config)) of
        None \<Rightarrow> None
      | Some sector_idx \<Rightarrow>
          Some (track_point config point norm_angle (clamp_sector sector_idx) (result, sector_hits))))"

fun process_points ::
  "perception_config \<Rightarrow> scan_point list \<Rightarrow> detection_result \<times> u32 list
   \<Rightarrow> (detection_result \<times> u32 list) option" where
  "process_points config [] st = Some st"
| "process_points config (p # ps) st =
     (case process_point config p st of None \<Rightarrow> None | Some st' \<Rightarrow> process_points config ps st')"

definition process :: "perception_config \<Rightarrow> scan_frame \<Rightarrow> detection_result option" where
  "process config frame =
     (let result = default_result\<lparr>timestamp := timestamp_us frame,
                                  total_points := word_of_nat (length (points frame))\<rparr>
      in map_option fst (process_points config (points frame) (result, [0, 0, 0, 0, 0])))"

section \<open>What a point counts for\<close>

definition in_view :: "perception_config \<Rightarrow> scan_point \<Rightarrow> bool" where
  "in_view c p \<longleftrightarrow> \<not> distance_mm p \<le> f32_of_nat 0 \<and>
     \<not> normalize_angle (angle_deg p) < min_angle_deg c \<and> \<not> max_angle_deg c < normalize_angle (angle_deg p)"

definition in_range :: "perception_config \<Rightarrow> scan_point \<Rightarrow> bool" where
  "in_range c p \<longleftrightarrow> in_view c p \<and> \<not> max_distance_mm c < distance_mm p"

definition accepted :: "perception_config \<Rightarrow> scan_point \<Rightarrow> bool" where
  "accepted c p \<longleftrightarrow> in_range c p \<and> \<not> quality p < minimum_quality c"

definition sector_quotient :: "perception_config \<Rightarrow> scan_point \<Rightarrow> int option" where
  "sector_quotient c p =
     f32_to_int (f32_div (f32_sub (normalize_angle (angle_deg p)) (min_angle_deg c)) (sector_width c))"

text \<open>The sector of a point, for the points that pass the filters and have one.\<close>

definition in_sector :: "perception_config \<Rightarrow> nat \<Rightarrow> scan_point \<Rightarrow> bool" where
  "in_sector c k p \<longleftrightarrow> accepted c p \<and> map_option clamp_sector (sector_quotient c p) = Some k"

definition hits :: "perception_config \<Rightarrow> nat \<Rightarrow> scan_point list \<Rightarrow> nat" where
  "hits c k ps = length (filter (in_sector c k) ps)"

text \<open>The nearest point of a sector, as the loop tracks it: distance and bearing.\<close>

definition track_nearest :: "scan_point \<Rightarrow> float32 \<times> float32 \<Rightarrow> float32 \<times> float32" where
  "track_nearest p n =
     (if distance_mm p < fst n \<or> fst n < f32_of_nat 0
      then (distance_mm p, normalize_angle (angle_deg p)) else n)"

definition nearest :: "perception_config \<Rightarrow> nat \<Rightarrow> scan_point list \<Rightarrow> float32 \<times> float32" where
  "nearest c k ps = fold track_nearest (filter (in_sector c k) ps) (f32_neg (f32_of_nat 1), f32_of_nat 0)"

lemma clamp_sector_less: "clamp_sector i < 5"
  by (auto simp: clamp_sector_def)

lemma sectors_length [simp]: "length (sectors r) = 5"
  by (simp add: sectors_def)

lemma sectors_set [simp]: "i < 5 \<Longrightarrow> sectors (set_sector i s r) = (sectors r)[i := s]"
  by (auto simp: sectors_def set_sector_def less_Suc_eq numeral_eq_Suc)

lemma sectors_update [simp]:
  "sectors (r\<lparr>angle_filtered_points := a\<rparr>) = sectors r"
  "sectors (r\<lparr>distance_filtered_points := a\<rparr>) = sectors r"
  "sectors (r\<lparr>quality_filtered_points := a\<rparr>) = sectors r"
  "sectors (r\<lparr>timestamp := t\<rparr>) = sectors r" "sectors (r\<lparr>total_points := a\<rparr>) = sectors r"
  by (simp_all add: sectors_def)

lemma set_sector_simps [simp]:
  "angle_filtered_points (set_sector i s r) = angle_filtered_points r"
  "distance_filtered_points (set_sector i s r) = distance_filtered_points r"
  "quality_filtered_points (set_sector i s r) = quality_filtered_points r"
  "total_points (set_sector i s r) = total_points r" "timestamp (set_sector i s r) = timestamp r"
  by (simp_all add: set_sector_def)

lemma sectors_default: "i < 5 \<Longrightarrow> sectors default_result ! i = default_sector"
  by (auto simp: sectors_def default_result_def less_Suc_eq numeral_eq_Suc)

text \<open>What the loop state says after the points read so far.\<close>

definition loop_inv :: "perception_config \<Rightarrow> scan_point list \<Rightarrow> detection_result \<times> u32 list \<Rightarrow> bool" where
  "loop_inv c ps st \<longleftrightarrow> (case st of (r, hs) \<Rightarrow>
     length hs = 5 \<and>
     angle_filtered_points r = word_of_nat (length (filter (in_view c) ps)) \<and>
     distance_filtered_points r = word_of_nat (length (filter (in_range c) ps)) \<and>
     quality_filtered_points r = word_of_nat (length (filter (accepted c) ps)) \<and>
     (\<forall>k < 5. hs ! k = word_of_nat (hits c k ps) \<and>
        (nearest_distance_mm (sectors r ! k), nearest_angle_deg (sectors r ! k)) = nearest c k ps \<and>
        (length ps < 2 ^ 32 \<longrightarrow>
         (obstacle_detected (sectors r ! k) \<longleftrightarrow> 1 \<le> hits c k ps \<and> unat (min_hits_per_sector c) \<le> hits c k ps))))"

lemma hits_le: "hits c k ps \<le> length ps"
  by (simp add: hits_def)

lemma hits_snoc: "hits c k (ps @ [p]) = hits c k ps + (if in_sector c k p then 1 else 0)"
  by (simp add: hits_def)

lemma nearest_snoc: "nearest c k (ps @ [p]) = (if in_sector c k p then track_nearest p (nearest c k ps) else nearest c k ps)"
  by (simp add: nearest_def)

lemma track_point_inv:
  assumes hs: "length hs = 5" and k: "k < 5" "i < 5"
    and st: "track_point c p (normalize_angle (angle_deg p)) i (r, hs) = (r', hs')"
  shows "length hs' = 5" "hs' ! k = (if k = i then hs ! k + 1 else hs ! k)"
    "(nearest_distance_mm (sectors r' ! k), nearest_angle_deg (sectors r' ! k)) =
       (if k = i then track_nearest p (nearest_distance_mm (sectors r ! k), nearest_angle_deg (sectors r ! k))
        else (nearest_distance_mm (sectors r ! k), nearest_angle_deg (sectors r ! k)))"
    "obstacle_detected (sectors r' ! k) \<longleftrightarrow>
       obstacle_detected (sectors r ! k) \<or> k = i \<and> min_hits_per_sector c \<le> hs' ! k"
    "angle_filtered_points r' = angle_filtered_points r"
    "distance_filtered_points r' = distance_filtered_points r"
    "quality_filtered_points r' = quality_filtered_points r"
    "total_points r' = total_points r" "timestamp r' = timestamp r"
  using assms by (auto simp: track_point_def track_nearest_def Let_def nth_list_update split: if_splits)

lemma process_points_snoc:
  "process_points c (ps @ [p]) st = Option.bind (process_points c ps st) (process_point c p)"
  by (induction ps arbitrary: st) (auto split: option.splits)


lemma process_point_cases:
  "process_point c p (r, hs) =
    (if \<not> in_view c p then Some (r, hs)
     else let r = r\<lparr>angle_filtered_points := angle_filtered_points r + 1\<rparr> in
     if \<not> in_range c p then Some (r, hs)
     else let r = r\<lparr>distance_filtered_points := distance_filtered_points r + 1\<rparr> in
     if \<not> accepted c p then Some (r, hs)
     else let r = r\<lparr>quality_filtered_points := quality_filtered_points r + 1\<rparr> in
     map_option (\<lambda>i. track_point c p (normalize_angle (angle_deg p)) (clamp_sector i) (r, hs))
       (sector_quotient c p))"
  by (auto simp: process_point_def in_view_def in_range_def accepted_def sector_quotient_def Let_def
      split: option.splits)

lemma accepted_in_range: "accepted c p \<Longrightarrow> in_range c p" "in_range c p \<Longrightarrow> in_view c p"
  by (simp_all add: accepted_def in_range_def)

lemma sector_inv_step:
  assumes inv: "loop_inv c ps (r, hs)" and k: "k < 5" and acc: "accepted c p" and i: "sector_quotient c p = Some i"
    and tr: "track_point c p (normalize_angle (angle_deg p)) (clamp_sector i) (r1, hs) = (r', hs')"
    and same: "sectors r1 = sectors r"
  shows "hs' ! k = word_of_nat (hits c k (ps @ [p])) \<and>
    (nearest_distance_mm (sectors r' ! k), nearest_angle_deg (sectors r' ! k)) = nearest c k (ps @ [p]) \<and>
    (length (ps @ [p]) < 2 ^ 32 \<longrightarrow> (obstacle_detected (sectors r' ! k) \<longleftrightarrow>
      1 \<le> hits c k (ps @ [p]) \<and> unat (min_hits_per_sector c) \<le> hits c k (ps @ [p])))"
proof (intro conjI impI)
  have sec: "in_sector c k p \<longleftrightarrow> k = clamp_sector i" for k using acc i by (auto simp: in_sector_def)
  have hs5: "length hs = 5" using inv by (simp add: loop_inv_def)
  note t = track_point_inv [OF hs5 _ clamp_sector_less tr, unfolded same]
  have old: "hs ! k = word_of_nat (hits c k ps)"
    "(nearest_distance_mm (sectors r ! k), nearest_angle_deg (sectors r ! k)) = nearest c k ps"
    using inv k by (auto simp: loop_inv_def)
  show new: "hs' ! k = word_of_nat (hits c k (ps @ [p]))"
    using old(1) by (auto simp: t(2) [OF k] hits_snoc sec)
  show "(nearest_distance_mm (sectors r' ! k), nearest_angle_deg (sectors r' ! k)) = nearest c k (ps @ [p])"
    using old(2) by (auto simp: t(3) [OF k] nearest_snoc sec)
  assume len: "length (ps @ [p]) < 2 ^ 32"
  then have d: "obstacle_detected (sectors r ! k) \<longleftrightarrow>
      1 \<le> hits c k ps \<and> unat (min_hits_per_sector c) \<le> hits c k ps"
    using inv k by (simp add: loop_inv_def)
  have "unat (word_of_nat (hits c k (ps @ [p])) :: u32) = hits c k (ps @ [p])"
    using len hits_le [of c k "ps @ [p]"] by (simp add: unat_of_nat)
  then show "obstacle_detected (sectors r' ! k) \<longleftrightarrow>
      1 \<le> hits c k (ps @ [p]) \<and> unat (min_hits_per_sector c) \<le> hits c k (ps @ [p])"
    using d unfolding t(4) [OF k] new by (auto simp: word_le_nat_alt hits_snoc sec)
qed

lemma loop_inv_step:
  assumes inv: "loop_inv c ps (r, hs)" and step: "process_point c p (r, hs) = Some (r', hs')"
  shows "loop_inv c (ps @ [p]) (r', hs') \<and> total_points r' = total_points r \<and> timestamp r' = timestamp r"
proof (cases "accepted c p")
  case False
  then have no: "\<not> in_sector c k p" for k by (simp add: in_sector_def)
  have "sectors r' = sectors r \<and> hs' = hs \<and> total_points r' = total_points r \<and> timestamp r' = timestamp r \<and>
      angle_filtered_points r' = angle_filtered_points r + (if in_view c p then 1 else 0) \<and>
      distance_filtered_points r' = distance_filtered_points r + (if in_range c p then 1 else 0) \<and>
      quality_filtered_points r' = quality_filtered_points r"
    using step False accepted_in_range(2) [of c p]
    by (auto simp: process_point_cases Let_def split: if_splits)
  with inv False no show ?thesis
    by (auto simp: loop_inv_def hits_snoc nearest_snoc)
next
  case True
  let ?r = "r\<lparr>angle_filtered_points := angle_filtered_points r + 1,
    distance_filtered_points := distance_filtered_points r + 1,
    quality_filtered_points := quality_filtered_points r + 1\<rparr>"
  obtain i where i: "sector_quotient c p = Some i"
    and tr: "track_point c p (normalize_angle (angle_deg p)) (clamp_sector i) (?r, hs) = (r', hs')"
    using step True accepted_in_range [of c p]
    by (auto simp: process_point_cases Let_def)
  have hs5: "length hs = 5" using inv by (simp add: loop_inv_def)
  note t = track_point_inv [OF hs5 _ clamp_sector_less tr] and per = sector_inv_step [OF inv _ True i tr]
  show ?thesis
    using inv per t(1,5-9) [of 0] True accepted_in_range [of c p] by (simp add: loop_inv_def)
qed

lemma loop_inv_points:
  assumes "process_points c ps (r0, hs0) = Some (r, hs)" and "loop_inv c [] (r0, hs0)"
  shows "loop_inv c ps (r, hs) \<and> total_points r = total_points r0 \<and> timestamp r = timestamp r0"
  using assms(1)
proof (induction ps arbitrary: r hs rule: rev_induct)
  case Nil
  with assms(2) show ?case by simp
next
  case (snoc p ps)
  then obtain r1 hs1 where 1: "process_points c ps (r0, hs0) = Some (r1, hs1)"
    and 2: "process_point c p (r1, hs1) = Some (r, hs)"
    by (auto simp: process_points_snoc bind_eq_Some_conv)
  from snoc.IH [OF 1] loop_inv_step [of c ps r1 hs1 p r hs, OF _ 2] show ?case by auto
qed

lemma loop_inv_init:
  "loop_inv c [] (default_result\<lparr>timestamp := t, total_points := n\<rparr>, [0, 0, 0, 0, 0])"
proof -
  have "[0, 0, 0, 0, 0 :: u32] ! k = 0" if "k < 5" for k
    using that by (auto simp: less_Suc_eq numeral_eq_Suc)
  then show ?thesis
    by (auto simp: loop_inv_def sectors_default default_sector_def hits_def nearest_def)
      (simp_all add: default_result_def)
qed

lemma process_inv:
  assumes "process c f = Some r"
  shows "\<exists>hs. loop_inv c (points f) (r, hs)" "total_points r = word_of_nat (length (points f))"
    "timestamp r = timestamp_us f"
proof -
  obtain hs where hs: "process_points c (points f)
      (default_result\<lparr>timestamp := timestamp_us f, total_points := word_of_nat (length (points f))\<rparr>,
       [0, 0, 0, 0, 0]) = Some (r, hs)"
    using assms by (auto simp: process_def Let_def)
  from loop_inv_points [OF this loop_inv_init]
  show "\<exists>hs. loop_inv c (points f) (r, hs)" "total_points r = word_of_nat (length (points f))"
    "timestamp r = timestamp_us f" by auto
qed

text \<open>The loop fails only at an accepted point without a sector.\<close>

lemma process_points_defined:
  "(\<And>p. p \<in> set ps \<Longrightarrow> accepted c p \<Longrightarrow> sector_quotient c p \<noteq> None) \<Longrightarrow> process_points c ps st \<noteq> None"
proof (induction ps arbitrary: st)
  case (Cons p ps)
  obtain r hs where st: "st = (r, hs)" by (cases st)
  have "process_point c p (r, hs) \<noteq> None"
    using Cons.prems [of p] by (auto simp: process_point_cases Let_def)
  then obtain st' where "process_point c p (r, hs) = Some st'" by blast
  with Cons show ?case by (simp add: st)
qed simp

lemma process_points_undefined:
  "p \<in> set ps \<Longrightarrow> accepted c p \<Longrightarrow> sector_quotient c p = None \<Longrightarrow> process_points c ps st = None"
proof (induction ps arbitrary: st)
  case (Cons q ps)
  obtain r hs where st: "st = (r, hs)" by (cases st)
  show ?case
  proof (cases "q = p")
    case True
    with Cons.prems accepted_in_range [of c p] show ?thesis
      by (simp add: st process_point_cases Let_def)
  next
    case False
    with Cons show ?thesis by (auto split: option.splits)
  qed
qed simp

section \<open>When a sector exists\<close>

text \<open>
  A usable field of view: finite bounds in order, a finite span, and a sector width above zero. The
  bearing of an accepted point that is a number then lies between the bounds, and the rounded quotient
  cannot exceed 10.
\<close>

definition view_ok :: "perception_config \<Rightarrow> bool" where
  "view_ok c \<longleftrightarrow> f32_is_finite (min_angle_deg c) \<and> f32_is_finite (max_angle_deg c) \<and>
     f32_val (min_angle_deg c) \<le> f32_val (max_angle_deg c) \<and> f32_is_finite (fov_span c) \<and>
     f32_mag (sector_width c) \<noteq> 0"

lemma rounded_mono:
  fixes a b :: int
  assumes "0 \<le> a" "a \<le> b"
  shows "min (round_units (nat \<bar>a\<bar>) 1) f32_limit \<le> min (round_units (nat \<bar>b\<bar>) 1) f32_limit"
proof -
  have "nat \<bar>a\<bar> \<le> nat \<bar>b\<bar>" using assms by simp
  then have "round_units (nat \<bar>a\<bar>) 1 \<le> round_units (nat \<bar>b\<bar>) 1"
    by (intro round_units_mono) simp
  then show ?thesis by simp
qed

lemma f32_val_between_finite:
  assumes "\<not> f32_is_nan x" "f32_is_finite lo" "f32_is_finite hi" "f32_val lo \<le> f32_val x" "f32_val x \<le> f32_val hi"
  shows "f32_is_finite x"
proof (rule ccontr)
  assume "\<not> f32_is_finite x"
  then have "f32_is_inf x" using assms(1) by (simp add: f32_finite_iff)
  then have "f32_mag x = f32_limit" by (simp add: f32_is_inf_def f32_mag_def f32_limit_def)
  then show False
    using assms(4,5) f32_mag_finite_less [OF assms(2)] f32_mag_finite_less [OF assms(3)]
    by (auto simp: f32_val_def split: if_splits)
qed

lemma f32_sub_nonneg:
  assumes "f32_is_finite x" "f32_is_finite y" "f32_val y \<le> f32_val x"
  shows "f32_mag (f32_sub x y) = min (round_units (nat \<bar>f32_val x - f32_val y\<bar>) 1) f32_limit"
    "f32_sign (f32_sub x y) \<Longrightarrow> f32_mag (f32_sub x y) = 0"
proof -
  have "0 \<le> f32_val (f32_sub x y)"
    unfolding f32_sub_finite(2) [OF assms(1,2)] using assms(3) by (simp add: sgn_if)
  moreover have "f32_val (f32_sub x y) = int (min (round_units (nat \<bar>f32_val x - f32_val y\<bar>) 1) f32_limit)"
    unfolding f32_sub_finite(2) [OF assms(1,2)]
    using assms(3) round_units_0 [of 1] by (simp add: sgn_if del: One_nat_def)
  ultimately show "f32_mag (f32_sub x y) = min (round_units (nat \<bar>f32_val x - f32_val y\<bar>) 1) f32_limit"
    by (simp add: f32_val_def del: One_nat_def split: if_splits)
  show "f32_sign (f32_sub x y) \<Longrightarrow> f32_mag (f32_sub x y) = 0"
    using \<open>0 \<le> f32_val (f32_sub x y)\<close> by (simp add: f32_val_def)
qed

lemma width_bounds_span:
  assumes "view_ok c"
  shows "f32_is_finite (sector_width c)" "f32_mag (fov_span c) \<le> f32_mag (sector_width c) * 10"
    "\<not> f32_sign (sector_width c)"
proof -
  let ?s = "fov_span c"
  have five: "f32_is_finite (f32_of_nat 5)" "f32_mag (f32_of_nat 5) = 5 * f32_unit" "\<not> f32_sign (f32_of_nat 5)"
    by (simp_all add: f32_of_nat_exact)
  have s: "f32_is_finite ?s" "f32_mag (sector_width c) \<noteq> 0" using assms by (simp_all add: view_ok_def)
  have div: "sector_width c = f32_round (f32_sign ?s \<noteq> f32_sign (f32_of_nat 5)) (f32_mag ?s * f32_unit) (5 * f32_unit)"
    unfolding sector_width_def using five f32_div_finite [OF s(1) five(1)] by simp
  have d: "0 < 5 * f32_unit" by simp
  let ?w = "round_units (f32_mag ?s * f32_unit) (5 * f32_unit)"
  have small: "?w \<le> f32_mag ?s"
    by (rule round_units_le [OF d f32_mag_representable]) simp
  then have lt: "?w < f32_limit" using f32_mag_finite_less [OF s(1)] by simp
  have w: "f32_mag (sector_width c) = ?w" using lt by (simp add: div f32_round_spec(2) [OF d])
  show "f32_is_finite (sector_width c)"
    using lt f32_encode_is_inf [OF round_units_representable [OF d], of _ "f32_mag ?s * f32_unit"]
      f32_round_spec(3) [OF d] by (simp add: div f32_finite_iff f32_round_def)
  have sign: "\<not> f32_sign ?s \<or> f32_mag ?s = 0"
    using f32_sub_nonneg(2) [of "max_angle_deg c" "min_angle_deg c"] assms
    by (auto simp: view_ok_def fov_span_def)
  have "f32_mag ?s \<noteq> 0" using s(2) small w by auto
  with sign show "\<not> f32_sign (sector_width c)" by (simp add: div f32_round_spec(1) [OF d] five)
  show "f32_mag ?s \<le> f32_mag (sector_width c) * 10"
  proof (rule ccontr)
    assume "\<not> ?thesis"
    then have "(2 * ?w) * (5 * f32_unit) \<le> f32_mag ?s * f32_unit" by (simp add: w)
    moreover have "representable (2 * ?w)"
    proof -
      have "representable ?w" by (rule round_units_representable [OF d])
      then obtain m e where "?w = m * 2 ^ e" "m \<le> 2 ^ 24" by (auto simp: representable_def)
      with representableI [of m "Suc e"] show ?thesis by (simp add: mult.left_commute)
    qed
    ultimately have "2 * ?w \<le> ?w" by (intro round_units_ge [OF d])
    with s(2) w show False by simp
  qed
qed

lemma normalize_number: "\<not> f32_is_nan a \<Longrightarrow> \<not> f32_is_nan (normalize_angle a)"
  using f32_sub_finite(1) [of a "f32_of_nat 360"] f32_of_nat_exact(1) [of 360]
  by (cases "f32_is_finite a") (auto simp: f32_finite_iff f32_sub_def normalize_angle_def)

lemma sector_quotient_bound:
  assumes ok: "view_ok c" and view: "in_view c p" and num: "\<not> f32_is_nan (angle_deg p)"
  shows "\<exists>i. sector_quotient c p = Some i \<and> 0 \<le> i \<and> i \<le> 10"
proof -
  let ?a = "normalize_angle (angle_deg p)" and ?lo = "min_angle_deg c" and ?hi = "max_angle_deg c"
  let ?rel = "f32_sub ?a ?lo"
  have fin: "f32_is_finite ?lo" "f32_is_finite ?hi" using ok by (simp_all add: view_ok_def)
  have nan: "\<not> f32_is_nan ?a" by (rule normalize_number [OF num])
  have nb: "\<not> f32_is_nan ?lo" "\<not> f32_is_nan ?hi" using fin by (simp_all add: f32_finite_iff)
  have between: "f32_val ?lo \<le> f32_val ?a" "f32_val ?a \<le> f32_val ?hi"
    using view nan nb by (simp_all add: in_view_def f32_less_iff not_less)
  have a: "f32_is_finite ?a" by (rule f32_val_between_finite [OF nan fin between])
  note rel = f32_sub_nonneg [OF a fin(1) between(1)]
  have "f32_mag ?rel \<le> f32_mag (fov_span c)"
    unfolding fov_span_def rel(1) f32_sub_nonneg(1) [OF fin(2,1) order_trans [OF between]]
    by (rule rounded_mono) (use between in simp_all)
  moreover note w = width_bounds_span [OF ok]
  ultimately have le: "f32_mag ?rel \<le> f32_mag (sector_width c) * 10" by simp
  have "f32_mag ?rel \<le> f32_mag (fov_span c)" by fact
  also have "\<dots> < f32_limit" using ok by (intro f32_mag_finite_less) (simp add: view_ok_def)
  finally have "\<not> f32_is_inf ?rel" by (auto simp: f32_is_inf_def f32_mag_def f32_limit_def)
  then have relfin: "f32_is_finite ?rel" using f32_sub_finite(1) [OF a fin(1)] by (simp add: f32_finite_iff)
  have w0: "f32_mag (sector_width c) \<noteq> 0" using ok by (simp add: view_ok_def)
  let ?q = "f32_div ?rel (sector_width c)"
  have q: "?q = f32_round (f32_sign ?rel \<noteq> f32_sign (sector_width c)) (f32_mag ?rel * f32_unit) (f32_mag (sector_width c))"
    by (rule f32_div_finite [OF relfin w(1) w0])
  have d: "0 < f32_mag (sector_width c)" using w0 by simp
  have ten: "representable (10 * f32_unit)" unfolding f32_unit_def by (rule representableI) simp
  have r: "round_units (f32_mag ?rel * f32_unit) (f32_mag (sector_width c)) \<le> 10 * f32_unit"
    by (rule round_units_le [OF d ten]) (use le in \<open>simp add: mult_ac\<close>)
  have lim: "10 * f32_unit < f32_limit" by (simp add: f32_unit_def f32_limit_def)
  have qm: "f32_mag ?q \<le> 10 * f32_unit" unfolding q f32_round_spec(2) [OF d] using r by simp
  then have "\<not> f32_is_inf ?q" using lim by (auto simp: f32_is_inf_def f32_mag_def f32_limit_def)
  then have qfin: "f32_is_finite ?q" unfolding q using f32_round_spec(3) [OF d] by (simp add: f32_finite_iff)
  have le10: "f32_mag ?q div f32_unit \<le> 10" using div_le_mono [OF qm, of f32_unit] by simp
  have pos: "f32_sign ?q \<Longrightarrow> f32_mag ?q = 0"
    unfolding q f32_round_spec(1,2) [OF d] using rel(2) w(3) round_units_0 [OF d] by auto
  have "f32_to_int ?q = Some (int (f32_mag ?q div f32_unit))"
    using f32_to_int_finite [OF qfin] le10 pos by auto
  with le10 show ?thesis by (simp add: sector_quotient_def)
qed

section \<open>Properties\<close>

lemma default_view_ok: "view_ok default_perception_config"
  by (simp add: view_ok_def fov_span_def sector_width_def default_perception_config_def f32_compute_defs)

text \<open>
  C16: With a usable field of view (finite ordered bounds, finite span, a sector width above zero) the
  detector never converts an out-of-range quotient: \<open>process\<close> is defined on every revolution whose
  bearings are numbers, whatever the distances, the bearings' size and the qualities.
\<close>
theorem process_defined:
  assumes "view_ok c" "\<forall>p \<in> set (points f). \<not> f32_is_nan (angle_deg p)"
  shows "\<exists>r. process c f = Some r"
proof -
  have "process_points c (points f) st \<noteq> None" for st
    by (rule process_points_defined)
      (use assms sector_quotient_bound accepted_in_range in fastforce)
  then show ?thesis by (auto simp: process_def Let_def)
qed

text \<open>A revolution with three returns straight ahead and one behind the sensor.\<close>

definition ahead :: "nat \<Rightarrow> nat \<Rightarrow> scan_point" where
  "ahead deg mm = \<lparr>angle_deg = f32_of_nat deg, distance_mm = f32_of_nat mm, quality = 47\<rparr>"

definition sample_revolution :: scan_frame where
  "sample_revolution =
     \<lparr>sequence = 7, timestamp_us = 1000, points = [ahead 5 800, ahead 2 700, ahead 120 300, ahead 3 850]\<rparr>"

lemma accepted_ahead:
  "deg \<le> 180 \<Longrightarrow> mm \<le> 16777216 \<Longrightarrow>
   accepted default_perception_config (ahead deg mm) \<longleftrightarrow> 0 < mm \<and> deg \<le> 45 \<and> mm \<le> 2000"
  by (simp add: accepted_def in_range_def in_view_def ahead_def default_perception_config_def
      normalize_angle_def f32_eval) linarith

lemma sample_rel:
  "f32_sub (f32_of_nat 5) (f32_neg (f32_of_nat 45)) = F32 1112014848"
  "f32_sub (f32_of_nat 2) (f32_neg (f32_of_nat 45)) = F32 1111228416"
  "f32_sub (f32_of_nat 3) (f32_neg (f32_of_nat 45)) = F32 1111490560"
  by (simp_all add: f32_compute_defs)

lemma sample_width: "sector_width default_perception_config = F32 1099956224"
  by (simp add: sector_width_def fov_span_def default_perception_config_def f32_compute_defs)

lemma sample_ratio:
  "f32_to_int (f32_div (F32 1112014848) (F32 1099956224)) = Some 2"
  "f32_to_int (f32_div (F32 1111228416) (F32 1099956224)) = Some 2"
  "f32_to_int (f32_div (F32 1111490560) (F32 1099956224)) = Some 2"
  by (simp_all add: f32_compute_defs)

lemma sample_quotient:
  "sector_quotient default_perception_config (ahead 5 800) = Some 2"
  "sector_quotient default_perception_config (ahead 2 700) = Some 2"
  "sector_quotient default_perception_config (ahead 3 850) = Some 2"
  unfolding sector_quotient_def ahead_def sample_width
  by (simp_all add: default_perception_config_def normalize_angle_def f32_eval sample_rel sample_ratio)

lemma sample_in_sector: "filter (in_sector default_perception_config 2) (points sample_revolution) =
    [ahead 5 800, ahead 2 700, ahead 3 850]"
  by (simp add: sample_revolution_def in_sector_def accepted_ahead sample_quotient clamp_sector_def)

lemma sample_numeric: "\<forall>p \<in> set (points sample_revolution). \<not> f32_is_nan (angle_deg p)"
  by (simp add: sample_revolution_def ahead_def f32_eval)

theorem process_defined_witness:
  "\<exists>r. process default_perception_config sample_revolution = Some r"
  by (rule process_defined [OF default_view_ok sample_numeric])

lemma sample_defined: "\<exists>r. process default_perception_config sample_revolution = Some r"
proof -
  have "process_points default_perception_config (points sample_revolution) st \<noteq> None" for st
    by (rule process_points_defined) (auto simp: sample_revolution_def accepted_ahead sample_quotient)
  then show ?thesis by (auto simp: process_def Let_def)
qed

lemma detected_iff:
  assumes "process c f = Some r" "length (points f) < 2 ^ 32" "k < 5"
  shows "obstacle_detected (sectors r ! k) \<longleftrightarrow> 1 \<le> hits c k (points f) \<and> unat (min_hits_per_sector c) \<le> hits c k (points f)"
  using process_inv(1) [OF assms(1)] assms(2,3) by (auto simp: loop_inv_def)

lemma nearest_of_result:
  assumes "process c f = Some r" "k < 5"
  shows "(nearest_distance_mm (sectors r ! k), nearest_angle_deg (sectors r ! k)) = nearest c k (points f)"
  using process_inv(1) [OF assms(1)] assms(2) by (auto simp: loop_inv_def)

text \<open>
  More returns never clear an obstacle: if the points of one revolution occur, in order, in
  another, every sector detected for the first is detected for the second.
\<close>
lemma obstacle_monotone:
  assumes "process c f = Some r" "process c g = Some s" "subseq (points f) (points g)"
    "length (points g) < 2 ^ 32" "k < 5" "obstacle_detected (sectors r ! k)"
  shows "obstacle_detected (sectors s ! k)"
proof -
  have "length (points f) < 2 ^ 32" using list_emb_length [OF assms(3)] assms(4) by simp
  moreover have "hits c k (points f) \<le> hits c k (points g)"
    using list_emb_length [OF subseq_filter [OF assms(3)]] by (simp add: hits_def)
  ultimately show ?thesis using assms by (fastforce simp: detected_iff)
qed

lemma obstacle_monotone_witness:
  "\<exists>r. process default_perception_config sample_revolution = Some r \<and> obstacle_detected (sectors r ! 2)"
proof -
  obtain r where r: "process default_perception_config sample_revolution = Some r" using sample_defined by blast
  have small: "length (points sample_revolution) < 2 ^ 32" by (simp add: sample_revolution_def)
  have "obstacle_detected (sectors r ! 2)"
    using detected_iff [OF r small, of 2] sample_in_sector by (simp add: hits_def default_perception_config_def)
  from obstacle_monotone [OF r r subseq_order.refl small _ this] r show ?thesis by auto
qed

text \<open>The tracking of the nearest point, over distances that are positive numbers.\<close>

definition measurable :: "scan_point \<Rightarrow> bool" where
  "measurable p \<longleftrightarrow> \<not> f32_is_nan (distance_mm p) \<and> 0 < f32_val (distance_mm p)"

lemma f32_zero_facts: "\<not> f32_is_nan (f32_of_nat 0)" "f32_val (f32_of_nat 0) = 0"
  by (simp_all add: f32_compute_defs)

lemma accepted_positive: "accepted c p \<Longrightarrow> \<not> f32_is_nan (distance_mm p) \<Longrightarrow> measurable p"
proof -
  assume "accepted c p" and num: "\<not> f32_is_nan (distance_mm p)"
  then have "\<not> distance_mm p \<le> f32_of_nat 0" by (simp add: accepted_def in_range_def in_view_def)
  with num show ?thesis by (simp add: measurable_def f32_le_iff f32_zero_facts)
qed

lemma track_nearest_min:
  assumes "\<forall>p \<in> set ps. measurable p" "ps \<noteq> []"
  shows "\<exists>q \<in> set ps. fold track_nearest ps (f32_neg (f32_of_nat 1), a) = (distance_mm q, normalize_angle (angle_deg q)) \<and>
    (\<forall>p \<in> set ps. f32_val (distance_mm q) \<le> f32_val (distance_mm p))"
  using assms
proof (induction ps rule: rev_induct)
  case (snoc x ps)
  have neg: "f32_neg (f32_of_nat 1) < f32_of_nat 0" by (simp add: f32_compute_defs)
  show ?case
  proof (cases "ps = []")
    case True
    with neg show ?thesis by (simp add: track_nearest_def)
  next
    case False
    with snoc obtain q where q: "q \<in> set ps"
      "fold track_nearest ps (f32_neg (f32_of_nat 1), a) = (distance_mm q, normalize_angle (angle_deg q))"
      "\<forall>p \<in> set ps. f32_val (distance_mm q) \<le> f32_val (distance_mm p)" by auto
    have m: "measurable q" "measurable x" using snoc.prems q(1) by auto
    then have "\<not> distance_mm q < f32_of_nat 0" "distance_mm x < distance_mm q \<longleftrightarrow> f32_val (distance_mm x) < f32_val (distance_mm q)"
      by (simp_all add: measurable_def f32_less_iff f32_zero_facts)
    with q(2) have "fold track_nearest (ps @ [x]) (f32_neg (f32_of_nat 1), a) =
        (if f32_val (distance_mm x) < f32_val (distance_mm q) then (distance_mm x, normalize_angle (angle_deg x))
         else (distance_mm q, normalize_angle (angle_deg q)))"
      by (simp add: track_nearest_def)
    with q(1,3) show ?thesis by (cases "f32_val (distance_mm x) < f32_val (distance_mm q)") fastforce+
  qed
qed simp

text \<open>
  The reported distance of a sector is that of the nearest accepted point in it: one of them
  has it, with the reported bearing, and none is nearer; a sector without a point keeps \<open>-1\<close> and \<open>0\<close>.
\<close>
lemma nearest_minimal:
  assumes "process c f = Some r" "\<forall>p \<in> set (points f). \<not> f32_is_nan (distance_mm p)" "k < 5"
    "length (points f) < 2 ^ 32"
  shows "(\<exists>q \<in> set (points f). in_sector c k q \<and>
            nearest_distance_mm (sectors r ! k) = distance_mm q \<and>
            nearest_angle_deg (sectors r ! k) = normalize_angle (angle_deg q) \<and>
            (\<forall>p \<in> set (points f). in_sector c k p \<longrightarrow> f32_val (distance_mm q) \<le> f32_val (distance_mm p))) \<or>
         (\<forall>p \<in> set (points f). \<not> in_sector c k p) \<and>
         sectors r ! k = default_sector"
proof -
  have n: "(nearest_distance_mm (sectors r ! k), nearest_angle_deg (sectors r ! k)) = nearest c k (points f)"
    by (rule nearest_of_result [OF assms(1,3)])
  show ?thesis
  proof (cases "filter (in_sector c k) (points f) = []")
    case True
    have "\<not> obstacle_detected (sectors r ! k)"
      using detected_iff [OF assms(1,4,3)] True by (simp add: hits_def)
    with n True show ?thesis by (auto simp: nearest_def filter_empty_conv default_sector_def)
  next
    case False
    have "\<forall>p \<in> set (filter (in_sector c k) (points f)). measurable p"
      using assms(2) by (auto simp: in_sector_def intro: accepted_positive)
    from track_nearest_min [OF this False, of "f32_of_nat 0"] n show ?thesis
      by (auto simp: nearest_def)
  qed
qed


text \<open>
  C14: The brake decision. Sector \<open>k\<close> of the result is detected exactly when at least
  \<open>max 1 min_hits_per_sector\<close> points of the revolution pass every filter and fall into it. If no distance
  is a NaN, its nearest distance and bearing are those of one of these points, and none of them is nearer,
  whether or not they are enough for an obstacle; without any such point they are -1 and 0. The counters
  are the numbers of points that pass each filter in turn.
\<close>
theorem process_functional:
  assumes "process c f = Some r" "length (points f) < 2 ^ 32"
  shows "(\<forall>k < 5.
           (obstacle_detected (sectors r ! k) \<longleftrightarrow>
              max 1 (unat (min_hits_per_sector c)) \<le> length (filter (in_sector c k) (points f))) \<and>
           ((\<forall>p \<in> set (points f). \<not> f32_is_nan (distance_mm p)) \<longrightarrow>
              (\<exists>q \<in> set (points f). in_sector c k q \<and> nearest_distance_mm (sectors r ! k) = distance_mm q \<and>
                 nearest_angle_deg (sectors r ! k) = normalize_angle (angle_deg q) \<and>
                 (\<forall>p \<in> set (points f). in_sector c k p \<longrightarrow> f32_val (distance_mm q) \<le> f32_val (distance_mm p))) \<or>
              (\<forall>p \<in> set (points f). \<not> in_sector c k p) \<and> nearest_distance_mm (sectors r ! k) = f32_neg (f32_of_nat 1) \<and>
                 nearest_angle_deg (sectors r ! k) = f32_of_nat 0)) \<and>
         timestamp r = timestamp_us f \<and>
         unat (total_points r) = length (points f) \<and>
         unat (angle_filtered_points r) = length (filter (in_view c) (points f)) \<and>
         unat (distance_filtered_points r) = length (filter (in_range c) (points f)) \<and>
         unat (quality_filtered_points r) = length (filter (accepted c) (points f))"
proof (intro conjI allI impI)
  have small: "unat (word_of_nat (length (filter P (points f))) :: u32) = length (filter P (points f))" for P
    by (intro unat_of_nat_u32 le_less_trans [OF length_filter_le assms(2)])
  moreover have "unat (word_of_nat (length (points f)) :: u32) = length (points f)"
    using assms(2) by (intro unat_of_nat_u32) simp
  ultimately show "timestamp r = timestamp_us f" "unat (total_points r) = length (points f)"
    "unat (angle_filtered_points r) = length (filter (in_view c) (points f))"
    "unat (distance_filtered_points r) = length (filter (in_range c) (points f))"
    "unat (quality_filtered_points r) = length (filter (accepted c) (points f))"
    using process_inv [OF assms(1)] by (auto simp: loop_inv_def)
next
  fix k :: nat assume k: "k < 5"
  show "obstacle_detected (sectors r ! k) \<longleftrightarrow>
      max 1 (unat (min_hits_per_sector c)) \<le> length (filter (in_sector c k) (points f))"
    using detected_iff [OF assms k] by (simp add: hits_def)
  assume "\<forall>p \<in> set (points f). \<not> f32_is_nan (distance_mm p)"
  from nearest_minimal [OF assms(1) this k assms(2)]
  show "(\<exists>q \<in> set (points f). in_sector c k q \<and> nearest_distance_mm (sectors r ! k) = distance_mm q \<and>
          nearest_angle_deg (sectors r ! k) = normalize_angle (angle_deg q) \<and>
          (\<forall>p \<in> set (points f). in_sector c k p \<longrightarrow> f32_val (distance_mm q) \<le> f32_val (distance_mm p))) \<or>
        (\<forall>p \<in> set (points f). \<not> in_sector c k p) \<and> nearest_distance_mm (sectors r ! k) = f32_neg (f32_of_nat 1) \<and>
          nearest_angle_deg (sectors r ! k) = f32_of_nat 0"
    by (auto simp: default_sector_def)
qed

text \<open>Three returns ahead, the nearest at 70 centimetres.\<close>

theorem process_functional_witness:
  "\<exists>r. process default_perception_config sample_revolution = Some r \<and> obstacle_detected (center r) \<and>
     nearest_distance_mm (center r) = f32_of_nat 700"
proof -
  let ?c = default_perception_config
  obtain r where r: "process ?c sample_revolution = Some r" using sample_defined by blast
  have small: "length (points sample_revolution) < 2 ^ 32" by (simp add: sample_revolution_def)
  note f = process_functional [OF r small]
  have num: "\<forall>p \<in> set (points sample_revolution). \<not> f32_is_nan (distance_mm p)"
    by (simp add: sample_revolution_def ahead_def f32_eval)
  have "unat (min_hits_per_sector ?c) = 3" by (simp add: default_perception_config_def)
  then have hit: "obstacle_detected (sectors r ! 2)" using f sample_in_sector by simp
  have sec: "set (filter (in_sector ?c 2) (points sample_revolution)) = {ahead 5 800, ahead 2 700, ahead 3 850}"
    unfolding sample_in_sector by simp
  have d: "f32_val (f32_of_nat 700) < f32_val (f32_of_nat 800)" "f32_val (f32_of_nat 700) < f32_val (f32_of_nat 850)"
    by (simp_all add: f32_compute_defs)
  let ?S = "set (filter (in_sector ?c 2) (points sample_revolution))"
  have "(\<exists>q \<in> ?S. nearest_distance_mm (sectors r ! 2) = distance_mm q \<and>
      (\<forall>p \<in> ?S. f32_val (distance_mm q) \<le> f32_val (distance_mm p))) \<or> ?S = {}"
    using conjunct2 [OF mp [OF spec [OF conjunct1 [OF f], of 2]]] num by auto
  with d have "nearest_distance_mm (sectors r ! 2) = f32_of_nat 700"
    unfolding sec by (auto simp: ahead_def)
  with r hit show ?thesis by (simp add: sectors_def)
qed

lemma zero_width_quotient:
  assumes "f32_mag (sector_width c) = 0 \<or> f32_is_nan (sector_width c)"
  shows "sector_quotient c p = None"
proof -
  have no: "f32_to_int f32_nan = None" "f32_to_int (f32_inf s) = None" for s
    by (simp_all add: f32_compute_defs)
  have "\<not> f32_is_inf (sector_width c) \<or> f32_is_nan (sector_width c)"
    using assms by (auto simp: f32_is_inf_def f32_mag_def)
  with assms show ?thesis
    by (auto simp: sector_quotient_def f32_div_def Let_def no)
qed

text \<open>
  A field of view of width zero is undefined behaviour, not an empty view: with
  \<open>sector_width\<close> zero (equal bounds) or not a number, the first point that passes the filters makes
  the quotient infinite or NaN and its conversion to \<open>int\<close> undefined.
\<close>
lemma zero_width_undefined:
  assumes "f32_mag (sector_width c) = 0 \<or> f32_is_nan (sector_width c)"
    and "p \<in> set (points f)" "accepted c p"
  shows "process c f = None"
  using process_points_undefined [OF assms(2,3) zero_width_quotient [OF assms(1)]]
  by (simp add: process_def Let_def)

text \<open>The view \<open>--min-angle 0 --max-angle 0\<close> asks for.\<close>

definition closed_view :: perception_config where
  "closed_view = default_perception_config\<lparr>min_angle_deg := f32_of_nat 0, max_angle_deg := f32_of_nat 0\<rparr>"

lemma zero_width_undefined_witness:
  "process closed_view (sample_revolution\<lparr>points := [ahead 0 500]\<rparr>) = None"
proof (rule zero_width_undefined [of _ "ahead 0 500"])
  show "f32_mag (sector_width closed_view) = 0 \<or> f32_is_nan (sector_width closed_view)"
    by (simp add: closed_view_def sector_width_def fov_span_def f32_compute_defs)
  show "accepted closed_view (ahead 0 500)"
    by (simp add: closed_view_def default_perception_config_def accepted_def in_range_def in_view_def
        ahead_def normalize_angle_def f32_eval)
qed simp

lemma swapped_blind:
  assumes "max_angle_deg c < min_angle_deg c" "\<forall>p \<in> set (points f). \<not> f32_is_nan (angle_deg p)"
  shows "\<exists>r. process c f = Some r \<and> sectors r = replicate 5 default_sector \<and> angle_filtered_points r = 0"
proof -
  have b: "\<not> f32_is_nan (min_angle_deg c)" "\<not> f32_is_nan (max_angle_deg c)"
    "f32_val (max_angle_deg c) < f32_val (min_angle_deg c)"
    using assms(1) by (auto simp: less_float32_def)
  have out: "\<not> in_view c p" if "p \<in> set (points f)" for p
  proof -
    have "\<not> f32_is_nan (normalize_angle (angle_deg p))" 
      using assms(2) that normalize_number by blast
    with b show ?thesis by (auto simp: in_view_def f32_less_iff)
  qed
  have "process_points c ps st = Some st" if "\<forall>p \<in> set ps. \<not> in_view c p" for ps st
    using that by (cases st, induction ps) (simp_all add: process_point_cases)
  with out show ?thesis
    by (simp add: process_def sectors_def default_result_def numeral_eq_Suc)
qed

end
