(* ===== verification/RpLidarDevice.thy ===== *)
theory RpLidarDevice
  imports DomainTypes
begin

text \<open>
  The sensor driver, \<open>lidar/RpLidarDevice.cpp\<close>, with the configuration of \<open>lidar/Lidar.hpp\<close>: the
  fixed-point conversions in binary32, the ordered opening of channel, driver, motor and scan, the
  reverse order of \<open>close\<close>, and \<open>grabScan\<close>. The Slamtec SDK is not part of the repository: its
  answers are the record \<open>sdk\<close>, its objects are named by the position of the call that created
  them, and every call the code makes is appended to a log, so that the order of the calls can be
  checked afterwards.
\<close>

section \<open>Configuration and conversions\<close>

record lidar_config =
  serial_port :: string
  baudrate :: u32
  scan_timeout_ms :: u32
  max_nodes_per_scan :: nat
  auto_reconnect :: bool
  reconnect_delay_ms :: u32

text \<open>\<open>LidarConfig{}\<close>.\<close>

definition default_lidar_config :: lidar_config where
  "default_lidar_config =
     \<lparr>serial_port = ''/dev/ttyUSB0'', baudrate = 460800, scan_timeout_ms = 2000,
      max_nodes_per_scan = 8192, auto_reconnect = True, reconnect_delay_ms = 500\<rparr>"

definition toDegrees :: "u16 \<Rightarrow> float32" where
  "toDegrees angle_z_q14 =
     f32_div (f32_mul (f32_of_nat (unat angle_z_q14)) (f32_of_nat 90)) (f32_of_nat 16384)"

definition toMillimetres :: "u32 \<Rightarrow> float32" where
  "toMillimetres dist_mm_q2 = f32_div (f32_of_nat (unat dist_mm_q2)) (f32_of_nat 4)"

text \<open>The result codes the code names; every other one is the default of \<open>describe\<close>.\<close>

datatype sl_result =
    SL_RESULT_OK | SL_RESULT_ALREADY_DONE | SL_RESULT_INVALID_DATA | SL_RESULT_OPERATION_FAIL
  | SL_RESULT_OPERATION_TIMEOUT | SL_RESULT_OPERATION_STOP | SL_RESULT_OPERATION_NOT_SUPPORT
  | SL_RESULT_FORMAT_NOT_SUPPORT | SL_RESULT_INSUFFICIENT_MEMORY | SL_RESULT_OTHER nat

fun describe :: "sl_result \<Rightarrow> string" where
  "describe SL_RESULT_OK = ''ok''"
| "describe SL_RESULT_ALREADY_DONE = ''already done''"
| "describe SL_RESULT_INVALID_DATA = ''invalid data''"
| "describe SL_RESULT_OPERATION_FAIL = ''operation failed''"
| "describe SL_RESULT_OPERATION_TIMEOUT = ''operation timed out''"
| "describe SL_RESULT_OPERATION_STOP = ''operation stopped''"
| "describe SL_RESULT_OPERATION_NOT_SUPPORT = ''operation not supported''"
| "describe SL_RESULT_FORMAT_NOT_SUPPORT = ''format not supported''"
| "describe SL_RESULT_INSUFFICIENT_MEMORY = ''insufficient memory''"
| "describe (SL_RESULT_OTHER _) = ''unknown error''"

section \<open>The SDK\<close>

record node =
  angle_z_q14 :: u16
  dist_mm_q2 :: u32
  node_quality :: u8

text \<open>
  The answers of the SDK: the macro \<open>SL_IS_OK\<close>, whether the two factories succeed, the results of
  the calls that \<open>open\<close> makes, the measurements \<open>grabScanDataHq\<close> stores, and how \<open>ascendScanData\<close>
  rearranges them.
\<close>

record sdk =
  SL_IS_OK :: "sl_result \<Rightarrow> bool"
  create_channel :: "string \<Rightarrow> int \<Rightarrow> bool"
  create_driver :: bool
  sdk_connect :: sl_result
  sdk_device_info :: sl_result
  sdk_motor_speed :: sl_result
  sdk_start_scan :: sl_result
  sdk_grab :: "nat \<Rightarrow> u32 \<Rightarrow> sl_result \<times> node list"
  sdk_ascend :: "node list \<Rightarrow> node list"

datatype sdk_call =
    CreateChannel string int bool | CreateDriver bool | Connect nat nat | GetDeviceInfo nat
  | SetMotorSpeed nat "nat option" | StartScan nat | GrabScan nat | AscendScan nat | StopScan nat
  | DeleteDriver nat | DeleteChannel nat

section \<open>Code\<close>

record device =
  dev_config :: lidar_config
  driver_ptr :: "nat option"
  channel_ptr :: "nat option"
  calls :: "sdk_call list"

text \<open>The constructor; the node buffer holds \<open>max_nodes_per_scan\<close> measurements from here on.\<close>

definition RpLidarDevice :: "lidar_config \<Rightarrow> device" where
  "RpLidarDevice config = \<lparr>dev_config = config, driver_ptr = None, channel_ptr = None, calls = []\<rparr>"

definition dev_isOpen :: "device \<Rightarrow> bool" where
  "dev_isOpen dev \<longleftrightarrow> driver_ptr dev \<noteq> None"

definition call :: "sdk_call \<Rightarrow> device \<Rightarrow> device" where
  "call c dev = dev\<lparr>calls := calls dev @ [c]\<rparr>"

definition dev_close :: "device \<Rightarrow> device" where
  "dev_close dev =
     (let dev = (case driver_ptr dev of None \<Rightarrow> dev
        | Some d \<Rightarrow> (call (DeleteDriver d) (call (SetMotorSpeed d (Some 0)) (call (StopScan d) dev)))
                      \<lparr>driver_ptr := None\<rparr>)
      in (case channel_ptr dev of None \<Rightarrow> dev
        | Some c \<Rightarrow> (call (DeleteChannel c) dev)\<lparr>channel_ptr := None\<rparr>))"

text \<open>The destructor.\<close>

definition dev_destroy :: "device \<Rightarrow> device" where
  "dev_destroy dev = dev_close dev"

lemma dev_close_again [simp]: "dev_close (dev_close dev) = dev_close dev"
  by (simp add: dev_close_def call_def Let_def split: option.split)

text \<open>\<open>open(error)\<close>: the result, the error text (empty on success) and the device.\<close>

definition dev_open :: "sdk \<Rightarrow> device \<Rightarrow> bool \<times> string \<times> device" where
  "dev_open s dev0 =
     (let dev = dev_close dev0; port = serial_port (dev_config dev);
          baud = sint (baudrate (dev_config dev)); c = length (calls dev);
          created = create_channel s port baud; dev = call (CreateChannel port baud created) dev in
      if \<not> created then (False, ''failed to create serial channel on '' @ port, dev)
      else let dev = dev\<lparr>channel_ptr := Some c\<rparr>; d = length (calls dev);
               dev = call (CreateDriver (create_driver s)) dev in
      if \<not> create_driver s then (False, ''failed to create lidar driver'', dev_close dev)
      else let dev = dev\<lparr>driver_ptr := Some d\<rparr>; dev = call (Connect d c) dev in
      if \<not> SL_IS_OK s (sdk_connect s)
      then (False, ''connect to '' @ port @ '' failed: '' @ describe (sdk_connect s), dev_close dev)
      else let dev = call (GetDeviceInfo d) dev in
      if \<not> SL_IS_OK s (sdk_device_info s)
      then (False, ''getDeviceInfo failed: '' @ describe (sdk_device_info s), dev_close dev)
      else let dev = call (SetMotorSpeed d None) dev in
      if \<not> SL_IS_OK s (sdk_motor_speed s) \<and> sdk_motor_speed s \<noteq> SL_RESULT_OPERATION_NOT_SUPPORT
      then (False, ''setMotorSpeed failed: '' @ describe (sdk_motor_speed s), dev_close dev)
      else let dev = call (StartScan d) dev in
      if \<not> SL_IS_OK s (sdk_start_scan s)
      then (False, ''startScan failed: '' @ describe (sdk_start_scan s), dev_close dev)
      else (True, [], dev))"

text \<open>The loop of \<open>grabScan\<close> over the measurements of a revolution.\<close>

fun collect_points :: "node list \<Rightarrow> scan_point list" where
  "collect_points [] = []"
| "collect_points (n # ns) =
     (let distance = toMillimetres (dist_mm_q2 n) in
      if distance \<le> f32_of_nat 0 then collect_points ns
      else \<lparr>angle_deg = toDegrees (angle_z_q14 n), distance_mm = distance, quality = node_quality n\<rparr>
             # collect_points ns)"

text \<open>\<open>grabScan(points, error)\<close>; the points are left alone when it fails.\<close>

definition grabScan ::
  "sdk \<Rightarrow> device \<Rightarrow> scan_point list \<Rightarrow> bool \<times> scan_point list \<times> string \<times> device" where
  "grabScan s dev pts =
     (case driver_ptr dev of
        None \<Rightarrow> (False, pts, ''grabScan called on a closed device'', dev)
      | Some d \<Rightarrow>
          (case sdk_grab s (max_nodes_per_scan (dev_config dev)) (scan_timeout_ms (dev_config dev)) of
             (result, nodes) \<Rightarrow>
               let dev = call (GrabScan d) dev in
               if \<not> SL_IS_OK s result
               then (False, pts, ''grabScanDataHq failed: '' @ describe result, dev)
               else (True, collect_points (sdk_ascend s nodes), [], call (AscendScan d) dev)))"

section \<open>The order of the calls\<close>

text \<open>
  What the SDK allows: the objects alive, each driver with the channel it was connected to. An
  object is named by the position of its creating call. A driver that is used or deleted is alive;
  a channel is deleted only when no driver alive is connected to it.
\<close>

record sdk_state =
  sdk_time :: nat
  channels :: "nat list"
  drivers :: "(nat \<times> nat option) list"

fun sdk_step :: "sdk_call \<Rightarrow> sdk_state \<Rightarrow> sdk_state option" where
  "sdk_step (CreateChannel _ _ ok) s =
     Some (s\<lparr>sdk_time := sdk_time s + 1, channels := (if ok then sdk_time s # channels s else channels s)\<rparr>)"
| "sdk_step (CreateDriver ok) s =
     Some (s\<lparr>sdk_time := sdk_time s + 1, drivers := (if ok then (sdk_time s, None) # drivers s else drivers s)\<rparr>)"
| "sdk_step (Connect d c) s =
     (if (d, None) \<in> set (drivers s) \<and> c \<in> set (channels s)
      then Some (s\<lparr>sdk_time := sdk_time s + 1, drivers := (d, Some c) # remove1 (d, None) (drivers s)\<rparr>)
      else None)"
| "sdk_step (DeleteDriver d) s =
     (if d \<in> fst ` set (drivers s)
      then Some (s\<lparr>sdk_time := sdk_time s + 1, drivers := filter (\<lambda>x. fst x \<noteq> d) (drivers s)\<rparr>)
      else None)"
| "sdk_step (DeleteChannel c) s =
     (if c \<in> set (channels s) \<and> Some c \<notin> snd ` set (drivers s)
      then Some (s\<lparr>sdk_time := sdk_time s + 1, channels := remove1 c (channels s)\<rparr>)
      else None)"
| "sdk_step (GetDeviceInfo d) s = (if d \<in> fst ` set (drivers s) then Some (s\<lparr>sdk_time := sdk_time s + 1\<rparr>) else None)"
| "sdk_step (SetMotorSpeed d _) s = (if d \<in> fst ` set (drivers s) then Some (s\<lparr>sdk_time := sdk_time s + 1\<rparr>) else None)"
| "sdk_step (StartScan d) s = (if d \<in> fst ` set (drivers s) then Some (s\<lparr>sdk_time := sdk_time s + 1\<rparr>) else None)"
| "sdk_step (GrabScan d) s = (if d \<in> fst ` set (drivers s) then Some (s\<lparr>sdk_time := sdk_time s + 1\<rparr>) else None)"
| "sdk_step (AscendScan d) s = (if d \<in> fst ` set (drivers s) then Some (s\<lparr>sdk_time := sdk_time s + 1\<rparr>) else None)"
| "sdk_step (StopScan d) s = (if d \<in> fst ` set (drivers s) then Some (s\<lparr>sdk_time := sdk_time s + 1\<rparr>) else None)"

definition sdk_start :: sdk_state where
  "sdk_start = \<lparr>sdk_time = 0, channels = [], drivers = []\<rparr>"

fun replay :: "sdk_call list \<Rightarrow> sdk_state \<Rightarrow> sdk_state option" where
  "replay [] s = Some s"
| "replay (c # cs) s = Option.bind (sdk_step c s) (replay cs)"

lemma replay_append: "replay (cs @ ds) s = Option.bind (replay cs s) (replay ds)"
  by (induction cs arbitrary: s) (auto split: Option.bind_splits)

definition log_state :: "device \<Rightarrow> sdk_state option" where
  "log_state dev = replay (calls dev) sdk_start"

lemma log_state_simps [simp]:
  "log_state (call c dev) = Option.bind (log_state dev) (sdk_step c)"
  "log_state (dev\<lparr>driver_ptr := d\<rparr>) = log_state dev" "log_state (dev\<lparr>channel_ptr := p\<rparr>) = log_state dev"
  by (auto simp: log_state_def call_def replay_append split: Option.bind_splits)

lemma call_simps [simp]:
  "calls (call c dev) = calls dev @ [c]" "driver_ptr (call c dev) = driver_ptr dev"
  "channel_ptr (call c dev) = channel_ptr dev" "dev_config (call c dev) = dev_config dev"
  by (simp_all add: call_def)

text \<open>The log of a device is legal, and the objects alive are the ones it points to.\<close>

definition alive :: "nat option \<Rightarrow> nat option \<Rightarrow> nat \<Rightarrow> bool \<Rightarrow> sdk_state" where
  "alive d c n connected =
     \<lparr>sdk_time = n, channels = (case c of None \<Rightarrow> [] | Some c \<Rightarrow> [c]),
      drivers = (case d of None \<Rightarrow> [] | Some d \<Rightarrow> [(d, if connected then c else None)])\<rparr>"

definition device_ok :: "device \<Rightarrow> bool" where
  "device_ok dev \<longleftrightarrow> (driver_ptr dev \<noteq> None \<longleftrightarrow> channel_ptr dev \<noteq> None) \<and>
     log_state dev = Some (alive (driver_ptr dev) (channel_ptr dev) (length (calls dev)) True)"

lemma device_ok_start: "device_ok (RpLidarDevice config)"
  by (simp add: device_ok_def RpLidarDevice_def log_state_def sdk_start_def alive_def)

lemma close_log:
  assumes "log_state dev = Some (alive (driver_ptr dev) (channel_ptr dev) (length (calls dev)) b)"
  shows "log_state (dev_close dev) = Some (alive None None (length (calls (dev_close dev))) True)"
    "driver_ptr (dev_close dev) = None" "channel_ptr (dev_close dev) = None"
    "dev_config (dev_close dev) = dev_config dev"
  using assms
  by (auto simp: dev_close_def Let_def alive_def split: option.splits)

lemma close_ok:
  "device_ok dev \<Longrightarrow> device_ok (dev_close dev) \<and> \<not> dev_isOpen (dev_close dev) \<and>
     dev_config (dev_close dev) = dev_config dev"
  using close_log [of dev True] by (simp add: device_ok_def dev_isOpen_def)

lemma open_ok:
  assumes "device_ok dev" "dev_open s dev = (ok, error, dev')"
  shows "device_ok dev'" "ok \<longleftrightarrow> dev_isOpen dev'" "dev_config dev' = dev_config dev"
    "ok \<longleftrightarrow> error = []"
proof -
  let ?c = "dev_close dev"
  have c: "log_state ?c = Some (alive None None (length (calls ?c)) True)" "driver_ptr ?c = None"
    "channel_ptr ?c = None" "dev_config ?c = dev_config dev"
    using close_log [of dev True] assms(1) by (simp_all add: device_ok_def)
  show "device_ok dev'" "ok \<longleftrightarrow> dev_isOpen dev'" "dev_config dev' = dev_config dev"
    "ok \<longleftrightarrow> error = []"
    using assms(2) c
    by (auto simp: dev_open_def Let_def device_ok_def dev_isOpen_def alive_def close_log
        split: if_splits)
qed

lemma grab_ok:
  assumes "device_ok dev" "grabScan s dev pts = (ok, pts', error, dev')"
  shows "device_ok dev'" "dev_isOpen dev' \<longleftrightarrow> dev_isOpen dev" "dev_config dev' = dev_config dev"
    "ok \<Longrightarrow> dev_isOpen dev"
  using assms
  by (auto simp: grabScan_def Let_def device_ok_def dev_isOpen_def alive_def split: option.splits prod.splits if_splits)

section \<open>The conversions are exact\<close>

text \<open>
  A bearing is a whole multiple of 45 times 2 to the power of 136 units, a distance below 2 to the
  power of 24 quarter millimetres one of 2 to the power of 147.
\<close>

lemma toDegrees_exact:
  "f32_is_finite (toDegrees q)" "f32_mag (toDegrees q) = unat q * 45 * 2 ^ 136"
  "\<not> f32_sign (toDegrees q)" "f32_val (toDegrees q) = int (unat q) * 45 * 2 ^ 136"
proof -
  let ?q = "f32_of_nat (unat q)" and ?m = "f32_mul (f32_of_nat (unat q)) (f32_of_nat 90)"
  have ub: "unat q < 65536" by (rule unat_u16)
  then have "unat q \<le> 2 ^ 24" by simp
  note q = f32_of_nat_exact [OF this]
  note n90 = f32_of_nat_exact [of 90, simplified] and n16384 = f32_of_nat_exact [of 16384, simplified]
  have lim: "a * 2 ^ 149 < f32_limit" if "a < 2 ^ 24" for a :: nat
  proof -
    have "a * 2 ^ 149 < 2 ^ 24 * 2 ^ (149::nat)" using that by (intro mult_strict_right_mono) simp_all
    also have "\<dots> \<le> f32_limit" by (simp add: f32_limit_def)
    finally show ?thesis .
  qed
  have "f32_mag ?q * f32_mag (f32_of_nat 90) = (unat q * 90 * 2 ^ 149) * f32_unit"
    unfolding q n90 f32_unit_def by simp
  from f32_mul_exact [OF q(1) n90(1) this representableI lim] ub
  have m: "f32_is_finite ?m" "f32_mag ?m = unat q * 90 * 2 ^ 149" "\<not> f32_sign ?m"
    using q n90 by simp_all
  have e: "f32_mag ?m * f32_unit = (unat q * 45 * 2 ^ 136) * f32_mag (f32_of_nat 16384)"
    unfolding m n16384 f32_unit_def by simp
  have "unat q * 45 * 2 ^ 136 \<le> unat q * 45 * 2 ^ 149" by simp
  also have "\<dots> < f32_limit" using ub by (intro lim) simp
  finally have l: "unat q * 45 * 2 ^ 136 < f32_limit" .
  have nz: "f32_mag (f32_of_nat 16384) \<noteq> 0" unfolding n16384 by simp
  have r: "representable (unat q * 45 * 2 ^ 136)" by (rule representableI) (use ub in simp)
  show "f32_is_finite (toDegrees q)" "f32_mag (toDegrees q) = unat q * 45 * 2 ^ 136" "\<not> f32_sign (toDegrees q)"
    unfolding toDegrees_def using f32_div_exact [OF m(1) n16384(1) nz e r l] m(3) n16384(3) by simp_all
  then show "f32_val (toDegrees q) = int (unat q) * 45 * 2 ^ 136" by (simp add: f32_val_def)
qed

lemma toMillimetres_exact:
  assumes "unat d \<le> 2 ^ 24"
  shows "f32_is_finite (toMillimetres d)" "f32_val (toMillimetres d) = int (unat d) * 2 ^ 147"
proof -
  note d = f32_of_nat_exact [OF assms] and n4 = f32_of_nat_exact [of 4, simplified]
  have e: "f32_mag (f32_of_nat (unat d)) * f32_unit = (unat d * 2 ^ 147) * f32_mag (f32_of_nat 4)"
    unfolding d n4 f32_unit_def by simp
  have "unat d * 2 ^ 147 \<le> 2 ^ 24 * 2 ^ 147" using assms by simp
  also have "\<dots> < f32_limit" by (simp add: f32_limit_def)
  finally have l: "unat d * 2 ^ 147 < f32_limit" .
  have nz: "f32_mag (f32_of_nat 4) \<noteq> 0" unfolding n4 by simp
  from f32_div_exact [OF d(1) n4(1) nz e representableI [OF assms] l]
  show "f32_is_finite (toMillimetres d)" "f32_val (toMillimetres d) = int (unat d) * 2 ^ 147"
    using d(3) n4(3) by (simp_all add: toMillimetres_def f32_val_def)
qed

text \<open>Beyond the exact range a distance is rounded, but stays above four thousand metres.\<close>

lemma toMillimetres_large:
  assumes "2 ^ 24 < unat d"
  shows "\<not> f32_is_nan (toMillimetres d)" "2 ^ 22 * int f32_unit \<le> f32_val (toMillimetres d)"
proof -
  let ?x = "f32_of_nat (unat d)"
  note n4 = f32_of_nat_exact [of 4, simplified]
  have one: "(0::nat) < 1" by simp
  have x: "?x = f32_round False (unat d * f32_unit) 1" by (simp add: f32_of_nat_def)
  have ub: "unat d \<le> 2 ^ 32" using unat_u32 [of d] by simp
  have r32: "representable (2 ^ 32 * f32_unit)" "representable (2 ^ 24 * f32_unit)" "representable (2 ^ 22 * f32_unit)"
    unfolding f32_unit_def using representableI [of 1 181] representableI [of 1 173] representableI [of 1 171]
    by (simp_all add: power_add [symmetric])
  have "round_units (unat d * f32_unit) 1 \<le> 2 ^ 32 * f32_unit"
    using ub by (intro round_units_le [OF one r32(1)]) simp
  then have small: "round_units (unat d * f32_unit) 1 < f32_limit"
    by (rule le_less_trans) (simp add: f32_unit_def f32_limit_def)
  have big: "2 ^ 24 * f32_unit \<le> round_units (unat d * f32_unit) 1"
    using assms by (intro round_units_ge [OF one r32(2)]) simp
  have mag: "f32_mag ?x = round_units (unat d * f32_unit) 1" "\<not> f32_sign ?x" "\<not> f32_is_nan ?x"
    unfolding x using f32_round_spec [OF one] small by simp_all
  have "\<not> f32_is_inf ?x"
    unfolding x f32_round_def using f32_encode_is_inf [OF round_units_representable [OF one]] small
    by (simp add: not_le)
  then have fin: "f32_is_finite ?x" using mag(3) by (simp add: f32_finite_iff)
  have nz: "f32_mag (f32_of_nat 4) \<noteq> 0" unfolding n4 by simp
  have t: "toMillimetres d = f32_round False (f32_mag ?x * f32_unit) (4 * f32_unit)"
    unfolding toMillimetres_def f32_div_finite [OF fin n4(1) nz] using mag(2) n4 by simp
  have pos: "0 < 4 * f32_unit" by simp
  have "2 ^ 22 * f32_unit \<le> round_units (f32_mag ?x * f32_unit) (4 * f32_unit)"
    using big unfolding mag(1) by (intro round_units_ge [OF pos r32(3)]) simp
  moreover have "2 ^ 22 * f32_unit < f32_limit" by (simp add: f32_unit_def f32_limit_def)
  ultimately have "2 ^ 22 * f32_unit \<le> f32_mag (toMillimetres d)"
    unfolding t f32_round_spec(2) [OF pos] by simp
  then have "int (2 ^ 22 * f32_unit) \<le> int (f32_mag (toMillimetres d))" by (simp only: of_nat_le_iff)
  then show "2 ^ 22 * int f32_unit \<le> f32_val (toMillimetres d)"
    unfolding f32_val_def t using f32_round_spec(1) [OF pos, of False] by simp
  show "\<not> f32_is_nan (toMillimetres d)" unfolding t by (rule f32_round_spec(3) [OF pos])
qed

lemma toMillimetres_number: "\<not> f32_is_nan (toMillimetres d)"
  using toMillimetres_exact(1) [of d] toMillimetres_large(1) [of d]
  by (cases "unat d \<le> 2 ^ 24") (auto simp: f32_finite_iff)

text \<open>Comparison with a whole number of millimetres, for every raw distance.\<close>

lemma toMillimetres_le:
  assumes "n \<le> 2 ^ 21"
  shows "toMillimetres d \<le> f32_of_nat n \<longleftrightarrow> unat d \<le> 4 * n" "f32_of_nat n < toMillimetres d \<longleftrightarrow> 4 * n < unat d"
proof -
  have "n \<le> 2 ^ 24" using assms by simp
  note n = f32_of_nat_exact [OF this]
  have nan: "\<not> f32_is_nan (f32_of_nat n)" using n(1) by (simp add: f32_finite_iff)
  have v: "f32_val (f32_of_nat n) = int (4 * n) * 2 ^ 147" unfolding n f32_unit_def by simp
  have "f32_val (toMillimetres d) \<le> f32_val (f32_of_nat n) \<longleftrightarrow> unat d \<le> 4 * n"
  proof (cases "unat d \<le> 2 ^ 24")
    case True
    show ?thesis unfolding toMillimetres_exact(2) [OF True] v mult_le_cancel_right by (simp del: of_nat_unat of_nat_mult add: of_nat_le_iff)
  next
    case False
    have "int (4 * n) * 2 ^ 147 < (2 ^ 22 * 4) * 2 ^ 147"
      using assms by (intro mult_strict_right_mono) simp_all
    also have "\<dots> = 2 ^ 22 * int f32_unit" by (simp add: f32_unit_def)
    also have "\<dots> \<le> f32_val (toMillimetres d)" using False by (intro toMillimetres_large(2)) simp
    finally show ?thesis using False assms v by simp
  qed
  then show "toMillimetres d \<le> f32_of_nat n \<longleftrightarrow> unat d \<le> 4 * n" "f32_of_nat n < toMillimetres d \<longleftrightarrow> 4 * n < unat d"
    using nan toMillimetres_number [of d] by (auto simp: f32_le_iff f32_less_iff)
qed

section \<open>The device as its client sees it\<close>

text \<open>
  What the acquisition thread relies on: an invariant of the device that every operation keeps,
  \<open>open\<close> reporting success exactly when the device is open afterwards, \<open>grab\<close> succeeding only on an
  open device and never opening or closing it, and \<open>close\<close> leaving it closed.
\<close>

text \<open>The uses a client can make of a device, over any environment.\<close>

inductive device_use ::
  "('s \<Rightarrow> 'd \<Rightarrow> bool \<times> string \<times> 'd) \<Rightarrow> ('s \<Rightarrow> 'd \<Rightarrow> 'p \<Rightarrow> bool \<times> 'p \<times> string \<times> 'd) \<Rightarrow>
   ('d \<Rightarrow> 'd) \<Rightarrow> 'd \<Rightarrow> 'd \<Rightarrow> bool"
  for open_dev grab close_dev where
  use_open: "open_dev s d = (ok, error, d') \<Longrightarrow> device_use open_dev grab close_dev d d'"
| use_grab: "grab s d pts = (ok, pts', error, d') \<Longrightarrow> device_use open_dev grab close_dev d d'"
| use_close: "device_use open_dev grab close_dev d (close_dev d)"

locale scan_device =
  fixes inv :: "'d \<Rightarrow> bool"
    and is_open :: "'d \<Rightarrow> bool"
    and open_dev :: "'s \<Rightarrow> 'd \<Rightarrow> bool \<times> string \<times> 'd"
    and grab :: "'s \<Rightarrow> 'd \<Rightarrow> 'p \<Rightarrow> bool \<times> 'p \<times> string \<times> 'd"
    and close_dev :: "'d \<Rightarrow> 'd"
    and fresh_dev :: "'d \<Rightarrow> bool"
  assumes fresh_inv: "fresh_dev d \<Longrightarrow> inv d"
    and open_inv: "inv d \<Longrightarrow> open_dev s d = (ok, error, d') \<Longrightarrow> inv d'"
    and open_result: "inv d \<Longrightarrow> open_dev s d = (ok, error, d') \<Longrightarrow> ok \<longleftrightarrow> is_open d'"
    and grab_inv: "inv d \<Longrightarrow> grab s d pts = (ok, pts', error, d') \<Longrightarrow> inv d'"
    and grab_open: "inv d \<Longrightarrow> grab s d pts = (ok, pts', error, d') \<Longrightarrow> is_open d' \<longleftrightarrow> is_open d"
    and grab_needs_open: "inv d \<Longrightarrow> grab s d pts = (True, pts', error, d') \<Longrightarrow> is_open d"
    and close_inv: "inv d \<Longrightarrow> inv (close_dev d)"
    and close_closed: "inv d \<Longrightarrow> \<not> is_open (close_dev d)"
begin

lemma use_inv: "device_use open_dev grab close_dev d d' \<Longrightarrow> inv d \<Longrightarrow> inv d'"
  by (cases rule: device_use.cases) (auto intro: open_inv grab_inv close_inv)

lemma failed_open_closed: "inv d \<Longrightarrow> open_dev s d = (False, error, d') \<Longrightarrow> \<not> is_open d'"
  using open_result by blast

lemma close_after_open: "inv d \<Longrightarrow> open_dev s d = (ok, error, d') \<Longrightarrow> inv (close_dev d') \<and> \<not> is_open (close_dev d')"
  using open_inv close_inv close_closed by blast

end

sublocale scan_device \<subseteq> life: inductive_invariant fresh_dev "device_use open_dev grab close_dev" inv
  by unfold_locales (rule fresh_inv, assumption, rule use_inv)

definition new_device :: "device \<Rightarrow> bool" where
  "new_device d \<longleftrightarrow> d = RpLidarDevice (dev_config d)"

interpretation rp: scan_device device_ok dev_isOpen dev_open grabScan dev_close new_device
proof unfold_locales
  show "device_ok d" if "new_device d" for d
    using that device_ok_start [of "dev_config d"] by (simp add: new_device_def)
  show "device_ok d'" if "device_ok d" "dev_open s d = (ok, error, d')" for s d ok error d'
    by (rule open_ok(1) [OF that])
  show "ok \<longleftrightarrow> dev_isOpen d'" if "device_ok d" "dev_open s d = (ok, error, d')" for s d ok error d'
    by (rule open_ok(2) [OF that])
  show "device_ok d'" if "device_ok d" "grabScan s d pts = (ok, pts', error, d')" for s d pts ok pts' error d'
    by (rule grab_ok(1) [OF that])
  show "dev_isOpen d' \<longleftrightarrow> dev_isOpen d" if "device_ok d" "grabScan s d pts = (ok, pts', error, d')"
    for s d pts ok pts' error d'
    by (rule grab_ok(2) [OF that])
  show "dev_isOpen d" if "device_ok d" "grabScan s d pts = (True, pts', error, d')" for s d pts pts' error d'
    by (rule grab_ok(4) [OF that TrueI])
qed (simp_all add: close_ok)

section \<open>Properties\<close>

text \<open>
  The fixed-point readings of the sensor are converted exactly. The bearing of every 16-bit
  reading \<open>q\<close> is \<open>q * 90 / 16384\<close> degrees without rounding; so is a distance of up to
  2 to the power of 24 quarter millimetres; and no reading becomes NaN, the comparison with any whole number of
  millimetres up to 2 to the power of 21 agreeing with that of the raw reading.
\<close>
lemma conversions_exact:
  "f32_is_finite (toDegrees q) \<and> f32_val (toDegrees q) * 16384 = int (unat q) * 90 * int f32_unit \<and>
   \<not> f32_is_nan (toMillimetres d) \<and>
   (unat d \<le> 2 ^ 24 \<longrightarrow> f32_val (toMillimetres d) * 4 = int (unat d) * int f32_unit) \<and>
   (n \<le> 2 ^ 21 \<longrightarrow> (toMillimetres d \<le> f32_of_nat n \<longleftrightarrow> unat d \<le> 4 * n))"
  using toDegrees_exact(1,4) [of q] toMillimetres_number [of d] toMillimetres_exact(2) [of d]
    toMillimetres_le(1) [of n d] by (simp add: f32_unit_def)

text \<open>The largest bearing, a distance in the exact range, and the brake threshold.\<close>

text \<open>The points \<open>grabScan\<close> makes of the measurements.\<close>

definition to_point :: "node \<Rightarrow> scan_point" where
  "to_point n = \<lparr>angle_deg = toDegrees (angle_z_q14 n), distance_mm = toMillimetres (dist_mm_q2 n),
                 quality = node_quality n\<rparr>"

lemma no_return: "toMillimetres d \<le> f32_of_nat 0 \<longleftrightarrow> d = 0"
  using toMillimetres_le(1) [of 0 d] by (simp add: unat_eq_zero)

lemma collect_points_eq: "collect_points ns = map to_point (filter (\<lambda>n. dist_mm_q2 n \<noteq> 0) ns)"
  by (induction ns) (simp_all add: Let_def no_return to_point_def)

lemma grabScan_result:
  assumes "grabScan s dev pts = (ok, pts', error, dev')"
  shows "(ok \<longleftrightarrow> dev_isOpen dev \<and>
       SL_IS_OK s (fst (sdk_grab s (max_nodes_per_scan (dev_config dev)) (scan_timeout_ms (dev_config dev))))) \<and>
     (if ok then error = [] \<and>
       pts' = map to_point (filter (\<lambda>n. dist_mm_q2 n \<noteq> 0) (sdk_ascend s
         (snd (sdk_grab s (max_nodes_per_scan (dev_config dev)) (scan_timeout_ms (dev_config dev)))))) \<and>
       (\<forall>p \<in> set pts'. f32_of_nat 0 < distance_mm p)
      else pts' = pts \<and> error \<noteq> [])"
proof (cases "driver_ptr dev")
  case None
  then show ?thesis using assms by (auto simp: grabScan_def dev_isOpen_def)
next
  case (Some d)
  obtain result nodes where g: "sdk_grab s (max_nodes_per_scan (dev_config dev)) (scan_timeout_ms (dev_config dev)) =
      (result, nodes)" by fastforce
  have pos: "f32_of_nat 0 < toMillimetres d \<longleftrightarrow> d \<noteq> 0" for d
    using toMillimetres_le(2) [of 0 d] by (simp add: unat_gt_0)
  show ?thesis
    using assms Some by (auto simp: grabScan_def dev_isOpen_def collect_points_eq to_point_def g pos Let_def split: if_splits)
qed

text \<open>
  \<open>grabScan\<close> delivers every return of the revolution and nothing else: on success the points are
  the measurements with a non-zero distance, converted, in the order the SDK sorted them, all of
  them at a positive distance; on failure the caller's points are untouched and a reason is given.
\<close>
lemma grabScan_outcome:
  assumes "grabScan s dev pts = (ok, pts', error, dev')"
  shows "(ok \<longleftrightarrow> dev_isOpen dev \<and>
       SL_IS_OK s (fst (sdk_grab s (max_nodes_per_scan (dev_config dev)) (scan_timeout_ms (dev_config dev))))) \<and>
     (if ok then error = [] \<and>
       pts' = map to_point (filter (\<lambda>n. dist_mm_q2 n \<noteq> 0) (sdk_ascend s
         (snd (sdk_grab s (max_nodes_per_scan (dev_config dev)) (scan_timeout_ms (dev_config dev)))))) \<and>
       (\<forall>p \<in> set pts'. f32_of_nat 0 < distance_mm p)
      else pts' = pts \<and> error \<noteq> [])"
  by (rule grabScan_result [OF assms])

text \<open>An SDK on which every call succeeds, and a revolution of two returns and one miss.\<close>

definition working_sdk :: "node list \<Rightarrow> sdk" where
  "working_sdk nodes =
     \<lparr>SL_IS_OK = (\<lambda>r. r = SL_RESULT_OK), create_channel = (\<lambda>_ _. True), create_driver = True,
      sdk_connect = SL_RESULT_OK, sdk_device_info = SL_RESULT_OK, sdk_motor_speed = SL_RESULT_OPERATION_NOT_SUPPORT,
      sdk_start_scan = SL_RESULT_OK, sdk_grab = (\<lambda>_ _. (SL_RESULT_OK, nodes)), sdk_ascend = (\<lambda>ns. ns)\<rparr>"

definition three_nodes :: "node list" where
  "three_nodes = [\<lparr>angle_z_q14 = 100, dist_mm_q2 = 4000, node_quality = 47\<rparr>,
     \<lparr>angle_z_q14 = 200, dist_mm_q2 = 0, node_quality = 0\<rparr>,
     \<lparr>angle_z_q14 = 300, dist_mm_q2 = 5000, node_quality = 30\<rparr>]"

definition opened_device :: "node list \<Rightarrow> device" where
  "opened_device nodes = snd (snd (dev_open (working_sdk nodes) (RpLidarDevice default_lidar_config)))"

text \<open>
  C40: The SDK objects are used in order and never leak. Whatever the SDK answers and in whatever
  order the device is opened, read and closed, no driver or channel is used or deleted when it is
  not alive, no channel is deleted under a connected driver, the objects alive are exactly those the
  device points to, and a \<open>close\<close> at any point leaves none.
\<close>
theorem sdk_lifecycle:
  assumes "new_device d" "(device_use dev_open grabScan dev_close)\<^sup>*\<^sup>* d d'"
  shows "(\<exists>s. replay (calls d') sdk_start = Some s \<and>
            channels s = (case channel_ptr d' of None \<Rightarrow> [] | Some c \<Rightarrow> [c]) \<and>
            map fst (drivers s) = (case driver_ptr d' of None \<Rightarrow> [] | Some k \<Rightarrow> [k])) \<and>
     (\<exists>s. replay (calls (dev_close d')) sdk_start = Some s \<and> channels s = [] \<and> drivers s = [])"
proof -
  have ok: "device_ok d'" by (rule rp.life.reachable_inv [OF assms])
  have "device_ok (dev_close d')" "\<not> dev_isOpen (dev_close d')" using close_ok [OF ok] by simp_all
  with ok show ?thesis
    by (auto simp: device_ok_def dev_isOpen_def log_state_def alive_def split: option.splits)
qed

theorem sdk_lifecycle_witness:
  "\<exists>s. replay (calls (dev_close (opened_device three_nodes))) sdk_start = Some s \<and> channels s = [] \<and> drivers s = []"
proof -
  let ?d = "RpLidarDevice default_lidar_config"
  obtain ok error d' where o: "dev_open (working_sdk three_nodes) ?d = (ok, error, d')" by (metis prod_cases3)
  have "new_device ?d" by (simp add: new_device_def RpLidarDevice_def)
  moreover have "(device_use dev_open grabScan dev_close)\<^sup>*\<^sup>* ?d d'"
    by (rule r_into_rtranclp, rule use_open, rule o)
  moreover have "d' = opened_device three_nodes" using o by (simp add: opened_device_def)
  ultimately show ?thesis using sdk_lifecycle by blast
qed

end
