(* ===== verification/SensorGeometry.thy ===== *)
theory SensorGeometry
  imports Perception RpLidarDevice
begin

text \<open>
  From the raw fixed-point readings of the sensor to the sector of the detector. With the default
  configuration every binary32 operation on the way, normalisation, subtraction, division by the
  sector width, is exact, so the sector of a measurement is an integer function of its 16-bit
  bearing, and the brake decision can be stated on the raw measurements.
\<close>

text \<open>The bearing in Q14, normalised to the half turn on either side of straight ahead.\<close>

definition raw_bearing :: "node \<Rightarrow> int" where
  "raw_bearing n =
     (if unat (angle_z_q14 n) \<le> 32768 then int (unat (angle_z_q14 n)) else int (unat (angle_z_q14 n)) - 65536)"

text \<open>
  The sector of a measurement: within 45 degrees (8192) of straight ahead, a return at no more than
  two metres (8000 quarter millimetres), of quality 15 at least.
\<close>

definition raw_sector :: "node \<Rightarrow> nat option" where
  "raw_sector n =
     (if dist_mm_q2 n = 0 \<or> 8000 < dist_mm_q2 n \<or> node_quality n < 15 \<or>
         raw_bearing n < - 8192 \<or> 8192 < raw_bearing n
      then None else Some (min 4 (nat (5 * (raw_bearing n + 8192) div 16384))))"

lemma small_representable: "m < 2 ^ 24 \<Longrightarrow> representable (m * 2 ^ e)" "m < 2 ^ 24 \<Longrightarrow> e \<le> 200 \<Longrightarrow> m * 2 ^ e < f32_limit"
proof -
  assume m: "m < 2 ^ 24"
  then show "representable (m * 2 ^ e)" by (intro representableI) simp
  assume "e \<le> 200"
  have "m * 2 ^ e < 2 ^ 24 * 2 ^ e" using m by simp
  also have "\<dots> \<le> 2 ^ 24 * 2 ^ (200::nat)" using \<open>e \<le> 200\<close> by (intro mult_left_mono power_increasing) simp_all
  also have "\<dots> \<le> f32_limit" by (simp add: f32_limit_def)
  finally show "m * 2 ^ e < f32_limit" .
qed

lemma f32_180: "f32_is_finite (f32_of_nat 180)" "f32_val (f32_of_nat 180) = 1474560 * 2 ^ 136"
  "f32_is_finite (f32_of_nat 360)" "f32_val (f32_of_nat 360) = 2949120 * 2 ^ 136"
  "f32_is_finite (f32_of_nat 45)" "f32_val (f32_of_nat 45) = 368640 * 2 ^ 136"
  "f32_is_finite (f32_of_nat 18)" "f32_mag (f32_of_nat 18) = 147456 * 2 ^ 136"
  using f32_of_nat_exact [of 180] f32_of_nat_exact [of 360] f32_of_nat_exact [of 45] f32_of_nat_exact [of 18]
  by (simp_all add: f32_unit_def)

lemma normalize_exact:
  "f32_is_finite (normalize_angle (toDegrees (angle_z_q14 n)))"
  "f32_val (normalize_angle (toDegrees (angle_z_q14 n))) = raw_bearing n * 45 * 2 ^ 136"
proof -
  let ?q = "unat (angle_z_q14 n)" and ?a = "toDegrees (angle_z_q14 n)"
  note t = toDegrees_exact(1,4) [of "angle_z_q14 n"]
  have ub: "?q < 65536" by (rule unat_u16)
  have "f32_of_nat 180 < ?a \<longleftrightarrow> f32_val (f32_of_nat 180) < f32_val ?a"
    using t f32_180(1) by (simp add: f32_less_iff f32_finite_iff)
  also have "\<dots> \<longleftrightarrow> 32768 < ?q" unfolding t f32_180 by (simp del: of_nat_unat)
  finally have gt: "f32_of_nat 180 < ?a \<longleftrightarrow> 32768 < ?q" .
  let ?d = "(int ?q - 65536) * 45 * 2 ^ 136"
  have d: "f32_val ?a - f32_val (f32_of_nat 360) = ?d"
    unfolding t f32_180 by (simp del: of_nat_unat add: algebra_simps)
  have nd: "nat \<bar>?d\<bar> = (65536 - ?q) * 45 * 2 ^ 136"
    using ub by (simp del: of_nat_unat add: abs_mult nat_mult_distrib nat_diff_distrib)
  have "(65536 - ?q) * 45 < 2 ^ 24" using ub by simp
  from f32_sub_exact [OF t(1) f32_180(3) d, unfolded nd, OF small_representable [OF this]]
  have s: "f32_is_finite (f32_sub ?a (f32_of_nat 360))" "f32_val (f32_sub ?a (f32_of_nat 360)) = ?d"
    by simp_all
  show "f32_is_finite (normalize_angle ?a)" "f32_val (normalize_angle ?a) = raw_bearing n * 45 * 2 ^ 136"
    using s t gt by (simp_all add: normalize_angle_def raw_bearing_def del: of_nat_unat)
qed

lemma default_bounds:
  "min_angle_deg default_perception_config = f32_neg (f32_of_nat 45)"
  "max_angle_deg default_perception_config = f32_of_nat 45"
  "f32_is_finite (f32_neg (f32_of_nat 45))" "f32_val (f32_neg (f32_of_nat 45)) = - 368640 * 2 ^ 136"
  using f32_180 by (simp_all add: default_perception_config_def f32_neg_read)

lemma default_width: "sector_width default_perception_config = f32_of_nat 18"
  by (simp add: sector_width_def fov_span_def default_perception_config_def f32_compute_defs)

lemma raw_in_view:
  "in_view default_perception_config (to_point n) \<longleftrightarrow>
     dist_mm_q2 n \<noteq> 0 \<and> - 8192 \<le> raw_bearing n \<and> raw_bearing n \<le> 8192"
proof -
  let ?a = "normalize_angle (toDegrees (angle_z_q14 n))"
  note a = normalize_exact [of n]
  have "?a < f32_neg (f32_of_nat 45) \<longleftrightarrow> raw_bearing n * 45 * 2 ^ 136 < - 368640 * 2 ^ 136"
    using a default_bounds(3,4) by (simp add: f32_less_iff f32_finite_iff)
  moreover have "f32_of_nat 45 < ?a \<longleftrightarrow> 368640 * 2 ^ 136 < raw_bearing n * 45 * 2 ^ 136"
    using a f32_180(5,6) by (simp add: f32_less_iff f32_finite_iff)
  ultimately show ?thesis
    by (simp add: in_view_def default_bounds(1,2) to_point_def no_return) linarith
qed

lemma raw_accepted:
  "accepted default_perception_config (to_point n) \<longleftrightarrow>
     dist_mm_q2 n \<noteq> 0 \<and> - 8192 \<le> raw_bearing n \<and> raw_bearing n \<le> 8192 \<and> \<not> 8000 < dist_mm_q2 n \<and>
     \<not> node_quality n < 15"
proof -
  have "f32_of_nat 2000 < toMillimetres (dist_mm_q2 n) \<longleftrightarrow> 8000 < dist_mm_q2 n"
    using toMillimetres_le(2) [of 2000 "dist_mm_q2 n"] by (simp add: word_less_nat_alt)
  then show ?thesis
    by (auto simp: accepted_def in_range_def raw_in_view) (auto simp: default_perception_config_def to_point_def)
qed

lemma raw_quotient:
  assumes "- 8192 \<le> raw_bearing n" "raw_bearing n \<le> 8192"
  shows "sector_quotient default_perception_config (to_point n) = Some (5 * (raw_bearing n + 8192) div 16384)"
proof -
  let ?a = "normalize_angle (toDegrees (angle_z_q14 n))" and ?m = "nat (raw_bearing n + 8192)"
  let ?r = "f32_sub ?a (f32_neg (f32_of_nat 45))"
  have m: "int ?m = raw_bearing n + 8192" "?m \<le> 16384" using assms by simp_all
  have d: "f32_val ?a - f32_val (f32_neg (f32_of_nat 45)) = int (?m * 45 * 2 ^ 136)"
    using m(1) by (simp add: normalize_exact default_bounds(4))
  have nd: "nat \<bar>int (?m * 45 * 2 ^ 136)\<bar> = ?m * 45 * 2 ^ 136" by (simp only: abs_of_nat nat_int)
  have "?m * 45 < 2 ^ 24" using m(2) by simp
  from f32_sub_exact [OF normalize_exact(1) default_bounds(3) d, unfolded nd, OF small_representable [OF this]]
  have r: "f32_is_finite ?r" "f32_val ?r = int (?m * 45 * 2 ^ 136)" by simp_all
  have mag: "f32_mag ?r = ?m * 45 * 2 ^ 136" unfolding f32_abs_val [symmetric] r(2) by (rule nd)
  let ?q = "f32_div ?r (f32_of_nat 18)"
  have e: "f32_mag ?r * f32_unit = (5 * ?m * 2 ^ 135) * f32_mag (f32_of_nat 18)"
    unfolding mag f32_180 by (simp add: f32_unit_def)
  have nz: "f32_mag (f32_of_nat 18) \<noteq> 0" unfolding f32_180 by simp
  have "5 * ?m < 2 ^ 24" using m(2) by simp
  from f32_div_exact [OF r(1) f32_180(7) nz e small_representable [OF this]]
  have q: "f32_is_finite ?q" "f32_mag ?q = 5 * ?m * 2 ^ 135" "f32_sign ?q = f32_sign ?r"
    using f32_of_nat_exact(3) [of 18] by simp_all
  have dv: "f32_mag ?q div f32_unit = 5 * ?m div 16384"
  proof -
    have "f32_unit = 16384 * 2 ^ 135" by (simp add: f32_unit_def)
    moreover have "(5 * ?m * 2 ^ 135) div (16384 * 2 ^ 135) = 5 * ?m div (16384 :: nat)"
      by (rule div_mult_mult2) simp
    ultimately show ?thesis unfolding q by simp
  qed
  have "f32_sign ?r \<Longrightarrow> f32_mag ?r = 0"
    using r(2) by (simp add: f32_val_def mag split: if_splits)
  then have sign: "f32_sign ?q \<Longrightarrow> ?m = 0" unfolding q mag by simp
  have "5 * ?m div 16384 < 2 ^ 31" using m(2) by simp
  from f32_to_int_finite [OF q(1), unfolded dv, OF this] sign
  have "f32_to_int ?q = Some (int (5 * ?m div 16384))" by auto
  then show ?thesis
    using m(1) by (simp add: sector_quotient_def default_width default_bounds(1) to_point_def zdiv_int)
qed

lemma raw_in_sector: "in_sector default_perception_config k (to_point n) \<longleftrightarrow> raw_sector n = Some k"
proof (cases "accepted default_perception_config (to_point n)")
  case True
  then have b: "- 8192 \<le> raw_bearing n" "raw_bearing n \<le> 8192"
    by (simp_all add: raw_accepted)
  then have "0 \<le> 5 * (raw_bearing n + 8192) div 16384" by (intro pos_imp_zdiv_nonneg_iff [THEN iffD2]) simp_all
  then have "clamp_sector (5 * (raw_bearing n + 8192) div 16384) = min 4 (nat (5 * (raw_bearing n + 8192) div 16384))"
    by (simp add: clamp_sector_def min_def) linarith
  with True b raw_quotient [OF b(1,2)] show ?thesis
    by (auto simp: in_sector_def raw_sector_def raw_accepted)
next
  case False
  then show ?thesis by (auto simp: in_sector_def raw_sector_def raw_accepted)
qed

section \<open>Properties\<close>

text \<open>
  C15: The binary32 pipeline from a raw measurement to its sector, conversion to degrees,
  normalisation, subtraction, division by the sector width and truncation, computes for the default
  configuration the integer function \<open>raw_sector\<close> of the 16-bit bearing, the 32-bit distance and the
  quality, for every measurement the sensor can produce.
\<close>
theorem sensor_sector_exact:
  "in_sector default_perception_config k (to_point n) \<longleftrightarrow> raw_sector n = Some k"
  by (rule raw_in_sector)

lemma raw_hits:
  "length (filter (in_sector default_perception_config k) (collect_points ns)) =
     length (filter (\<lambda>n. raw_sector n = Some k) ns)"
proof -
  have "raw_sector n = Some k \<Longrightarrow> dist_mm_q2 n \<noteq> 0" for n by (auto simp: raw_sector_def)
  then have "filter (\<lambda>n. raw_sector n = Some k) (filter (\<lambda>n. dist_mm_q2 n \<noteq> 0) ns) = filter (\<lambda>n. raw_sector n = Some k) ns"
    by (simp add: filter_filter) (metis (lifting) filter_cong)
  then show ?thesis
    by (simp add: collect_points_eq filter_map comp_def raw_in_sector)
qed

lemma raw_process_defined:
  assumes "points f = collect_points ns"
  shows "\<exists>r. process default_perception_config f = Some r"
proof -
  have "process_points default_perception_config (points f) st \<noteq> None" for st
  proof (rule process_points_defined)
    fix p assume "p \<in> set (points f)" "accepted default_perception_config p"
    then obtain n where "p = to_point n" "accepted default_perception_config (to_point n)"
      using assms by (auto simp: collect_points_eq)
    then show "sector_quotient default_perception_config p \<noteq> None" by (simp add: raw_accepted raw_quotient)
  qed
  then show ?thesis by (auto simp: process_def Let_def)
qed

lemma raw_detected:
  assumes "points f = collect_points ns" "length ns < 2 ^ 32"
  shows "\<exists>r. process default_perception_config f = Some r \<and>
    (\<forall>k < 5. obstacle_detected (sectors r ! k) \<longleftrightarrow> 3 \<le> length (filter (\<lambda>n. raw_sector n = Some k) ns))"
proof -
  obtain r where r: "process default_perception_config f = Some r" using raw_process_defined [OF assms(1)] ..
  have "length (points f) \<le> length ns" by (simp add: assms(1) collect_points_eq)
  then have small: "length (points f) < 2 ^ 32" using assms(2) by simp
  have three: "unat (min_hits_per_sector default_perception_config) = 3"
    by (simp add: default_perception_config_def)
  have "obstacle_detected (sectors r ! k) \<longleftrightarrow> 3 \<le> length (filter (\<lambda>n. raw_sector n = Some k) ns)" if "k < 5" for k
    using detected_iff [OF r small that] by (auto simp: three hits_def assms(1) raw_hits)
  with r show ?thesis by blast
qed

end
