(* ===== verification/Lidar.thy ===== *)
theory Lidar
  imports RpLidarDevice "HOL-Library.Signed_Division"
begin

text \<open>
  The acquisition thread, \<open>lidar/Lidar.cpp\<close>: one iteration of \<open>Impl::run\<close> as a function of what the
  environment answers during it, the loop over a script of such iterations, and \<open>start\<close> and \<open>stop\<close>.
  The frame consumer is a parameter, a function on a state of its own that also says whether it
  threw. The back-off between reconnections only waits; the theory \<open>BackOff\<close> looks into it.
\<close>

section \<open>State\<close>

record lidar_stats =
  frames_delivered :: u64
  read_errors :: u64
  connects :: u64
  empty_frames :: u64
  last_frame_us :: u64

definition zero_stats :: lidar_stats where
  "zero_stats = \<lparr>frames_delivered = 0, read_errors = 0, connects = 0, empty_frames = 0, last_frame_us = 0\<rparr>"

record lidar =
  l_config :: lidar_config
  l_device :: device
  l_callback :: bool
  l_worker :: worker
  l_stop_requested :: bool
  l_running :: bool
  l_stats :: lidar_stats
  l_last_error :: string
  l_frame :: scan_frame
  l_next_sequence :: u32

text \<open>\<open>Lidar(config)\<close>.\<close>

definition Lidar :: "lidar_config \<Rightarrow> lidar" where
  "Lidar config =
     \<lparr>l_config = config, l_device = RpLidarDevice config, l_callback = False, l_worker = Detached,
      l_stop_requested = False, l_running = False, l_stats = zero_stats, l_last_error = [],
      l_frame = default_frame, l_next_sequence = 0\<rparr>"

definition kMaxConsecutiveGrabFailures :: u32 where
  "kMaxConsecutiveGrabFailures = 5"

section \<open>Code\<close>

definition lidar_setError :: "string \<Rightarrow> lidar \<Rightarrow> lidar" where
  "lidar_setError message l = (if message = [] then l else l\<lparr>l_last_error := message\<rparr>)"

definition count_read_error :: "lidar \<Rightarrow> lidar" where
  "count_read_error l = l\<lparr>l_stats := (l_stats l)\<lparr>read_errors := read_errors (l_stats l) + 1\<rparr>\<rparr>"

definition openDevice :: "sdk \<Rightarrow> lidar \<Rightarrow> bool \<times> lidar" where
  "openDevice s l = (case dev_open s (l_device l) of (opened, error, dev) \<Rightarrow>
     let l = l\<lparr>l_device := dev\<rparr> in
     if \<not> opened then (False, lidar_setError error l)
     else (True, l\<lparr>l_stats := (l_stats l)\<lparr>connects := connects (l_stats l) + 1\<rparr>, l_last_error := []\<rparr>))"

text \<open>\<open>deliverFrame\<close>: stamp, call the consumer, count.\<close>

definition deliverFrame ::
  "(scan_frame \<Rightarrow> 'c \<Rightarrow> bool \<times> 'c) \<Rightarrow> u64 \<Rightarrow> lidar \<Rightarrow> 'c \<Rightarrow> lidar \<times> 'c" where
  "deliverFrame callback now l c =
     (let l = l\<lparr>l_frame := (l_frame l)\<lparr>sequence := l_next_sequence l\<rparr>, l_next_sequence := l_next_sequence l + 1\<rparr>;
          l = l\<lparr>l_frame := (l_frame l)\<lparr>timestamp_us := now\<rparr>\<rparr>
      in case callback (l_frame l) c of (threw, c) \<Rightarrow>
        let l = (if threw then count_read_error l else l)
        in (l\<lparr>l_stats := (l_stats l)\<lparr>frames_delivered := frames_delivered (l_stats l) + 1,
                                     last_frame_us := timestamp_us (l_frame l)\<rparr>\<rparr>, c))"

definition acquireOnce ::
  "(scan_frame \<Rightarrow> 'c \<Rightarrow> bool \<times> 'c) \<Rightarrow> sdk \<Rightarrow> u64 \<Rightarrow> lidar \<Rightarrow> 'c \<Rightarrow> bool \<times> lidar \<times> 'c" where
  "acquireOnce callback s now l c =
     (if \<not> dev_isOpen (l_device l) then (False, l, c)
      else case grabScan s (l_device l) (points (l_frame l)) of (grabbed, pts, error, dev) \<Rightarrow>
        let l = l\<lparr>l_device := dev, l_frame := (l_frame l)\<lparr>points := pts\<rparr>\<rparr> in
        if \<not> grabbed then (False, lidar_setError error l, c)
        else if frame_empty (l_frame l)
        then (True, l\<lparr>l_stats := (l_stats l)\<lparr>empty_frames := empty_frames (l_stats l) + 1\<rparr>\<rparr>, c)
        else (True, deliverFrame callback now l c))"

text \<open>
  What the environment does during one iteration: the SDK's answers to the reading and to a
  reopening, the clock, and whether a stop request arrives while the iteration runs.
\<close>

record iteration =
  it_grab :: sdk
  it_now :: u64
  it_stop :: bool
  it_reopen :: sdk

text \<open>
  The body of the \<open>while\<close> loop, after its test: whether the loop goes on, the failure counter, the
  state and the consumer.
\<close>

definition lidar_run_body ::
  "(scan_frame \<Rightarrow> 'c \<Rightarrow> bool \<times> 'c) \<Rightarrow> iteration \<Rightarrow> u32 \<Rightarrow> lidar \<Rightarrow> 'c \<Rightarrow> bool \<times> u32 \<times> lidar \<times> 'c" where
  "lidar_run_body callback it failures l c =
     (case acquireOnce callback (it_grab it) (it_now it) l c of (acquired, l, c) \<Rightarrow>
        let l = l\<lparr>l_stop_requested := l_stop_requested l \<or> it_stop it\<rparr> in
        if acquired then (True, 0, l, c)
        else let l = count_read_error l; failures = failures + 1 in
        if failures < kMaxConsecutiveGrabFailures then (True, failures, l, c)
        else let l = l\<lparr>l_device := dev_close (l_device l)\<rparr> in
        if \<not> auto_reconnect (l_config l) \<or> l_stop_requested l then (False, 0, l, c)
        else (case openDevice (it_reopen it) l of (_, l) \<Rightarrow> (True, 0, l, c)))"

text \<open>The statements after the loop.\<close>

definition lidar_run_exit :: "lidar \<Rightarrow> lidar" where
  "lidar_run_exit l = l\<lparr>l_device := dev_close (l_device l), l_running := False, l_worker := Returned\<rparr>"

text \<open>
  \<open>run\<close> over a script of iterations, from a value of the failure counter: \<open>Inl\<close> when the thread
  returned, \<open>Inr\<close> the state it is in when the script ends first.
\<close>

fun lidar_run ::
  "(scan_frame \<Rightarrow> 'c \<Rightarrow> bool \<times> 'c) \<Rightarrow> iteration list \<Rightarrow> u32 \<Rightarrow> lidar \<Rightarrow> 'c
   \<Rightarrow> (lidar \<times> 'c) + (u32 \<times> lidar \<times> 'c)" where
  "lidar_run callback [] failures l c =
     (if l_stop_requested l then Inl (lidar_run_exit l, c) else Inr (failures, l, c))"
| "lidar_run callback (it # script) failures l c =
     (if l_stop_requested l then Inl (lidar_run_exit l, c)
      else case lidar_run_body callback it failures l c of (go_on, failures, l, c) \<Rightarrow>
             if go_on then lidar_run callback script failures l c else Inl (lidar_run_exit l, c))"

text \<open>
  \<open>start(callback)\<close>: \<open>None\<close> is \<open>std::terminate\<close>, which assigning a thread to a joinable one calls.
  \<open>spawn_error\<close> is the text of the exception when the thread cannot be created.
\<close>

definition lidar_start :: "sdk \<Rightarrow> string option \<Rightarrow> bool \<Rightarrow> lidar \<Rightarrow> (bool \<times> lidar) option" where
  "lidar_start s spawn_error callback l =
     (if \<not> callback then Some (False, lidar_setError ''start() requires a non-empty callback'' l)
      else if l_running l then Some (False, lidar_setError ''start() called while already running'' l)
      else let l = l\<lparr>l_stop_requested := False, l_callback := True\<rparr> in
        case openDevice s l of (opened, l) \<Rightarrow>
        if \<not> opened then Some (False, l\<lparr>l_callback := False\<rparr>)
        else let l = l\<lparr>l_running := True\<rparr> in
        case spawn_error of Some what \<Rightarrow>
          Some (False, lidar_setError (''failed to spawn acquisition thread: '' @ what)
            (l\<lparr>l_running := False, l_device := dev_close (l_device l), l_callback := False\<rparr>))
        | None \<Rightarrow> if joinable (l_worker l) then None
        else Some (True, l\<lparr>l_worker := Running\<rparr>))"

text \<open>\<open>stop()\<close>: the request, and, once a joinable thread has returned, the rest.\<close>

definition stop_request :: "lidar \<Rightarrow> lidar" where
  "stop_request l = l\<lparr>l_stop_requested := True\<rparr>"

definition stop_finish :: "lidar \<Rightarrow> lidar" where
  "stop_finish l =
     l\<lparr>l_worker := Detached, l_device := dev_close (l_device l), l_running := False, l_callback := False\<rparr>"

text \<open>The destructor is \<open>stop\<close>, here of a lidar whose thread, if it has one, has returned; that of the device follows.\<close>

definition lidar_destroy :: "lidar \<Rightarrow> lidar" where
  "lidar_destroy l = (let l = stop_finish (stop_request l) in l\<lparr>l_device := dev_destroy (l_device l)\<rparr>)"

lemma lidar_destroy_eq [simp]: "lidar_destroy l = stop_finish (stop_request l)"
  by (simp add: lidar_destroy_def stop_finish_def dev_destroy_def Let_def)

text \<open>The accessors, each one load or one read under the mutex.\<close>

definition lidar_isRunning :: "lidar \<Rightarrow> bool" where
  [simp]: "lidar_isRunning l \<longleftrightarrow> l_running l"

definition lidar_statistics :: "lidar \<Rightarrow> lidar_stats" where
  [simp]: "lidar_statistics l = l_stats l"

definition lidar_lastError :: "lidar \<Rightarrow> string" where
  [simp]: "lidar_lastError l = l_last_error l"

text \<open>
  \<open>nowMicros\<close>, given the nanoseconds the steady clock shows; the cast of a duration rounds towards zero.
  The iterations take its value as an answer.
\<close>

definition nowMicros :: "int \<Rightarrow> u64" where
  "nowMicros nanoseconds = word_of_int (nanoseconds sdiv 1000)"

lemma nowMicros_mono:
  assumes "0 \<le> a" "a \<le> b" "b < 2 ^ 63"
  shows "nowMicros a \<le> nowMicros b"
proof -
  have "uint (nowMicros x) = x div 1000" if "0 \<le> x" "x < 2 ^ 63" for x
  proof -
    have "x sdiv 1000 = x div 1000" using that(1) by (cases "x = 0") (simp_all add: signed_divide_int_def sgn_if)
    moreover have "x div 1000 < 2 ^ 64" using that zdiv_mono1 [of x "2 ^ 63" 1000] by simp
    ultimately show ?thesis using that(1) by (simp add: nowMicros_def uint_word_of_int)
  qed
  then show ?thesis using assms by (simp add: word_le_def zdiv_mono1)
qed

section \<open>What the consumer is given\<close>

text \<open>
  The outcome of a stretch of the loop: the frames handed to the consumer, in order, numbered from
  the next sequence number on, none of them empty; the counters moved accordingly.
\<close>

definition stretch ::
  "(scan_frame \<Rightarrow> 'c \<Rightarrow> bool \<times> 'c) \<Rightarrow> lidar \<Rightarrow> 'c \<Rightarrow> scan_frame list \<Rightarrow> lidar \<Rightarrow> 'c \<Rightarrow> bool" where
  "stretch callback l c frames l' c' \<longleftrightarrow>
     c' = fold (\<lambda>f c. snd (callback f c)) frames c \<and>
     map sequence frames = map (\<lambda>i. l_next_sequence l + word_of_nat i) [0..<length frames] \<and>
     l_next_sequence l' = l_next_sequence l + word_of_nat (length frames) \<and>
     frames_delivered (l_stats l') = frames_delivered (l_stats l) + word_of_nat (length frames) \<and>
     (frames \<noteq> [] \<longrightarrow> last_frame_us (l_stats l') = timestamp_us (last frames)) \<and>
     (frames = [] \<longrightarrow> last_frame_us (l_stats l') = last_frame_us (l_stats l)) \<and>
     (\<forall>f \<in> set frames. points f \<noteq> [] \<and> (\<forall>p \<in> set (points f). f32_of_nat 0 < distance_mm p)) \<and>
     l_config l' = l_config l"

lemma stretch_nil: "l_next_sequence l' = l_next_sequence l \<Longrightarrow>
    frames_delivered (l_stats l') = frames_delivered (l_stats l) \<Longrightarrow>
    last_frame_us (l_stats l') = last_frame_us (l_stats l) \<Longrightarrow> l_config l' = l_config l \<Longrightarrow>
    stretch callback l c [] l' c"
  by (simp add: stretch_def)

lemma stretch_append:
  assumes "stretch callback l c fs l' c'" "stretch callback l' c' gs l'' c''"
  shows "stretch callback l c (fs @ gs) l'' c''"
proof -
  let ?n = "l_next_sequence l"
  from assms(1) have A: "c' = fold (\<lambda>f c. snd (callback f c)) fs c"
    "map sequence fs = map (\<lambda>i. ?n + word_of_nat i) [0..<length fs]"
    "l_next_sequence l' = ?n + word_of_nat (length fs)"
    "frames_delivered (l_stats l') = frames_delivered (l_stats l) + word_of_nat (length fs)"
    "fs \<noteq> [] \<longrightarrow> last_frame_us (l_stats l') = timestamp_us (last fs)"
    "\<forall>f \<in> set fs. points f \<noteq> [] \<and> (\<forall>p \<in> set (points f). f32_of_nat 0 < distance_mm p)"
    "l_config l' = l_config l"
    unfolding stretch_def by blast+
  from assms(2) have B: "c'' = fold (\<lambda>f c. snd (callback f c)) gs c'"
    "map sequence gs = map (\<lambda>i. l_next_sequence l' + word_of_nat i) [0..<length gs]"
    "l_next_sequence l'' = l_next_sequence l' + word_of_nat (length gs)"
    "frames_delivered (l_stats l'') = frames_delivered (l_stats l') + word_of_nat (length gs)"
    "gs \<noteq> [] \<longrightarrow> last_frame_us (l_stats l'') = timestamp_us (last gs)"
    "gs = [] \<longrightarrow> last_frame_us (l_stats l'') = last_frame_us (l_stats l')"
    "\<forall>f \<in> set gs. points f \<noteq> [] \<and> (\<forall>p \<in> set (points f). f32_of_nat 0 < distance_mm p)"
    "l_config l'' = l_config l'"
    unfolding stretch_def by blast+
  have "map (\<lambda>i. l_next_sequence l' + word_of_nat i) [0..<length gs] =
      map (\<lambda>i. ?n + word_of_nat i) [length fs..<length fs + length gs]"
    unfolding A(3) by (rule nth_equalityI) (simp_all add: add.assoc)
  then have "map sequence (fs @ gs) = map (\<lambda>i. ?n + word_of_nat i) [0..<length (fs @ gs)]"
    unfolding map_append A(2) B(2) length_append by (simp only: upt_add_eq_append [OF le0] map_append add_0)
  moreover have "fs @ gs = [] \<longrightarrow> last_frame_us (l_stats l'') = last_frame_us (l_stats l)"
    using assms unfolding stretch_def by auto
  moreover have "fs @ gs \<noteq> [] \<longrightarrow> last_frame_us (l_stats l'') = timestamp_us (last (fs @ gs))"
    using A(5) B(5,6) by (cases "gs = []") auto
  moreover have "c'' = fold (\<lambda>f c. snd (callback f c)) (fs @ gs) c" using A(1) B(1) by simp
  ultimately show ?thesis
    unfolding stretch_def using A(3,4,6,7) B(3,4,7,8) by (auto simp: add.assoc)
qed

lemma stretch_trans_eq:
  "stretch callback l c fs l' c' \<Longrightarrow> l_next_sequence l'' = l_next_sequence l' \<Longrightarrow>
   frames_delivered (l_stats l'') = frames_delivered (l_stats l') \<Longrightarrow>
   last_frame_us (l_stats l'') = last_frame_us (l_stats l') \<Longrightarrow> l_config l'' = l_config l' \<Longrightarrow>
   stretch callback l c fs l'' c'"
  by (simp add: stretch_def)

lemma setError_fields [simp]:
  "l_next_sequence (lidar_setError m l) = l_next_sequence l" "l_stats (lidar_setError m l) = l_stats l"
  "l_config (lidar_setError m l) = l_config l" "l_device (lidar_setError m l) = l_device l"
  "l_stop_requested (lidar_setError m l) = l_stop_requested l" "l_running (lidar_setError m l) = l_running l"
  "l_worker (lidar_setError m l) = l_worker l" "l_callback (lidar_setError m l) = l_callback l"
  "l_frame (lidar_setError m l) = l_frame l"
  by (simp_all add: lidar_setError_def)

lemma count_read_error_fields [simp]:
  "l_next_sequence (count_read_error l) = l_next_sequence l" "l_config (count_read_error l) = l_config l"
  "frames_delivered (l_stats (count_read_error l)) = frames_delivered (l_stats l)"
  "last_frame_us (l_stats (count_read_error l)) = last_frame_us (l_stats l)"
  "connects (l_stats (count_read_error l)) = connects (l_stats l)"
  "empty_frames (l_stats (count_read_error l)) = empty_frames (l_stats l)"
  "read_errors (l_stats (count_read_error l)) = read_errors (l_stats l) + 1"
  "l_device (count_read_error l) = l_device l" "l_stop_requested (count_read_error l) = l_stop_requested l"
  "l_running (count_read_error l) = l_running l" "l_worker (count_read_error l) = l_worker l"
  "l_frame (count_read_error l) = l_frame l" "l_last_error (count_read_error l) = l_last_error l"
  "l_callback (count_read_error l) = l_callback l"
  by (simp_all add: count_read_error_def)

lemma deliverFrame_stretch:
  assumes "deliverFrame callback now l c = (l', c')" "points (l_frame l) \<noteq> []"
    "\<forall>p \<in> set (points (l_frame l)). f32_of_nat 0 < distance_mm p"
  shows "stretch callback l c [(l_frame l)\<lparr>sequence := l_next_sequence l, timestamp_us := now\<rparr>] l' c'"
  using assms by (auto simp: deliverFrame_def stretch_def Let_def split: prod.splits)

lemma grab_positive:
  assumes "grabScan s dev pts = (True, pts', error, dev')"
  shows "\<forall>p \<in> set pts'. f32_of_nat 0 < distance_mm p"
  using grabScan_result [OF assms] by simp

lemma acquireOnce_stretch:
  assumes "acquireOnce callback s now l c = (ok, l', c')"
  shows "\<exists>frames. length frames \<le> 1 \<and> stretch callback l c frames l' c'"
proof (cases "dev_isOpen (l_device l)")
  case False
  then show ?thesis using assms by (auto simp: acquireOnce_def intro!: exI [of _ "[]"] stretch_nil)
next
  case True
  obtain grabbed pts error dev where g: "grabScan s (l_device l) (points (l_frame l)) = (grabbed, pts, error, dev)"
    by (metis prod_cases4)
  let ?l = "l\<lparr>l_device := dev, l_frame := (l_frame l)\<lparr>points := pts\<rparr>\<rparr>"
  show ?thesis
  proof (cases "grabbed \<and> pts \<noteq> []")
    case False
    then show ?thesis using assms True g
      by (auto simp: acquireOnce_def Let_def frame_empty_def intro!: exI [of _ "[]"] stretch_nil split: if_splits)
  next
    case ok: True
    then have d: "deliverFrame callback now ?l c = (l', c')"
      using assms True g by (auto simp: acquireOnce_def Let_def frame_empty_def)
    from deliverFrame_stretch [OF d] ok g grab_positive [of s "l_device l" "points (l_frame l)" pts error dev]
    have "stretch callback ?l c [(l_frame ?l)\<lparr>sequence := l_next_sequence ?l, timestamp_us := now\<rparr>] l' c'"
      by simp
    then show ?thesis
      by (intro exI [of _ "[(l_frame ?l)\<lparr>sequence := l_next_sequence ?l, timestamp_us := now\<rparr>]"])
        (auto simp: stretch_def)
  qed
qed

lemma openDevice_fields:
  assumes "openDevice s l = (ok, l')"
  shows "l_next_sequence l' = l_next_sequence l" "l_config l' = l_config l"
    "frames_delivered (l_stats l') = frames_delivered (l_stats l)"
    "last_frame_us (l_stats l') = last_frame_us (l_stats l)"
    "read_errors (l_stats l') = read_errors (l_stats l)"
    "l_stop_requested l' = l_stop_requested l" "l_running l' = l_running l" "l_worker l' = l_worker l"
    "l_callback l' = l_callback l" "l_frame l' = l_frame l"
    "l_device l' = snd (snd (dev_open s (l_device l)))" "ok = fst (dev_open s (l_device l))"
  using assms by (auto simp: openDevice_def Let_def split: prod.splits if_splits)

text \<open>The four ways an iteration ends.\<close>

lemma run_body_cases:
  assumes "acquireOnce callback (it_grab it) (it_now it) l c = (ok, l1, c1)"
  defines "l2 \<equiv> l1\<lparr>l_stop_requested := l_stop_requested l1 \<or> it_stop it\<rparr>"
  defines "l3 \<equiv> (count_read_error l2)\<lparr>l_device := dev_close (l_device l1)\<rparr>"
  shows "ok \<Longrightarrow> lidar_run_body callback it failures l c = (True, 0, l2, c1)"
    "\<not> ok \<Longrightarrow> failures + 1 < kMaxConsecutiveGrabFailures \<Longrightarrow>
       lidar_run_body callback it failures l c = (True, failures + 1, count_read_error l2, c1)"
    "\<not> ok \<Longrightarrow> \<not> failures + 1 < kMaxConsecutiveGrabFailures \<Longrightarrow>
       \<not> auto_reconnect (l_config l1) \<or> l_stop_requested l2 \<Longrightarrow>
       lidar_run_body callback it failures l c = (False, 0, l3, c1)"
    "\<not> ok \<Longrightarrow> \<not> failures + 1 < kMaxConsecutiveGrabFailures \<Longrightarrow>
       auto_reconnect (l_config l1) \<Longrightarrow> \<not> l_stop_requested l2 \<Longrightarrow>
       lidar_run_body callback it failures l c = (True, 0, snd (openDevice (it_reopen it) l3), c1)"
proof -
  have "lidar_run_body callback it failures l c =
    (if ok then (True, 0, l2, c1)
     else if failures + 1 < kMaxConsecutiveGrabFailures then (True, failures + 1, count_read_error l2, c1)
     else if \<not> auto_reconnect (l_config l1) \<or> l_stop_requested l2 then (False, 0, l3, c1)
     else (True, 0, snd (openDevice (it_reopen it) l3), c1))"
    unfolding l2_def l3_def by (simp add: lidar_run_body_def assms(1) split_beta Let_def)
  then show "ok \<Longrightarrow> lidar_run_body callback it failures l c = (True, 0, l2, c1)"
    "\<not> ok \<Longrightarrow> failures + 1 < kMaxConsecutiveGrabFailures \<Longrightarrow>
       lidar_run_body callback it failures l c = (True, failures + 1, count_read_error l2, c1)"
    "\<not> ok \<Longrightarrow> \<not> failures + 1 < kMaxConsecutiveGrabFailures \<Longrightarrow>
       \<not> auto_reconnect (l_config l1) \<or> l_stop_requested l2 \<Longrightarrow>
       lidar_run_body callback it failures l c = (False, 0, l3, c1)"
    "\<not> ok \<Longrightarrow> \<not> failures + 1 < kMaxConsecutiveGrabFailures \<Longrightarrow>
       auto_reconnect (l_config l1) \<Longrightarrow> \<not> l_stop_requested l2 \<Longrightarrow>
       lidar_run_body callback it failures l c = (True, 0, snd (openDevice (it_reopen it) l3), c1)"
    by simp_all
qed

text \<open>What an iteration keeps of the state its reading leaves.\<close>

definition keeps :: "lidar \<Rightarrow> bool \<Rightarrow> bool \<Rightarrow> lidar \<Rightarrow> bool" where
  "keeps l1 ok stop l' \<longleftrightarrow>
     l_next_sequence l' = l_next_sequence l1 \<and> frames_delivered (l_stats l') = frames_delivered (l_stats l1) \<and>
     last_frame_us (l_stats l') = last_frame_us (l_stats l1) \<and> l_config l' = l_config l1 \<and>
     l_running l' = l_running l1 \<and> l_worker l' = l_worker l1 \<and> l_callback l' = l_callback l1 \<and>
     read_errors (l_stats l') = read_errors (l_stats l1) + (if ok then 0 else 1) \<and>
     (l_stop_requested l' \<longleftrightarrow> l_stop_requested l1 \<or> stop)"

lemma run_body_state:
  assumes "acquireOnce callback (it_grab it) (it_now it) l c = (ok, l1, c1)"
    and "lidar_run_body callback it failures l c = (go_on, failures', l', c')"
  shows "c' = c1" "keeps l1 ok (it_stop it) l'"
proof -
  note cases = run_body_cases [OF assms(1), of failures]
  define l2 where "l2 = l1\<lparr>l_stop_requested := l_stop_requested l1 \<or> it_stop it\<rparr>"
  define l3 where "l3 = (count_read_error l2)\<lparr>l_device := dev_close (l_device l1)\<rparr>"
  note cases = cases [folded l2_def, folded l3_def]
  have l3: "keeps l1 False (it_stop it) l3" by (simp add: l3_def l2_def keeps_def)
  obtain ok2 l4 where o: "openDevice (it_reopen it) l3 = (ok2, l4)" by fastforce
  consider "ok" | "\<not> ok" "failures + 1 < kMaxConsecutiveGrabFailures"
    | "\<not> ok" "\<not> failures + 1 < kMaxConsecutiveGrabFailures" "\<not> auto_reconnect (l_config l1) \<or> l_stop_requested l1 \<or> it_stop it"
    | "\<not> ok" "\<not> failures + 1 < kMaxConsecutiveGrabFailures" "auto_reconnect (l_config l1)" "\<not> l_stop_requested l1" "\<not> it_stop it"
    by blast
  then have "c' = c1 \<and> keeps l1 ok (it_stop it) l'"
  proof cases
    case 1
    then show ?thesis using cases(1) assms(2) by (simp add: l2_def keeps_def)
  next
    case 2
    then show ?thesis using cases(2) assms(2) by (simp add: l2_def keeps_def)
  next
    case 3
    then show ?thesis using cases(3) assms(2) l3 by (simp add: l2_def)
  next
    case 4
    then show ?thesis using cases(4) assms(2) openDevice_fields [OF o] l3 by (simp add: l2_def o keeps_def)
  qed
  then show "c' = c1" "keeps l1 ok (it_stop it) l'" by simp_all
qed

lemma run_body_stretch:
  assumes "lidar_run_body callback it failures l c = (go_on, failures', l', c')"
  shows "\<exists>frames. length frames \<le> 1 \<and> stretch callback l c frames l' c'"
proof -
  obtain ok l1 c1 where a: "acquireOnce callback (it_grab it) (it_now it) l c = (ok, l1, c1)"
    by (metis prod_cases3)
  from acquireOnce_stretch [OF a] obtain frames where "length frames \<le> 1" "stretch callback l c frames l1 c1"
    by blast
  with run_body_state [OF a assms] show ?thesis
    using stretch_trans_eq [of callback l c frames l1 c1 l'] by (auto simp: keeps_def)
qed

section \<open>The recovery policy\<close>

definition grab_fails :: "sdk \<Rightarrow> device \<Rightarrow> bool" where
  "grab_fails s dev \<longleftrightarrow> \<not> dev_isOpen dev \<or>
     \<not> SL_IS_OK s (fst (sdk_grab s (max_nodes_per_scan (dev_config dev)) (scan_timeout_ms (dev_config dev))))"

text \<open>The device after some failed readings: only the log of an open one has grown.\<close>

definition after_failures :: "nat \<Rightarrow> device \<Rightarrow> device" where
  "after_failures n dev = (case driver_ptr dev of None \<Rightarrow> dev
     | Some d \<Rightarrow> dev\<lparr>calls := calls dev @ replicate n (GrabScan d)\<rparr>)"

lemma after_failures_simps [simp]:
  "after_failures 0 dev = dev" "driver_ptr (after_failures n dev) = driver_ptr dev"
  "channel_ptr (after_failures n dev) = channel_ptr dev" "dev_config (after_failures n dev) = dev_config dev"
  "dev_isOpen (after_failures n dev) = dev_isOpen dev" "grab_fails s (after_failures n dev) = grab_fails s dev"
  by (simp_all add: after_failures_def grab_fails_def dev_isOpen_def split: option.splits)

lemma after_failures_Suc: "after_failures n (after_failures (Suc 0) dev) = after_failures (Suc n) dev"
  by (simp add: after_failures_def split: option.splits)

lemma acquire_fails:
  assumes "grab_fails s (l_device l)" "acquireOnce callback s now l c = (ok, l', c')"
  shows "\<not> ok" "c' = c" "l_device l' = after_failures 1 (l_device l)" "l_config l' = l_config l"
    "l_stop_requested l' = l_stop_requested l" "l_stats l' = l_stats l" "l_next_sequence l' = l_next_sequence l"
    "l_running l' = l_running l" "l_worker l' = l_worker l"
proof -
  obtain grabbed pts error dev where g: "grabScan s (l_device l) (points (l_frame l)) = (grabbed, pts, error, dev)"
    by (metis prod_cases4)
  have dev: "dev_isOpen (l_device l) \<Longrightarrow> \<not> grabbed \<and> dev = after_failures 1 (l_device l)"
    using assms(1) g by (auto simp: grabScan_def grab_fails_def after_failures_def dev_isOpen_def call_def Let_def
        split: option.splits prod.splits if_splits)
  show "\<not> ok" "c' = c" "l_device l' = after_failures 1 (l_device l)" "l_config l' = l_config l"
    "l_stop_requested l' = l_stop_requested l" "l_stats l' = l_stats l" "l_next_sequence l' = l_next_sequence l"
    "l_running l' = l_running l" "l_worker l' = l_worker l"
    using assms(2) dev
    by (cases "dev_isOpen (l_device l)";
        auto simp: acquireOnce_def g Let_def after_failures_def dev_isOpen_def split: option.splits)+
qed

text \<open>A quiet iteration: no stop request arrives, and the reading fails.\<close>

definition failing :: "iteration \<Rightarrow> lidar \<Rightarrow> bool" where
  "failing it l \<longleftrightarrow> \<not> it_stop it \<and> grab_fails (it_grab it) (l_device l)"

lemma run_body_failing:
  assumes "failing it l" "\<not> l_stop_requested l" "auto_reconnect (l_config l)"
    and "lidar_run_body callback it failures l c = (go_on, failures', l', c')"
  shows "go_on" "c' = c" "\<not> l_stop_requested l'" "l_config l' = l_config l"
    "read_errors (l_stats l') = read_errors (l_stats l) + 1"
    "failures + 1 < 5 \<Longrightarrow> failures' = failures + 1 \<and> l_device l' = after_failures 1 (l_device l) \<and>
       connects (l_stats l') = connects (l_stats l)"
    "\<not> failures + 1 < 5 \<Longrightarrow> failures' = 0 \<and>
       l_device l' = snd (snd (dev_open (it_reopen it) (dev_close (after_failures 1 (l_device l))))) \<and>
       connects (l_stats l') = connects (l_stats l) +
         (if fst (dev_open (it_reopen it) (dev_close (after_failures 1 (l_device l)))) then 1 else 0)"
proof -
  obtain ok l1 c1 where a: "acquireOnce callback (it_grab it) (it_now it) l c = (ok, l1, c1)"
    by (metis prod_cases3)
  have fl: "grab_fails (it_grab it) (l_device l)" "\<not> it_stop it" using assms(1) by (simp_all add: failing_def)
  note f = acquire_fails [OF fl(1) a]
  note b = run_body_cases [OF a, of failures] and st = run_body_state [OF a assms(4), unfolded keeps_def]
  define l3 where "l3 = (count_read_error (l1\<lparr>l_stop_requested := l_stop_requested l1 \<or> it_stop it\<rparr>))
    \<lparr>l_device := dev_close (l_device l1)\<rparr>"
  have l3: "l_device l3 = dev_close (after_failures 1 (l_device l))" "connects (l_stats l3) = connects (l_stats l)"
    using f by (simp_all add: l3_def)
  note b = b [folded l3_def]
  show "go_on"
    using b assms f fl by (cases "failures + 1 < kMaxConsecutiveGrabFailures") auto
  show "c' = c" "\<not> l_stop_requested l'" "l_config l' = l_config l"
    "read_errors (l_stats l') = read_errors (l_stats l) + 1"
    using st f fl assms(2) by simp_all
  show "failures + 1 < 5 \<Longrightarrow> failures' = failures + 1 \<and> l_device l' = after_failures 1 (l_device l) \<and>
       connects (l_stats l') = connects (l_stats l)"
    using b(2) assms(4) f by (auto simp: kMaxConsecutiveGrabFailures_def)
  assume "\<not> failures + 1 < 5"
  then have r: "(go_on, failures', l', c') = (True, 0, snd (openDevice (it_reopen it) l3), c1)"
    using b(4) assms f fl by (simp add: kMaxConsecutiveGrabFailures_def)
  obtain opened error dev where d: "dev_open (it_reopen it) (dev_close (after_failures 1 (l_device l))) = (opened, error, dev)"
    by (metis prod_cases3)
  have "l' = snd (openDevice (it_reopen it) l3)" "failures' = 0" using r by simp_all
  then show "failures' = 0 \<and>
       l_device l' = snd (snd (dev_open (it_reopen it) (dev_close (after_failures 1 (l_device l))))) \<and>
       connects (l_stats l') = connects (l_stats l) +
         (if fst (dev_open (it_reopen it) (dev_close (after_failures 1 (l_device l)))) then 1 else 0)"
    using d l3 by (simp add: openDevice_def Let_def)
qed

lemma run_failing:
  assumes "list_all (\<lambda>it. failing it l) script" "\<not> l_stop_requested l" "auto_reconnect (l_config l)"
    "unat failures + length script < 5"
  shows "\<exists>l'. lidar_run callback script failures l c = Inr (failures + word_of_nat (length script), l', c) \<and>
    l_device l' = after_failures (length script) (l_device l) \<and> \<not> l_stop_requested l' \<and>
    l_config l' = l_config l \<and> connects (l_stats l') = connects (l_stats l) \<and>
    read_errors (l_stats l') = read_errors (l_stats l) + word_of_nat (length script)"
  using assms
proof (induction script arbitrary: l failures)
  case (Cons it script)
  obtain go_on failures' l1 c1 where b: "lidar_run_body callback it failures l c = (go_on, failures', l1, c1)"
    by (metis prod_cases4)
  have f: "failing it l" using Cons.prems(1) by simp
  have u: "unat (failures + 1) = unat failures + 1"
    using Cons.prems(4) by (simp add: unat_word_ariths)
  then have lt: "failures + 1 < 5" using Cons.prems(4) by (simp add: word_less_nat_alt)
  note r = run_body_failing [OF f Cons.prems(2,3) b]
  have same: "list_all (\<lambda>it. failing it l1) script"
    using Cons.prems(1) r(6) [OF lt] by (simp add: failing_def)
  from Cons.IH [OF same r(3), of failures'] r u Cons.prems(3,4) lt
  obtain l' where l': "lidar_run callback script failures' l1 c = Inr (failures' + word_of_nat (length script), l', c)"
    "l_device l' = after_failures (length script) (l_device l1)" "\<not> l_stop_requested l'" "l_config l' = l_config l1"
    "connects (l_stats l') = connects (l_stats l1)"
    "read_errors (l_stats l') = read_errors (l_stats l1) + word_of_nat (length script)" by auto
  with r lt b Cons.prems(2) show ?case
    by (intro exI [of _ l']) (simp add: after_failures_Suc)
qed simp

lemma run_failing_five:
  assumes "list_all (\<lambda>it. failing it l) (script @ [it])" "length script = 4"
    "\<not> l_stop_requested l" "auto_reconnect (l_config l)"
    "dev_open (it_reopen it) (dev_close (after_failures 5 (l_device l))) = (opened, error, dev)"
  shows "\<exists>l'. lidar_run callback (script @ [it]) 0 l c = Inr (0, l', c) \<and>
    l_device l' = dev \<and> \<not> l_stop_requested l' \<and> l_config l' = l_config l \<and>
    connects (l_stats l') = connects (l_stats l) + (if opened then 1 else 0) \<and>
    read_errors (l_stats l') = read_errors (l_stats l) + 5"
proof -
  have app: "lidar_run callback (xs @ ys) f l c = (case lidar_run callback xs f l c of
      Inl r \<Rightarrow> Inl r | Inr (f, l, c) \<Rightarrow> lidar_run callback ys f l c)" if "ys \<noteq> []"
    for callback :: "scan_frame \<Rightarrow> 'a \<Rightarrow> bool \<times> 'a" and xs ys f l c
    using that
  proof (induction xs arbitrary: f l c)
    case Nil
    then show ?case by (cases ys) simp_all
  qed (simp split: prod.splits)
  obtain l1 where l1: "lidar_run callback script 0 l c = Inr (0 + word_of_nat 4, l1, c)"
    "l_device l1 = after_failures 4 (l_device l)" "\<not> l_stop_requested l1" "l_config l1 = l_config l"
    "connects (l_stats l1) = connects (l_stats l)" "read_errors (l_stats l1) = read_errors (l_stats l) + word_of_nat 4"
    using run_failing [of l script 0 callback c] assms(1-4) by (auto simp: list_all_iff)
  obtain go_on failures' l2 c2 where b: "lidar_run_body callback it 4 l1 c = (go_on, failures', l2, c2)"
    by (metis prod_cases4)
  have f: "failing it l1" using assms(1) l1(2) by (simp add: failing_def)
  have auto: "auto_reconnect (l_config l1)" using assms(4) l1(4) by simp
  note r = run_body_failing [OF f l1(3) auto b]
  have five: "after_failures (Suc 0) (l_device l1) = after_failures 5 (l_device l)"
    unfolding l1(2) by (simp add: after_failures_def replicate_append_same split: option.splits)
      (simp add: numeral_eq_Suc replicate_append_same)
  have "\<not> (4 :: u32) + 1 < 5" by simp
  from r(7) [OF this] r l1 b assms(5) five show ?thesis
    by (intro exI [of _ l2]) (simp add: app)
qed

section \<open>Properties\<close>

text \<open>
  C29: The stream the consumer sees. Whatever the sensor, the clock, the consumer and the stop
  requests do during any number of iterations, the consumer has been called on a list of frames,
  in order, whose sequence numbers are consecutive from the next one (wrapping at 2 to the power of 32), none of
  them empty and every point at a positive distance; \<open>frames_delivered\<close> has grown by their number
  and \<open>last_frame_us\<close> is the stamp of the last one.
\<close>
theorem lidar_stream:
  "case lidar_run callback script failures l c of
     Inl (l', c') \<Rightarrow> \<exists>frames. length frames \<le> length script \<and> stretch callback l c frames l' c'
   | Inr (_, l', c') \<Rightarrow> \<exists>frames. length frames \<le> length script \<and> stretch callback l c frames l' c'"
proof (induction script arbitrary: failures l c)
  case Nil
  have "stretch callback l c [] l c" "stretch callback l c [] (lidar_run_exit l) c"
    by (simp_all add: stretch_nil lidar_run_exit_def)
  then show ?case by auto
next
  case (Cons it script)
  show ?case
  proof (cases "l_stop_requested l")
    case True
    have "stretch callback l c [] (lidar_run_exit l) c" by (simp add: stretch_nil lidar_run_exit_def)
    with True show ?thesis by (auto intro!: exI [of _ "[]"])
  next
    case False
    obtain go_on f1 l1 c1 where b: "lidar_run_body callback it failures l c = (go_on, f1, l1, c1)"
      by (metis prod_cases4)
    obtain fs where fs: "length fs \<le> 1" "stretch callback l c fs l1 c1" using run_body_stretch [OF b] by blast
    have "stretch callback l c fs (lidar_run_exit l1) c1"
      by (rule stretch_trans_eq [OF fs(2)]) (simp_all add: lidar_run_exit_def)
    then have stopped: "\<exists>frames. length frames \<le> Suc (length script) \<and> stretch callback l c frames (lidar_run_exit l1) c1"
      using fs(1) by (intro exI [of _ fs]) simp
    have more: "\<exists>frames. length frames \<le> Suc (length script) \<and> stretch callback l c frames l' c'"
      if "\<exists>gs. length gs \<le> length script \<and> stretch callback l1 c1 gs l' c'" for l' c'
      using stretch_append [OF fs(2)] that fs(1) by (metis add_mono length_append plus_1_eq_Suc)
    show ?thesis
      using Cons.IH [where failures = f1 and l = l1 and c = c1] False b stopped
      by (cases go_on) (auto split: sum.splits prod.splits intro: more)
  qed
qed

text \<open>
  C30: The recovery policy. With \<open>auto_reconnect\<close> and no stop request, fewer than five failed readings
  in a row leave the connection alone: the SDK sees the readings and nothing else, and each is
  counted. The fifth closes the device and makes one attempt to open it again, after which the
  counter starts over. On a device that is already closed (the last attempt failed) this means that
  only every fifth iteration makes an attempt, and the other four do nothing but count a read error.
\<close>
theorem recovery_policy:
  assumes "list_all (\<lambda>it. failing it l) (script @ [it])" "length script = 4"
    "\<not> l_stop_requested l" "auto_reconnect (l_config l)"
    "dev_open (it_reopen it) (dev_close (after_failures 5 (l_device l))) = (opened, error, dev)"
  shows "(\<forall>n \<le> 4. \<exists>l'. lidar_run callback (take n script) 0 l c = Inr (word_of_nat n, l', c) \<and>
            l_device l' = after_failures n (l_device l) \<and>
            read_errors (l_stats l') = read_errors (l_stats l) + word_of_nat n) \<and>
    (\<exists>l'. lidar_run callback (script @ [it]) 0 l c = Inr (0, l', c) \<and> l_device l' = dev \<and>
            connects (l_stats l') = connects (l_stats l) + (if opened then 1 else 0) \<and>
            read_errors (l_stats l') = read_errors (l_stats l) + 5)"
proof (intro conjI allI impI)
  fix n :: nat assume n: "n \<le> 4"
  have "list_all (\<lambda>it. failing it l) (take n script)"
    using assms(1) by (auto simp: list_all_iff dest: in_set_takeD)
  then show "\<exists>l'. lidar_run callback (take n script) 0 l c = Inr (word_of_nat n, l', c) \<and>
            l_device l' = after_failures n (l_device l) \<and>
            read_errors (l_stats l') = read_errors (l_stats l) + word_of_nat n"
    using run_failing [of l "take n script" 0 callback c] assms(2-4) n by (auto simp: min_def)
next
  show "\<exists>l'. lidar_run callback (script @ [it]) 0 l c = Inr (0, l', c) \<and> l_device l' = dev \<and>
            connects (l_stats l') = connects (l_stats l) + (if opened then 1 else 0) \<and>
            read_errors (l_stats l') = read_errors (l_stats l) + 5"
    using run_failing_five [OF assms, of callback c] by (elim exE conjE) (rule exI, intro conjI)
qed

text \<open>A sensor that stops answering and comes back at the first reopening.\<close>

definition silent_iteration :: iteration where
  "silent_iteration =
     \<lparr>it_grab = (working_sdk [])\<lparr>sdk_grab := (\<lambda>_ _. (SL_RESULT_OPERATION_TIMEOUT, []))\<rparr>,
      it_now = 0, it_stop = False, it_reopen = working_sdk []\<rparr>"

definition running_lidar :: lidar where
  "running_lidar = (Lidar default_lidar_config)
     \<lparr>l_device := opened_device [], l_callback := True, l_worker := Running, l_running := True\<rparr>"

theorem recovery_policy_witness:
  "\<exists>l'. lidar_run (\<lambda>_ c. (False, c)) (replicate 4 silent_iteration @ [silent_iteration]) 0 running_lidar () = Inr (0, l', ()) \<and>
     read_errors (l_stats l') = 5"
proof -
  obtain opened error dev where
    d: "dev_open (it_reopen silent_iteration) (dev_close (after_failures 5 (l_device running_lidar))) = (opened, error, dev)"
    by (metis prod_cases3)
  have "failing silent_iteration running_lidar"
    by (simp add: failing_def grab_fails_def silent_iteration_def working_sdk_def)
  then have "list_all (\<lambda>it. failing it running_lidar) (replicate 4 silent_iteration @ [silent_iteration])"
    by (simp add: list_all_iff)
  from recovery_policy [OF this _ _ _ d, of "\<lambda>_ c. (False, c)" "()"] show ?thesis
    by (auto simp: running_lidar_def Lidar_def default_lidar_config_def zero_stats_def)
qed

section \<open>A faulty consumer\<close>

text \<open>The state without the one counter a throwing consumer moves.\<close>

definition sensing :: "lidar \<Rightarrow> lidar" where
  "sensing l = l\<lparr>l_stats := (l_stats l)\<lparr>read_errors := 0\<rparr>\<rparr>"

lemma sensing_eqE:
  assumes "sensing l = sensing m"
  obtains e where "m = l\<lparr>l_stats := (l_stats l)\<lparr>read_errors := e\<rparr>\<rparr>"
proof -
  have "m = l\<lparr>l_stats := (l_stats l)\<lparr>read_errors := read_errors (l_stats m)\<rparr>\<rparr>"
    using assms by (cases l; cases m; cases "l_stats l"; cases "l_stats m") (auto simp: sensing_def)
  then show thesis by (rule that)
qed

lemma sensing_errors: "sensing (l\<lparr>l_stats := (l_stats l)\<lparr>read_errors := e\<rparr>\<rparr>) = sensing l"
  by (simp add: sensing_def)

lemma acquire_sensing:
  assumes "sensing l = sensing m" "acquireOnce cb1 s now l c = (ok, l', c')" "acquireOnce cb2 s now m d = (ok2, m', d')"
  shows "ok = ok2" "sensing l' = sensing m'"
proof -
  obtain e where m: "m = l\<lparr>l_stats := (l_stats l)\<lparr>read_errors := e\<rparr>\<rparr>" using sensing_eqE [OF assms(1)] .
  show "ok = ok2" "sensing l' = sensing m'"
    using assms(2,3) unfolding m
    by (auto simp: acquireOnce_def deliverFrame_def lidar_setError_def count_read_error_def sensing_def Let_def
        split: prod.splits if_splits)
qed

lemma sensing_fields:
  assumes "sensing l = sensing m"
  shows "l_config l = l_config m" "l_device l = l_device m" "l_stop_requested l = l_stop_requested m"
proof -
  obtain e where "m = l\<lparr>l_stats := (l_stats l)\<lparr>read_errors := e\<rparr>\<rparr>" using sensing_eqE [OF assms] .
  then show "l_config l = l_config m" "l_device l = l_device m" "l_stop_requested l = l_stop_requested m"
    by simp_all
qed

lemma sensing_update:
  assumes "sensing l = sensing m"
  shows "sensing (count_read_error l) = sensing (count_read_error m)"
    "sensing (l\<lparr>l_stop_requested := b\<rparr>) = sensing (m\<lparr>l_stop_requested := b\<rparr>)"
    "sensing (l\<lparr>l_device := dev\<rparr>) = sensing (m\<lparr>l_device := dev\<rparr>)"
    "sensing (lidar_run_exit l) = sensing (lidar_run_exit m)"
    "fst (openDevice s l) = fst (openDevice s m)" "sensing (snd (openDevice s l)) = sensing (snd (openDevice s m))"
proof -
  obtain e where "m = l\<lparr>l_stats := (l_stats l)\<lparr>read_errors := e\<rparr>\<rparr>" using sensing_eqE [OF assms] .
  then show "sensing (count_read_error l) = sensing (count_read_error m)"
    "sensing (l\<lparr>l_stop_requested := b\<rparr>) = sensing (m\<lparr>l_stop_requested := b\<rparr>)"
    "sensing (l\<lparr>l_device := dev\<rparr>) = sensing (m\<lparr>l_device := dev\<rparr>)"
    "sensing (lidar_run_exit l) = sensing (lidar_run_exit m)"
    "fst (openDevice s l) = fst (openDevice s m)" "sensing (snd (openDevice s l)) = sensing (snd (openDevice s m))"
    by (simp_all add: sensing_def count_read_error_def lidar_run_exit_def openDevice_def lidar_setError_def
        Let_def split: prod.splits)
qed

lemma run_body_sensing:
  assumes "sensing l = sensing m" "lidar_run_body cb1 it failures l c = (go1, f1, l', c')"
    "lidar_run_body cb2 it failures m d = (go2, f2, m', d')"
  shows "go1 = go2 \<and> f1 = f2 \<and> sensing l' = sensing m'"
proof -
  obtain ok l1 c1 where a: "acquireOnce cb1 (it_grab it) (it_now it) l c = (ok, l1, c1)" by (metis prod_cases3)
  obtain ok2 m1 d1 where b: "acquireOnce cb2 (it_grab it) (it_now it) m d = (ok2, m1, d1)" by (metis prod_cases3)
  from acquire_sensing [OF assms(1) a b] have ok: "ok2 = ok" and s1: "sensing l1 = sensing m1" by simp_all
  define l2 where "l2 = l1\<lparr>l_stop_requested := l_stop_requested l1 \<or> it_stop it\<rparr>"
  define m2 where "m2 = m1\<lparr>l_stop_requested := l_stop_requested m1 \<or> it_stop it\<rparr>"
  define l3 where "l3 = (count_read_error l2)\<lparr>l_device := dev_close (l_device l1)\<rparr>"
  define m3 where "m3 = (count_read_error m2)\<lparr>l_device := dev_close (l_device m1)\<rparr>"
  have s2: "sensing l2 = sensing m2" unfolding l2_def m2_def sensing_fields(3) [OF s1]
    by (rule sensing_update(2) [OF s1])
  have s3: "sensing l3 = sensing m3" unfolding l3_def m3_def sensing_fields(2) [OF s1]
    by (intro sensing_update s2)
  note A = run_body_cases [OF a, folded l2_def, folded l3_def, of failures]
  note B = run_body_cases [OF b, folded m2_def, folded m3_def, of failures, unfolded ok]
  note same = sensing_fields [OF s1] sensing_fields [OF s2] sensing_update(1) [OF s2] sensing_update(5,6) [OF s3]
  consider "ok" | "\<not> ok" "failures + 1 < kMaxConsecutiveGrabFailures"
    | "\<not> ok" "\<not> failures + 1 < kMaxConsecutiveGrabFailures" "\<not> auto_reconnect (l_config l1) \<or> l_stop_requested l2"
    | "\<not> ok" "\<not> failures + 1 < kMaxConsecutiveGrabFailures" "auto_reconnect (l_config l1)" "\<not> l_stop_requested l2"
    by blast
  then show ?thesis
    by cases (use A B same s2 s3 assms(2,3) in auto)
qed

text \<open>
  A fault in the consumer never reaches sensing. Run the loop over the same script with any two
  consumers, whatever they do with the frames and whether or not they throw: the thread returns, or
  goes on, in the same iteration with the same device, frame, sequence number, failure counter and
  statistics, the count of read errors apart.
\<close>
lemma consumer_cannot_stop_sensing:
  "map_sum (\<lambda>(l, c). sensing l) (\<lambda>(f, l, c). (f, sensing l)) (lidar_run cb1 script failures l c) =
   map_sum (\<lambda>(l, c). sensing l) (\<lambda>(f, l, c). (f, sensing l)) (lidar_run cb2 script failures l d)"
proof -
  have "map_sum (\<lambda>(l, c). sensing l) (\<lambda>(f, l, c). (f, sensing l)) (lidar_run cb1 script failures l c) =
      map_sum (\<lambda>(l, c). sensing l) (\<lambda>(f, l, c). (f, sensing l)) (lidar_run cb2 script failures m d)"
    if "sensing l = sensing m" for l m
    using that
  proof (induction script arbitrary: failures l m c d)
    case Nil
    then show ?case using sensing_fields(3) [OF Nil] sensing_update(4) [OF Nil] by simp
  next
    case (Cons it script)
    obtain go1 f1 l1 c1 where a: "lidar_run_body cb1 it failures l c = (go1, f1, l1, c1)" by (metis prod_cases4)
    obtain go2 f2 m1 d1 where b: "lidar_run_body cb2 it failures m d = (go2, f2, m1, d1)" by (metis prod_cases4)
    from run_body_sensing [OF Cons.prems a b] have r: "go2 = go1" "f2 = f1" "sensing l1 = sensing m1" by simp_all
    then show ?case
      using Cons.IH [OF r(3)] sensing_fields(3) [OF Cons.prems] sensing_update(4) [OF Cons.prems]
        sensing_update(4) [OF r(3)] a b by simp
  qed
  then show ?thesis by simp
qed

section \<open>The life of the object\<close>

text \<open>
  The object with the acquisition thread's failure counter and the consumer. The owning thread calls
  \<open>start\<close> and \<open>stop\<close>; the acquisition thread, while it runs, does one iteration after another.
\<close>

inductive lidar_step ::
  "(scan_frame \<Rightarrow> 'c \<Rightarrow> bool \<times> 'c) \<Rightarrow> lidar \<times> u32 \<times> 'c \<Rightarrow> lidar \<times> u32 \<times> 'c \<Rightarrow> bool"
  for callback where
  starts: "lidar_start s spawn_error given l = Some (ok, l') \<Longrightarrow>
    lidar_step callback (l, f, c) (l', if ok then 0 else f, c)"
| iterates: "l_worker l = Running \<Longrightarrow> \<not> l_stop_requested l \<Longrightarrow>
    lidar_run_body callback it f l c = (True, f', l', c') \<Longrightarrow> lidar_step callback (l, f, c) (l', f', c')"
| breaks: "l_worker l = Running \<Longrightarrow> \<not> l_stop_requested l \<Longrightarrow>
    lidar_run_body callback it f l c = (False, f', l', c') \<Longrightarrow>
    lidar_step callback (l, f, c) (lidar_run_exit l', f', c')"
| leaves: "l_worker l = Running \<Longrightarrow> l_stop_requested l \<Longrightarrow> lidar_step callback (l, f, c) (lidar_run_exit l, f, c)"
| requests: "lidar_step callback (l, f, c) (stop_request l, f, c)"
| joins: "l_worker l \<noteq> Running \<Longrightarrow> l_stop_requested l \<Longrightarrow> lidar_step callback (l, f, c) (stop_finish l, f, c)"

definition lidar_new :: "lidar \<times> u32 \<times> 'c \<Rightarrow> bool" where
  "lidar_new st \<longleftrightarrow> (case st of (l, f, c) \<Rightarrow> l = Lidar (l_config l) \<and> f = 0)"

definition lidar_ok :: "lidar \<times> u32 \<times> 'c \<Rightarrow> bool" where
  "lidar_ok st \<longleftrightarrow> (case st of (l, f, c) \<Rightarrow>
     device_ok (l_device l) \<and> (l_running l \<longleftrightarrow> l_worker l = Running) \<and>
     (l_worker l = Running \<longrightarrow> f < kMaxConsecutiveGrabFailures) \<and>
     (l_worker l \<noteq> Running \<longrightarrow> \<not> dev_isOpen (l_device l)))"

lemma closed_ok: "device_ok dev \<Longrightarrow> device_ok (dev_close dev)" "device_ok dev \<Longrightarrow> \<not> dev_isOpen (dev_close dev)"
  by (simp_all add: rp.close_inv rp.close_closed)

lemma openDevice_ok:
  assumes "openDevice s l = (ok, l')" "device_ok (l_device l)"
  shows "device_ok (l_device l')" "ok \<longleftrightarrow> dev_isOpen (l_device l')"
proof -
  obtain opened error dev where o: "dev_open s (l_device l) = (opened, error, dev)" by (metis prod_cases3)
  show "device_ok (l_device l')" "ok \<longleftrightarrow> dev_isOpen (l_device l')"
    using openDevice_fields(11,12) [OF assms(1)] rp.open_inv [OF assms(2) o] rp.open_result [OF assms(2) o] o
    by simp_all
qed

lemma acquire_ok:
  assumes "acquireOnce callback s now l c = (ok, l', c')" "device_ok (l_device l)"
  shows "device_ok (l_device l') \<and> l_running l' = l_running l \<and> l_worker l' = l_worker l"
proof -
  obtain grabbed pts error dev where g: "grabScan s (l_device l) (points (l_frame l)) = (grabbed, pts, error, dev)"
    by (metis prod_cases4)
  have "device_ok dev" by (rule rp.grab_inv [OF assms(2) g])
  then show ?thesis
    using assms by (auto simp: acquireOnce_def g Let_def deliverFrame_def split: prod.splits if_splits)
qed

lemma run_body_ok:
  assumes "lidar_run_body callback it f l c = (go_on, f', l', c')" "device_ok (l_device l)"
    "f < kMaxConsecutiveGrabFailures"
  shows "device_ok (l_device l') \<and> l_running l' = l_running l \<and> l_worker l' = l_worker l \<and>
    f' < kMaxConsecutiveGrabFailures"
proof -
  obtain ok l1 c1 where a: "acquireOnce callback (it_grab it) (it_now it) l c = (ok, l1, c1)" by (metis prod_cases3)
  define l2 where "l2 = l1\<lparr>l_stop_requested := l_stop_requested l1 \<or> it_stop it\<rparr>"
  define l3 where "l3 = (count_read_error l2)\<lparr>l_device := dev_close (l_device l1)\<rparr>"
  note A = run_body_cases [OF a, folded l2_def, folded l3_def, of f]
  obtain ok2 l4 where o: "openDevice (it_reopen it) l3 = (ok2, l4)" by fastforce
  have 1: "device_ok (l_device l1)" using acquire_ok [OF a assms(2)] by simp
  have 3: "device_ok (l_device l3)" by (simp add: l3_def closed_ok [OF 1])
  have 0: "0 < kMaxConsecutiveGrabFailures" by (simp add: kMaxConsecutiveGrabFailures_def)
  have "device_ok (l_device l') \<and> f' < kMaxConsecutiveGrabFailures"
  proof -
    consider "ok" | "\<not> ok" "f + 1 < kMaxConsecutiveGrabFailures"
      | "\<not> ok" "\<not> f + 1 < kMaxConsecutiveGrabFailures" "\<not> auto_reconnect (l_config l1) \<or> l_stop_requested l2"
      | "\<not> ok" "\<not> f + 1 < kMaxConsecutiveGrabFailures" "auto_reconnect (l_config l1)" "\<not> l_stop_requested l2"
      by blast
    then show ?thesis
      by cases (use A assms(1) 0 1 3 openDevice_ok(1) [OF o 3] o in \<open>auto simp: l2_def\<close>)
  qed
  with run_body_state(2) [OF a assms(1)] acquire_ok [OF a assms(2)] show ?thesis by (simp add: keeps_def)
qed

lemma start_cases:
  assumes "openDevice s (l\<lparr>l_stop_requested := False, l_callback := True\<rparr>) = (opened, l1)"
  shows "lidar_start s spawn_error given l =
    (if \<not> given then Some (False, lidar_setError ''start() requires a non-empty callback'' l)
     else if l_running l then Some (False, lidar_setError ''start() called while already running'' l)
     else if \<not> opened then Some (False, l1\<lparr>l_callback := False\<rparr>)
     else if spawn_error \<noteq> None
     then Some (False, lidar_setError (''failed to spawn acquisition thread: '' @ the spawn_error)
            (l1\<lparr>l_running := False, l_device := dev_close (l_device l1), l_callback := False\<rparr>))
     else if joinable (l_worker l) then None
     else Some (True, l1\<lparr>l_running := True, l_worker := Running\<rparr>))"
  using assms openDevice_fields(8) [OF assms] by (cases spawn_error) (simp_all add: lidar_start_def Let_def)

lemma lidar_start_ok:
  assumes "lidar_start s spawn_error given l = Some (ok, l')" "lidar_ok (l, f, c)"
  shows "lidar_ok (l', if ok then 0 else f, c)"
proof -
  have ok: "device_ok (l_device l)" "l_running l \<longleftrightarrow> l_worker l = Running"
    "l_worker l = Running \<longrightarrow> f < kMaxConsecutiveGrabFailures"
    "l_worker l \<noteq> Running \<longrightarrow> \<not> dev_isOpen (l_device l)"
    using assms(2) by (simp_all add: lidar_ok_def)
  define l0 where "l0 = l\<lparr>l_stop_requested := False, l_callback := True\<rparr>"
  obtain opened l1 where o: "openDevice s l0 = (opened, l1)" by fastforce
  have 0: "device_ok (l_device l0)" using ok by (simp add: l0_def)
  note 1 = openDevice_ok [OF o 0] openDevice_fields(7,8) [OF o]
  have k: "0 < kMaxConsecutiveGrabFailures" by (simp add: kMaxConsecutiveGrabFailures_def)
  note start = start_cases [OF o [unfolded l0_def], of spawn_error given]
  have w: "l_worker l1 = l_worker l" "l_running l1 = l_running l" using 1(3,4) by (simp_all add: l0_def)
  show ?thesis
  proof (cases "\<not> given \<or> l_running l")
    case True
    then have "\<not> ok" "l_device l' = l_device l" "l_running l' = l_running l" "l_worker l' = l_worker l"
      using assms(1) unfolding start by (auto split: if_splits)
    with ok show ?thesis by (simp add: lidar_ok_def)
  next
    case idle: False
    show ?thesis
    proof (cases "opened \<and> spawn_error = None")
      case True
      then have "ok" "l_device l' = l_device l1" "l_running l'" "l_worker l' = Running"
        using assms(1) idle unfolding start by (auto split: if_splits)
      with k 1(1) show ?thesis by (simp add: lidar_ok_def)
    next
      case False
      then have "\<not> ok" "l_device l' = l_device l1 \<and> \<not> opened \<or> l_device l' = dev_close (l_device l1)"
        "\<not> l_running l'" "l_worker l' = l_worker l"
        using assms(1) idle w unfolding start by (auto split: if_splits)
      with idle ok(2) 1(1,2) closed_ok [OF 1(1)] show ?thesis by (auto simp: lidar_ok_def)
    qed
  qed
qed

lemma lidar_step_ok: "lidar_step callback st st' \<Longrightarrow> lidar_ok st \<Longrightarrow> lidar_ok st'"
proof (induction rule: lidar_step.induct)
  case (starts s spawn_error given l ok l' f c)
  show ?case by (rule lidar_start_ok [OF starts])
next
  case (iterates l it f c f' l' c')
  then have "device_ok (l_device l)" "f < kMaxConsecutiveGrabFailures" "l_running l" by (simp_all add: lidar_ok_def)
  from run_body_ok [OF iterates(3) this(1,2)] iterates show ?case by (simp add: lidar_ok_def)
next
  case (breaks l it f c f' l' c')
  then have "device_ok (l_device l)" "f < kMaxConsecutiveGrabFailures" by (simp_all add: lidar_ok_def)
  from run_body_ok [OF breaks(3) this] closed_ok show ?case by (simp add: lidar_ok_def lidar_run_exit_def)
qed (auto simp: lidar_ok_def lidar_run_exit_def stop_request_def stop_finish_def closed_ok)

lemma lidar_new_ok: "lidar_new st \<Longrightarrow> lidar_ok st"
proof -
  have "lidar_ok (Lidar config, 0, c)" for config :: lidar_config and c :: 'a
    using device_ok_start [of config] by (simp add: lidar_ok_def Lidar_def dev_isOpen_def RpLidarDevice_def)
  then show "lidar_new st \<Longrightarrow> lidar_ok st" by (cases st) (auto simp: lidar_new_def, metis)
qed

interpretation li: inductive_invariant lidar_new "lidar_step callback" lidar_ok
  by unfold_locales (rule lidar_new_ok, assumption, rule lidar_step_ok)

text \<open>
  C31: The device is released with the thread. Under any interleaving of \<open>start\<close>, \<open>stop\<close> and the
  acquisition thread's iterations, every SDK call is legal, \<open>isRunning\<close> says whether the thread is
  running, the failure counter stays below its limit, and whenever the thread is not running, after
  \<open>stop\<close>, after it left by itself, or after a failed \<open>start\<close>, no SDK object is alive.
\<close>
theorem lidar_releases_device:
  assumes "lidar_new st" "(lidar_step callback)\<^sup>*\<^sup>* st (l, f, c)"
  shows "(l_running l \<longleftrightarrow> l_worker l = Running) \<and>
    (l_running l \<longrightarrow> f < kMaxConsecutiveGrabFailures) \<and>
    (\<exists>s. replay (calls (l_device l)) sdk_start = Some s \<and>
       (\<not> l_running l \<longrightarrow> channels s = [] \<and> drivers s = []))"
proof -
  have ok: "lidar_ok (l, f, c)" by (rule li.reachable_inv [OF assms])
  then show ?thesis
    by (auto simp: lidar_ok_def device_ok_def dev_isOpen_def log_state_def alive_def)
qed

theorem lidar_releases_device_witness:
  "\<exists>l s. lidar_start (working_sdk []) None True (Lidar default_lidar_config) = Some (True, l) \<and>
     replay (calls (l_device (stop_finish (lidar_run_exit (stop_request l))))) sdk_start = Some s \<and>
     channels s = [] \<and> drivers s = []"
proof -
  let ?l0 = "Lidar default_lidar_config" and ?cb = "\<lambda>_ (u :: unit). (False, u)"
  have st: "\<exists>l. lidar_start (working_sdk []) None True ?l0 = Some (True, l) \<and> l_worker l = Running"
    by (simp add: lidar_start_def Lidar_def openDevice_def dev_open_def dev_close_def working_sdk_def
        RpLidarDevice_def joinable_def Let_def)
  then obtain l where l: "lidar_start (working_sdk []) None True ?l0 = Some (True, l)" "l_worker l = Running"
    by blast
  let ?l1 = "stop_request l" and ?l2 = "lidar_run_exit (stop_request l)"
  have s1: "lidar_step ?cb (?l0, 0, ()) (l, 0, ())" using starts [OF l(1), of ?cb 0 "()"] by simp
  have s2: "lidar_step ?cb (l, 0, ()) (?l1, 0, ())" by (rule requests)
  have s3: "lidar_step ?cb (?l1, 0, ()) (?l2, 0, ())" by (rule leaves) (simp_all add: stop_request_def l)
  have s4: "lidar_step ?cb (?l2, 0, ()) (stop_finish ?l2, 0, ())"
    by (rule joins) (simp_all add: lidar_run_exit_def stop_request_def)
  note cons = converse_rtranclp_into_rtranclp [where r = "lidar_step ?cb"]
  have steps: "(lidar_step ?cb)\<^sup>*\<^sup>* (?l0, 0, ()) (stop_finish ?l2, 0, ())"
    by (rule cons [OF s1 cons [OF s2 cons [OF s3 cons [OF s4 rtranclp.rtrancl_refl [where r = "lidar_step ?cb"]]]]])
  have "lidar_new (?l0, 0, ())" by (simp add: lidar_new_def Lidar_def)
  from lidar_releases_device [OF this steps]
  have "\<exists>s. replay (calls (l_device (stop_finish ?l2))) sdk_start = Some s \<and> channels s = [] \<and> drivers s = []"
    by (auto simp: stop_finish_def)
  with l(1) show ?thesis by blast
qed

text \<open>
  A thread that left by itself has not been joined, and \<open>start\<close> does not join it. Without
  \<open>auto_reconnect\<close>, once the fifth failed reading has ended the acquisition, \<open>isRunning\<close> is false and
  a \<open>start\<close> that finds the sensor again assigns a thread to a joinable one: the process terminates.
\<close>
lemma restart_terminates:
  assumes "l_worker l = Running" "\<not> l_stop_requested l" "\<not> auto_reconnect (l_config l)"
    and "failing it l" "\<not> f + 1 < kMaxConsecutiveGrabFailures"
    and "lidar_run callback (it # script) f l c = r"
    and "\<And>dev. fst (dev_open s dev)"
  shows "\<exists>l'. r = Inl (l', c) \<and> \<not> l_running l' \<and> lidar_start s None True l' = None"
proof -
  obtain ok l1 c1 where a: "acquireOnce callback (it_grab it) (it_now it) l c = (ok, l1, c1)" by (metis prod_cases3)
  have "grab_fails (it_grab it) (l_device l)" using assms(4) by (simp add: failing_def)
  note f = acquire_fails [OF this a]
  define l3 where "l3 = (count_read_error (l1\<lparr>l_stop_requested := l_stop_requested l1 \<or> it_stop it\<rparr>))
    \<lparr>l_device := dev_close (l_device l1)\<rparr>"
  have b: "lidar_run_body callback it f l c = (False, 0, l3, c1)"
    using run_body_cases(3) [OF a, of f] assms(3,5) f by (simp add: l3_def)
  then have r: "r = Inl (lidar_run_exit l3, c)" using assms(2,6) f by simp
  have "lidar_start s None True (lidar_run_exit l3) = None"
    using assms(7) by (auto simp: lidar_start_def lidar_run_exit_def openDevice_def joinable_def Let_def split: prod.splits)
      (metis fst_conv)
  with r show ?thesis by (simp add: lidar_run_exit_def)
qed

definition fragile_lidar :: lidar where
  "fragile_lidar = running_lidar\<lparr>l_config := default_lidar_config\<lparr>auto_reconnect := False\<rparr>\<rparr>"

lemma restart_terminates_witness:
  "\<exists>l'. lidar_run (\<lambda>_ (u :: unit). (False, u)) [silent_iteration] 4 fragile_lidar () = Inl (l', ()) \<and>
     lidar_start (working_sdk []) None True l' = None"
proof -
  obtain r where r: "lidar_run (\<lambda>_ (u :: unit). (False, u)) [silent_iteration] 4 fragile_lidar () = r" by blast
  have f: "failing silent_iteration fragile_lidar"
    by (simp add: failing_def grab_fails_def silent_iteration_def working_sdk_def)
  have o: "fst (dev_open (working_sdk []) dev)" for dev
    by (simp add: dev_open_def working_sdk_def Let_def)
  have "\<exists>l'. r = Inl (l', ()) \<and> \<not> l_running l' \<and> lidar_start (working_sdk []) None True l' = None"
    by (rule restart_terminates [OF _ _ _ f _ r o])
      (simp_all add: fragile_lidar_def running_lidar_def Lidar_def kMaxConsecutiveGrabFailures_def)
  with r show ?thesis by blast
qed

end
