(* ===== verification/BackOff.thy ===== *)
theory BackOff
  imports Lidar
begin

text \<open>
  How long \<open>Lidar::stop\<close> waits for the acquisition thread. \<open>Lidar\<close> takes an iteration of \<open>run\<close> as one step and
  leaves the back-off out; here the thread goes from one place to the next, down to the steps of \<open>wait_for\<close>
  on the condition variable, and \<open>stop\<close> sets the flag, notifies and joins in between. Time is not
  modelled: a timeout may come at any moment.
\<close>

section \<open>Places and steps\<close>

text \<open>
  The thread is before the test of the loop, in \<open>acquireOnce\<close>, behind the closing of the device, in one of
  the two calls of \<open>backOff\<close>, in \<open>openDevice\<close>, or past the loop. In \<open>backOff\<close>, \<open>wait_for\<close> tests the flag
  (\<open>Testing\<close>), found it down and has not begun to wait (\<open>Committed\<close>), or waits. It holds \<open>shutdown_mutex\<close> but
  while it waits; nobody else ever locks it.
\<close>

datatype back_off = BeforeOpen | AfterOpen
datatype place = LoopHead | Reading | Closed | Testing back_off | Committed back_off | Waiting back_off | Reopening | Gone

datatype controller = Away | FlagSet | NotifiedAll | Joined

text \<open>
  The flag, the places of both threads, the failure counter and whether the wait has been notified. The last
  three fields only observe: the readings, openings and waits begun since the flag was set.
\<close>

record stopping =
  sp_stop :: bool
  sp_place :: place
  sp_failures :: u32
  sp_notified :: bool
  sp_controller :: controller
  sp_reads :: nat
  sp_opens :: nat
  sp_waits :: nat

definition stopping_start :: stopping where
  "stopping_start = \<lparr>sp_stop = False, sp_place = LoopHead, sp_failures = 0, sp_notified = False, sp_controller = Away,
     sp_reads = 0, sp_opens = 0, sp_waits = 0\<rparr>"

text \<open>What the thread learns in a step: the result of a reading or an opening, why a wait ended, or nothing.\<close>

datatype answer = Proceeds | Reads bool | Opens bool | Notified | Spurious | TimedOut

definition late :: "stopping \<Rightarrow> nat" where
  "late s = (if sp_stop s then 1 else 0)"

text \<open>Back from \<open>backOff\<close>: the device is opened after the first one, the second ends the iteration.\<close>

fun backed_off :: "back_off \<Rightarrow> stopping \<Rightarrow> stopping" where
  "backed_off BeforeOpen s = s\<lparr>sp_place := Reopening, sp_opens := sp_opens s + late s\<rparr>"
| "backed_off AfterOpen s = s\<lparr>sp_place := LoopHead\<rparr>"

definition read_result :: "bool \<Rightarrow> stopping \<Rightarrow> stopping" where
  "read_result ok s =
     (if ok then s\<lparr>sp_failures := 0, sp_place := LoopHead\<rparr>
      else let failures = sp_failures s + 1 in
      if failures < kMaxConsecutiveGrabFailures then s\<lparr>sp_failures := failures, sp_place := LoopHead\<rparr>
      else s\<lparr>sp_failures := 0, sp_place := Closed\<rparr>)"

text \<open>One step of the thread, if the answer fits its place; the first argument is \<open>auto_reconnect\<close>.\<close>

definition thread_step :: "bool \<Rightarrow> answer \<Rightarrow> stopping \<Rightarrow> stopping option" where
  "thread_step auto ans s = (case (sp_place s, ans) of
     (LoopHead, Proceeds) \<Rightarrow>
       Some (if sp_stop s then s\<lparr>sp_place := Gone\<rparr> else s\<lparr>sp_place := Reading, sp_reads := sp_reads s + late s\<rparr>)
   | (Reading, Reads ok) \<Rightarrow> Some (read_result ok s)
   | (Closed, Proceeds) \<Rightarrow> Some (s\<lparr>sp_place := if \<not> auto \<or> sp_stop s then Gone else Testing BeforeOpen\<rparr>)
   | (Testing b, Proceeds) \<Rightarrow> Some (if sp_stop s then backed_off b s else s\<lparr>sp_place := Committed b\<rparr>)
   | (Committed b, Proceeds) \<Rightarrow> Some (s\<lparr>sp_place := Waiting b, sp_notified := False, sp_waits := sp_waits s + late s\<rparr>)
   | (Waiting b, Notified) \<Rightarrow> if sp_notified s then Some (s\<lparr>sp_place := Testing b\<rparr>) else None
   | (Waiting b, Spurious) \<Rightarrow> Some (s\<lparr>sp_place := Testing b\<rparr>)
   | (Waiting b, TimedOut) \<Rightarrow> Some (backed_off b s)
   | (Reopening, Opens ok) \<Rightarrow> Some (s\<lparr>sp_place := if ok then LoopHead else Testing AfterOpen\<rparr>)
   | _ \<Rightarrow> None)"

lemma thread_step_at:
  "sp_place s = LoopHead \<Longrightarrow> thread_step auto Proceeds s =
     Some (if sp_stop s then s\<lparr>sp_place := Gone\<rparr> else s\<lparr>sp_place := Reading, sp_reads := sp_reads s + late s\<rparr>)"
  "sp_place s = Reading \<Longrightarrow> thread_step auto (Reads ok) s = Some (read_result ok s)"
  "sp_place s = Closed \<Longrightarrow> thread_step auto Proceeds s =
     Some (s\<lparr>sp_place := if \<not> auto \<or> sp_stop s then Gone else Testing BeforeOpen\<rparr>)"
  "sp_place s = Testing b \<Longrightarrow> thread_step auto Proceeds s =
     Some (if sp_stop s then backed_off b s else s\<lparr>sp_place := Committed b\<rparr>)"
  "sp_place s = Committed b \<Longrightarrow> thread_step auto Proceeds s =
     Some (s\<lparr>sp_place := Waiting b, sp_notified := False, sp_waits := sp_waits s + late s\<rparr>)"
  "sp_place s = Waiting b \<Longrightarrow> thread_step auto Notified s = (if sp_notified s then Some (s\<lparr>sp_place := Testing b\<rparr>) else None)"
  "sp_place s = Waiting b \<Longrightarrow> thread_step auto Spurious s = Some (s\<lparr>sp_place := Testing b\<rparr>)"
  "sp_place s = Waiting b \<Longrightarrow> thread_step auto TimedOut s = Some (backed_off b s)"
  "sp_place s = Reopening \<Longrightarrow> thread_step auto (Opens ok) s = Some (s\<lparr>sp_place := if ok then LoopHead else Testing AfterOpen\<rparr>)"
  by (simp_all add: thread_step_def)

lemma thread_step_cases:
  assumes "thread_step auto ans s = Some s'"
  obtains (leaves) "sp_place s = LoopHead" "sp_stop s" "s' = s\<lparr>sp_place := Gone\<rparr>"
  | (reads) "sp_place s = LoopHead" "\<not> sp_stop s" "s' = s\<lparr>sp_place := Reading\<rparr>"
  | (result) ok where "sp_place s = Reading" "s' = read_result ok s"
  | (breaks) "sp_place s = Closed" "\<not> auto \<or> sp_stop s" "s' = s\<lparr>sp_place := Gone\<rparr>"
  | (recovers) "sp_place s = Closed" "\<not> sp_stop s" "s' = s\<lparr>sp_place := Testing BeforeOpen\<rparr>"
  | (no_wait) b where "sp_place s = Testing b" "sp_stop s" "s' = backed_off b s"
  | (commits) b where "sp_place s = Testing b" "\<not> sp_stop s" "s' = s\<lparr>sp_place := Committed b\<rparr>"
  | (waits) b where "sp_place s = Committed b" "s' = s\<lparr>sp_place := Waiting b, sp_notified := False, sp_waits := sp_waits s + late s\<rparr>"
  | (wakes) b where "sp_place s = Waiting b" "ans = Notified \<and> sp_notified s \<or> ans = Spurious" "s' = s\<lparr>sp_place := Testing b\<rparr>"
  | (times_out) b where "sp_place s = Waiting b" "ans = TimedOut" "s' = backed_off b s"
  | (opens) "sp_place s = Reopening" "s' \<in> {s\<lparr>sp_place := LoopHead\<rparr>, s\<lparr>sp_place := Testing AfterOpen\<rparr>}"
  using assms by (auto simp: thread_step_def late_def split: place.splits answer.splits if_splits)

fun thread_run :: "bool \<Rightarrow> answer list \<Rightarrow> stopping \<Rightarrow> stopping option" where
  "thread_run auto [] s = Some s"
| "thread_run auto (ans # answers) s = Option.bind (thread_step auto ans s) (thread_run auto answers)"

text \<open>The statements of \<open>stop\<close>. A notification reaches a thread only while it waits.\<close>

definition sets_flag :: "stopping \<Rightarrow> stopping" where
  "sets_flag s = s\<lparr>sp_stop := True, sp_controller := FlagSet\<rparr>"

definition notifies :: "stopping \<Rightarrow> stopping" where
  "notifies s = s\<lparr>sp_notified := sp_notified s \<or> (\<exists>b \<in> {BeforeOpen, AfterOpen}. sp_place s = Waiting b), sp_controller := NotifiedAll\<rparr>"

inductive stop_step :: "bool \<Rightarrow> stopping \<Rightarrow> stopping \<Rightarrow> bool" for auto where
  thread: "thread_step auto ans s = Some s' \<Longrightarrow> stop_step auto s s'"
| flag: "sp_controller s = Away \<Longrightarrow> stop_step auto s (sets_flag s)"
| notify: "sp_controller s = FlagSet \<Longrightarrow> stop_step auto s (notifies s)"
| join: "sp_controller s = NotifiedAll \<Longrightarrow> sp_place s = Gone \<Longrightarrow> stop_step auto s (s\<lparr>sp_controller := Joined\<rparr>)"

section \<open>The places are those of the loop\<close>

lemma acquire_keeps:
  assumes "acquireOnce cb sdk now l c = (acquired, l', c')"
  shows "l_config l' = l_config l" "l_stop_requested l' = l_stop_requested l"
proof -
  have "l_config l' = l_config l \<and> l_stop_requested l' = l_stop_requested l"
    using assms by (auto simp: acquireOnce_def deliverFrame_def Let_def split: if_splits prod.splits)
  then show "l_config l' = l_config l" "l_stop_requested l' = l_stop_requested l" by simp_all
qed

text \<open>An iteration of \<open>run\<close> without a request ends where the places lead with the same results.\<close>

lemma body_places:
  assumes body: "lidar_run_body cb it failures l c = (go_on, failures', l', c')" and "\<not> l_stop_requested l" "\<not> it_stop it"
    and s: "sp_place s = LoopHead" "sp_failures s = failures" "\<not> sp_stop s"
  shows "\<exists>answers s'. thread_run (auto_reconnect (l_config l)) answers s = Some s' \<and> sp_failures s' = failures' \<and>
    sp_place s' = (if go_on then LoopHead else Gone) \<and> \<not> sp_stop s'"
proof -
  obtain acquired l1 c1 where a: "acquireOnce cb (it_grab it) (it_now it) l c = (acquired, l1, c1)" by (metis prod_cases3)
  note l1 = acquire_keeps [OF a]
  let ?read = "s\<lparr>sp_place := Reading\<rparr>"
  have read: "thread_run auto (Proceeds # Reads acquired # answers) s = thread_run auto answers (read_result acquired ?read)" for auto answers
    using s by (simp add: thread_step_at late_def)
  consider "acquired" | "\<not> acquired" "failures + 1 < kMaxConsecutiveGrabFailures"
    | "\<not> acquired" "\<not> failures + 1 < kMaxConsecutiveGrabFailures" "auto_reconnect (l_config l)"
    | "\<not> acquired" "\<not> failures + 1 < kMaxConsecutiveGrabFailures" "\<not> auto_reconnect (l_config l)" by blast
  then show ?thesis
  proof cases
    case 1
    then have "go_on" "failures' = 0" using body by (simp_all add: lidar_run_body_def a Let_def)
    then show ?thesis using 1 s
      by (intro exI [of _ "[Proceeds, Reads acquired]"], unfold read) (simp add: read_result_def)
  next
    case 2
    then have "go_on" "failures' = failures + 1" using body by (simp_all add: lidar_run_body_def a Let_def)
    then show ?thesis using 2 s
      by (intro exI [of _ "[Proceeds, Reads acquired]"], unfold read) (simp add: read_result_def Let_def)
  next
    case 3
    then have "go_on" "failures' = 0"
      using body assms(2,3) l1 by (auto simp: lidar_run_body_def a Let_def split: prod.splits)
    then show ?thesis using 3 s
      by (intro exI [of _ "[Proceeds, Reads acquired, Proceeds, Proceeds, Proceeds, TimedOut, Opens True]"], unfold read)
        (simp add: read_result_def Let_def thread_step_at late_def)
  next
    case 4
    then have "\<not> go_on" "failures' = 0" using body assms(2,3) l1 by (simp_all add: lidar_run_body_def a Let_def)
    then show ?thesis using 4 s
      by (intro exI [of _ "[Proceeds, Reads acquired, Proceeds]"], unfold read) (simp add: read_result_def Let_def thread_step_at)
  qed
qed

section \<open>What is left to do once the flag is set\<close>

fun steps_left :: "place \<Rightarrow> nat" where
  "steps_left Gone = 0"
| "steps_left LoopHead = 1"
| "steps_left Closed = 1"
| "steps_left Reading = 2"
| "steps_left (Testing AfterOpen) = 2"
| "steps_left (Waiting AfterOpen) = 3"
| "steps_left (Committed AfterOpen) = 4"
| "steps_left Reopening = 3"
| "steps_left (Testing BeforeOpen) = 4"
| "steps_left (Waiting BeforeOpen) = 5"
| "steps_left (Committed BeforeOpen) = 6"

lemma steps_left_bound: "steps_left p \<le> 6"
  by (cases p rule: steps_left.cases) simp_all

lemma back_off_lemmas:
  "sp_stop (backed_off b s) = sp_stop s" "sp_controller (backed_off b s) = sp_controller s"
  "sp_waits (backed_off b s) = sp_waits s" "sp_reads (backed_off b s) = sp_reads s"
  "steps_left (sp_place (backed_off b s)) < steps_left (Testing b)"
  "steps_left (Testing b) < steps_left (Waiting b)" "steps_left (Waiting b) < steps_left (Committed b)"
  by (cases b; simp)+

lemma read_result_fields:
  "sp_stop (read_result ok s) = sp_stop s" "sp_controller (read_result ok s) = sp_controller s"
  "sp_waits (read_result ok s) = sp_waits s" "sp_reads (read_result ok s) = sp_reads s" "sp_opens (read_result ok s) = sp_opens s"
  "sp_place (read_result ok s) \<in> {LoopHead, Closed}"
  by (auto simp: read_result_def Let_def)

lemma thread_step_leaves:
  assumes "thread_step auto ans s = Some s'" "sp_stop s"
  shows "steps_left (sp_place s') < steps_left (sp_place s) \<and> sp_stop s'"
  using assms(1)
proof (cases rule: thread_step_cases)
  case (result ok)
  then show ?thesis using assms(2) read_result_fields(1,6) [of ok s] by auto
next
  case (times_out b)
  then show ?thesis using assms(2) back_off_lemmas(1) [of b s] back_off_lemmas(5) [of b s] back_off_lemmas(6) [of b] by simp
qed (use assms(2) back_off_lemmas in auto)

lemma thread_run_bound:
  "thread_run auto answers s = Some s' \<Longrightarrow> sp_stop s \<Longrightarrow> length answers + steps_left (sp_place s') \<le> steps_left (sp_place s)"
proof (induction answers arbitrary: s)
  case (Cons ans answers)
  then obtain t where t: "thread_step auto ans s = Some t" "thread_run auto answers t = Some s'" by (auto simp: bind_eq_Some_conv)
  from thread_step_leaves [OF t(1) Cons.prems(2)] Cons.IH [OF t(2)] show ?case by simp
qed simp

lemma thread_step_possible: "sp_place s \<noteq> Gone \<Longrightarrow> \<exists>ans s'. thread_step auto ans s = Some s'"
  by (cases "sp_place s") (metis thread_step_at)+

text \<open>What has been begun since the flag was set, and where the thread can then be.\<close>

definition late_ok :: "stopping \<Rightarrow> bool" where
  "late_ok s \<longleftrightarrow> sp_reads s = 0 \<and> sp_waits s \<le> 1 \<and> sp_opens s \<le> 1 \<and> (sp_stop s \<longleftrightarrow> sp_controller s \<noteq> Away) \<and>
     (\<not> sp_stop s \<longrightarrow> sp_waits s = 0 \<and> sp_opens s = 0) \<and>
     (sp_waits s = 1 \<longrightarrow> sp_place s \<notin> Committed ` UNIV) \<and>
     (sp_opens s = 1 \<longrightarrow> sp_place s \<notin> {Reading, Closed, Testing BeforeOpen, Committed BeforeOpen, Waiting BeforeOpen}) \<and>
     (sp_waits s = 0 \<and> sp_controller s \<in> {NotifiedAll, Joined} \<and> sp_place s \<in> Waiting ` UNIV \<longrightarrow> sp_notified s)"

lemma backed_off_ok:
  assumes "late_ok s" "sp_place s \<in> {Testing b, Waiting b}" "sp_place s = Testing b \<longrightarrow> sp_stop s"
  shows "late_ok (backed_off b s)"
  using assms by (cases b) (auto simp: late_ok_def late_def)

lemma thread_step_ok:
  assumes "thread_step auto ans s = Some s'" "late_ok s"
  shows "late_ok s'"
  using assms(1)
proof (cases rule: thread_step_cases)
  case (result ok)
  then show ?thesis using assms(2) read_result_fields [of ok s] by (auto simp: late_ok_def)
next
  case (no_wait b)
  then show ?thesis using backed_off_ok [OF assms(2)] by simp
next
  case (times_out b)
  then show ?thesis using backed_off_ok [OF assms(2)] by simp
next
  case (waits b)
  then show ?thesis using assms(2) by (auto simp: late_ok_def late_def)
next
  case opens
  have "late_ok (s\<lparr>sp_place := LoopHead\<rparr>)" "late_ok (s\<lparr>sp_place := Testing AfterOpen\<rparr>)"
    using assms(2) by (simp_all add: late_ok_def image_iff)
  with opens show ?thesis by blast
qed (use assms(2) in \<open>auto simp: late_ok_def\<close>)

lemma stop_step_ok: "stop_step auto s s' \<Longrightarrow> late_ok s \<Longrightarrow> late_ok s'"
proof (induction rule: stop_step.induct)
  case (thread ans s s')
  then show ?case by (rule thread_step_ok)
next
  case (notify s)
  have "\<exists>b \<in> {BeforeOpen, AfterOpen}. sp_place s = Waiting b" if "sp_place s = Waiting b" for b
    using that by (cases b) auto
  with notify show ?case by (auto simp: late_ok_def notifies_def)
qed (auto simp: late_ok_def sets_flag_def)

interpretation stop: inductive_invariant "\<lambda>s. s = stopping_start" "stop_step auto" late_ok for auto
  by unfold_locales (simp add: late_ok_def stopping_start_def, rule stop_step_ok)

section \<open>Properties\<close>

text \<open>
  C17: What \<open>stop\<close> waits for. Once the flag is set, the acquisition thread begins no reading, opens the
  device at most once more and begins at most one more wait; it takes at most six more steps, reaching
  its end if each returns, and it can always take the next. A wait begun before the flag was set has
  been notified when the notification is done. So \<open>stop\<close> joins after at most the reading in progress, one
  back-off and one opening.
\<close>
theorem stop_latency:
  assumes "(stop_step auto)\<^sup>*\<^sup>* stopping_start s" "sp_stop s"
  shows "sp_reads s = 0 \<and> sp_opens s \<le> 1 \<and> sp_waits s \<le> 1 \<and>
    (\<forall>answers s'. thread_run auto answers s = Some s' \<longrightarrow> length answers \<le> 6) \<and>
    (sp_place s = Gone \<or> (\<exists>ans s'. thread_step auto ans s = Some s')) \<and>
    (sp_waits s = 0 \<and> sp_controller s = NotifiedAll \<and> (\<exists>b. sp_place s = Waiting b) \<longrightarrow> sp_notified s)"
proof -
  have ok: "late_ok s" by (rule stop.reachable_inv [OF refl assms(1)])
  have "length answers \<le> 6" if "thread_run auto answers s = Some s'" for answers s'
    using thread_run_bound [OF that assms(2)] steps_left_bound [of "sp_place s"] by linarith
  then show ?thesis using ok thread_step_possible [of s auto] by (auto simp: late_ok_def)
qed

text \<open>The fifth failure in a row, up to the point where the flag has been found down.\<close>

definition five_failures :: "answer list" where
  "five_failures = [Proceeds, Reads False, Proceeds, Reads False, Proceeds, Reads False, Proceeds, Reads False,
     Proceeds, Reads False, Proceeds, Proceeds]"

definition about_to_wait :: stopping where
  "about_to_wait = stopping_start\<lparr>sp_place := Committed BeforeOpen\<rparr>"

lemma about_to_wait_run: "thread_run True five_failures stopping_start = Some about_to_wait"
  by (simp add: five_failures_def stopping_start_def about_to_wait_def thread_step_at read_result_def late_def
      kMaxConsecutiveGrabFailures_def Let_def)

lemma thread_run_steps: "thread_run auto answers s = Some s' \<Longrightarrow> (stop_step auto)\<^sup>*\<^sup>* s s'"
proof (induction answers arbitrary: s)
  case (Cons ans answers)
  then obtain t where t: "thread_step auto ans s = Some t" "thread_run auto answers t = Some s'" by (auto simp: bind_eq_Some_conv)
  show ?case by (rule converse_rtranclp_into_rtranclp [OF thread [OF t(1)] Cons.IH [OF t(2)]])
qed simp

theorem stop_latency_witness:
  "length [Proceeds, TimedOut, Opens False, Proceeds, Proceeds] \<le> 6 \<and>
   thread_run True [Proceeds, TimedOut, Opens False, Proceeds, Proceeds] (sets_flag about_to_wait) \<noteq> None"
proof -
  have "(stop_step True)\<^sup>*\<^sup>* stopping_start (sets_flag about_to_wait)"
    by (rule rtranclp.rtrancl_into_rtrancl [OF thread_run_steps [OF about_to_wait_run] flag])
      (simp add: about_to_wait_def stopping_start_def)
  from stop_latency [OF this] have bound: "thread_run True answers (sets_flag about_to_wait) = Some s' \<longrightarrow> length answers \<le> 6" for answers s'
    by (simp add: sets_flag_def)
  obtain s' where "thread_run True [Proceeds, TimedOut, Opens False, Proceeds, Proceeds] (sets_flag about_to_wait) = Some s'"
    by (simp add: about_to_wait_def stopping_start_def sets_flag_def thread_step_at late_def)
  with bound show ?thesis by blast
qed

text \<open>
  C18: The notification can be lost. \<open>stop\<close> sets the flag and notifies without holding the mutex of the
  condition variable. If it does both after \<open>wait_for\<close> has found the flag down and before it waits, the
  notification reaches nobody: the thread waits with the request in place, nothing but the timeout or a
  spurious wakeup ends the wait, and \<open>stop\<close> is held up for the whole back-off.
\<close>
theorem notification_lost:
  "\<exists>s. (stop_step True)\<^sup>*\<^sup>* stopping_start s \<and> sp_stop s \<and> sp_controller s = NotifiedAll \<and> sp_place s = Waiting BeforeOpen \<and>
     (\<forall>ans s'. thread_step True ans s = Some s' \<longrightarrow> ans \<in> {Spurious, TimedOut}) \<and>
     (\<forall>s'. stop_step True s s' \<longrightarrow> (\<exists>ans \<in> {Spurious, TimedOut}. thread_step True ans s = Some s'))"
proof -
  let ?s = "(notifies (sets_flag about_to_wait))\<lparr>sp_place := Waiting BeforeOpen, sp_notified := False, sp_waits := 1\<rparr>"
  note into = rtranclp.rtrancl_into_rtrancl [where r = "stop_step True"]
  have "(stop_step True)\<^sup>*\<^sup>* stopping_start (sets_flag about_to_wait)"
    by (rule into [OF thread_run_steps [OF about_to_wait_run] flag]) (simp add: about_to_wait_def stopping_start_def)
  then have "(stop_step True)\<^sup>*\<^sup>* stopping_start (notifies (sets_flag about_to_wait))"
    by (rule into [OF _ notify]) (simp add: sets_flag_def)
  then have run: "(stop_step True)\<^sup>*\<^sup>* stopping_start ?s"
    by (rule into [OF _ thread [of True Proceeds]])
      (simp add: thread_step_def notifies_def sets_flag_def about_to_wait_def stopping_start_def late_def)
  have only: "ans \<in> {Spurious, TimedOut}" if "thread_step True ans ?s = Some s'" for ans s'
    using that by (cases rule: thread_step_cases) auto
  have "\<exists>ans \<in> {Spurious, TimedOut}. thread_step True ans ?s = Some s'" if "stop_step True ?s s'" for s'
    using that
  proof cases
    case (thread ans)
    then show ?thesis using only by blast
  qed (simp_all add: notifies_def)
  with run only show ?thesis by (intro exI [of _ ?s]) (simp add: notifies_def sets_flag_def)
qed

text \<open>At that state: no notification can be received, the timeout can come.\<close>

theorem notification_lost_witness:
  "\<exists>s. (stop_step True)\<^sup>*\<^sup>* stopping_start s \<and> sp_stop s \<and> thread_step True Notified s = None \<and>
     thread_step True TimedOut s = Some (s\<lparr>sp_place := Reopening, sp_opens := sp_opens s + 1\<rparr>)"
proof -
  obtain s where s: "(stop_step True)\<^sup>*\<^sup>* stopping_start s" "sp_stop s" "sp_place s = Waiting BeforeOpen"
    "\<forall>ans s'. thread_step True ans s = Some s' \<longrightarrow> ans \<in> {Spurious, TimedOut}"
    using notification_lost by blast
  have "thread_step True Notified s = None" using s(4) by (cases "thread_step True Notified s") auto
  moreover have "thread_step True TimedOut s = Some (s\<lparr>sp_place := Reopening, sp_opens := sp_opens s + 1\<rparr>)"
    using s(2,3) by (simp add: thread_step_at late_def)
  ultimately show ?thesis using s(1,2) by blast
qed

end
