(* ===== verification/Posix.thy ===== *)
theory Posix
  imports Prelude
begin

text \<open>
  The part of POSIX the node relies on, as the code sees it: a system call returns a value or
  fails with an \<open>errno\<close>, and the kernel keeps the set of open descriptors of the process. What a
  call returns is decided by the environment; the theories that model the callers take these
  answers as arguments, or as a script of answers where a call sits in a loop.
\<close>

text \<open>
  The \<open>errno\<close> values the code distinguishes, and every other one by its \<open>strerror\<close> text. On Linux
  \<open>EWOULDBLOCK\<close> is \<open>EAGAIN\<close>.
\<close>

datatype errno = EINTR | EAGAIN | Errno string

fun strerror :: "errno \<Rightarrow> string" where
  "strerror EINTR = ''Interrupted system call''"
| "strerror EAGAIN = ''Resource temporarily unavailable''"
| "strerror (Errno text) = text"

datatype 'a sys_result = Done 'a | Fail errno

text \<open>
  The descriptor table: the open descriptors, and whether \<open>close\<close> was ever called on a number that
  was not open (a double close, which could hit another owner's descriptor).
\<close>

record os =
  open_fds :: "int set"
  bad_close :: bool

definition os_open :: "int \<Rightarrow> os \<Rightarrow> os" where
  "os_open fd os = os\<lparr>open_fds := insert fd (open_fds os)\<rparr>"

definition os_close :: "int \<Rightarrow> os \<Rightarrow> os" where
  "os_close fd os =
     (if fd \<in> open_fds os then os\<lparr>open_fds := open_fds os - {fd}\<rparr> else os\<lparr>bad_close := True\<rparr>)"

text \<open>A call that returns a descriptor returns one that was not open.\<close>

definition fresh_fd :: "os \<Rightarrow> int sys_result \<Rightarrow> bool" where
  "fresh_fd os r \<longleftrightarrow> (case r of Done fd \<Rightarrow> 0 \<le> fd \<and> fd \<notin> open_fds os | Fail _ \<Rightarrow> True)"

text \<open>The descriptor a call returned, \<open>-1\<close> when it failed, and the table after it.\<close>

fun fd_of :: "int sys_result \<Rightarrow> int" where
  "fd_of (Done fd) = fd"
| "fd_of (Fail e) = - 1"

fun opened :: "int sys_result \<Rightarrow> os \<Rightarrow> os" where
  "opened (Done fd) os = os_open fd os"
| "opened (Fail e) os = os"

lemma os_open_close [simp]: "fd \<notin> open_fds os \<Longrightarrow> os_close fd (os_open fd os) = os"
  by (simp add: os_open_def os_close_def)

lemma os_open_simps [simp]:
  "open_fds (os_open fd os) = insert fd (open_fds os)" "bad_close (os_open fd os) = bad_close os"
  by (simp_all add: os_open_def)

lemma os_close_simps [simp]:
  "open_fds (os_close fd os) = open_fds os - {fd}"
  "bad_close (os_close fd os) \<longleftrightarrow> bad_close os \<or> fd \<notin> open_fds os"
  by (auto simp: os_close_def)

end
