(* ===== verification/CanBus.thy ===== *)
theory CanBus
  imports Posix
begin

text \<open>
  The CAN transmitter, \<open>canbus/CanMessage.hpp\<close> and \<open>canbus/CanBus.cpp\<close>: opening a raw SocketCAN
  socket, closing it, and sending one classical frame without blocking. The four kernel calls of
  \<open>open\<close> and the \<open>send\<close> call are a record of their answers, as functions of what the code passes.
\<close>

section \<open>Messages\<close>

definition kCanMaxDlc :: u8 where
  "kCanMaxDlc = 8"

record can_message =
  msg_id :: u32
  msg_dlc :: u8
  msg_data :: bytes

text \<open>\<open>CanMessage{}\<close>: the array \<open>data\<close> has eight bytes, all zero.\<close>

definition default_message :: can_message where
  "default_message = \<lparr>msg_id = 0, msg_dlc = 0, msg_data = replicate 8 0\<rparr>"

text \<open>The kernel's \<open>struct can_frame\<close>, without its padding, which stays zero.\<close>

record can_frame =
  can_id :: u32
  can_dlc :: u8
  can_data :: bytes

definition sizeof_can_frame :: int where
  "sizeof_can_frame = 16"

section \<open>Code\<close>

record can_bus =
  interface :: string
  can_fd :: int
  can_error :: string

record can_kernel =
  k_socket :: "int sys_result"
  k_ifindex :: "string \<Rightarrow> int sys_result"
  k_bind :: "int \<Rightarrow> unit sys_result"
  k_send :: "can_frame \<Rightarrow> int sys_result"

definition IFNAMSIZ :: nat where
  "IFNAMSIZ = 16"

definition describeErrno :: "string \<Rightarrow> errno \<Rightarrow> string" where
  "describeErrno context err = context @ '': '' @ strerror err"

text \<open>\<open>CanBus(config)\<close>.\<close>

definition CanBus :: "string \<Rightarrow> can_bus" where
  "CanBus config_interface = \<lparr>interface = config_interface, can_fd = - 1, can_error = []\<rparr>"

definition isOpen :: "can_bus \<Rightarrow> bool" where
  "isOpen bus \<longleftrightarrow> 0 \<le> can_fd bus"

text \<open>
  The interface name the \<open>ioctl\<close> receives: \<open>strncpy\<close> stops at a terminating zero character, and the
  zero-initialised array keeps it terminated.
\<close>

definition ifr_name :: "string \<Rightarrow> string" where
  "ifr_name name = take (IFNAMSIZ - 1) (takeWhile (\<lambda>c. c \<noteq> CHR 0x00) name)"

text \<open>A failure of \<open>open\<close> after the socket exists: it is closed and the message kept.\<close>

definition open_failed :: "string \<Rightarrow> can_bus \<Rightarrow> os \<Rightarrow> bool \<times> can_bus \<times> os" where
  "open_failed message bus os =
     (False, bus\<lparr>can_error := message, can_fd := - 1\<rparr>, os_close (can_fd bus) os)"

definition can_open :: "can_kernel \<Rightarrow> can_bus \<Rightarrow> os \<Rightarrow> bool \<times> can_bus \<times> os" where
  "can_open k bus os =
     (if 0 \<le> can_fd bus then (False, bus\<lparr>can_error := ''already open''\<rparr>, os)
      else case k_socket k of
        Fail e \<Rightarrow> (False, bus\<lparr>can_fd := - 1, can_error := describeErrno ''socket(PF_CAN)'' e\<rparr>, os)
      | Done fd \<Rightarrow>
          let bus = bus\<lparr>can_fd := fd\<rparr>; os = os_open fd os in
          if IFNAMSIZ \<le> length (interface bus)
          then open_failed (''interface name too long: '' @ interface bus) bus os
          else case k_ifindex k (ifr_name (interface bus)) of
            Fail e \<Rightarrow> open_failed (describeErrno (''ioctl(SIOCGIFINDEX) on '' @ interface bus) e) bus os
          | Done ifindex \<Rightarrow>
              (case k_bind k ifindex of
                Fail e \<Rightarrow> open_failed (describeErrno (''bind on '' @ interface bus) e) bus os
              | Done _ \<Rightarrow> (True, bus\<lparr>can_error := []\<rparr>, os)))"

definition can_close :: "can_bus \<Rightarrow> os \<Rightarrow> can_bus \<times> os" where
  "can_close bus os =
     (if 0 \<le> can_fd bus then (bus\<lparr>can_fd := - 1\<rparr>, os_close (can_fd bus) os) else (bus, os))"

text \<open>The destructor.\<close>

definition can_destroy :: "can_bus \<Rightarrow> os \<Rightarrow> os" where
  "can_destroy bus os = snd (can_close bus os)"

text \<open>The \<open>can_frame\<close> built from a message: \<open>memcpy\<close> of at most eight bytes into a zeroed array.\<close>

definition frame_of :: "can_message \<Rightarrow> can_frame" where
  "frame_of msg =
     (let n = unat (if msg_dlc msg \<le> kCanMaxDlc then msg_dlc msg else kCanMaxDlc)
      in \<lparr>can_id = msg_id msg, can_dlc = msg_dlc msg,
          can_data = take n (msg_data msg) @ drop n (replicate 8 0)\<rparr>)"

text \<open>\<open>send\<close>: the frame handed to the kernel, if any, and the result.\<close>

definition can_send :: "can_kernel \<Rightarrow> can_bus \<Rightarrow> can_message \<Rightarrow> can_frame option \<times> bool" where
  "can_send k bus msg =
     (if can_fd bus < 0 then (None, False)
      else let frame = frame_of msg
           in (Some frame, case k_send k frame of Done sent \<Rightarrow> sent = sizeof_can_frame | Fail _ \<Rightarrow> False))"

definition can_lastError :: "can_bus \<Rightarrow> string" where
  [simp]: "can_lastError bus = can_error bus"

section \<open>Ownership of the socket\<close>

text \<open>The bus owns its socket, next to the descriptors \<open>base\<close> of the rest of the process.\<close>

definition bus_ok :: "int set \<Rightarrow> can_bus \<Rightarrow> os \<Rightarrow> bool" where
  "bus_ok base bus os \<longleftrightarrow> \<not> bad_close os \<and> can_fd bus \<notin> base \<and>
     open_fds os = base \<union> (if 0 \<le> can_fd bus then {can_fd bus} else {})"

lemma bus_okI: "open_fds os = base \<Longrightarrow> \<not> bad_close os \<Longrightarrow> (\<And>fd. fd \<in> base \<Longrightarrow> 0 \<le> fd) \<Longrightarrow>
    bus_ok base (CanBus name) os"
  by (force simp: bus_ok_def CanBus_def)

lemma can_open_ok:
  assumes "bus_ok base bus os" "fresh_fd os (k_socket k)" "\<forall>fd \<in> base. 0 \<le> fd"
    and "can_open k bus os = (ok, bus', os')"
  shows "bus_ok base bus' os'" "interface bus' = interface bus" "ok \<Longrightarrow> isOpen bus'"
  using assms
  by (auto simp: can_open_def bus_ok_def fresh_fd_def open_failed_def isOpen_def Let_def
      split: if_splits sys_result.splits)

lemma can_close_ok:
  assumes "bus_ok base bus os" "\<forall>fd \<in> base. 0 \<le> fd" "can_close bus os = (bus', os')"
  shows "bus_ok base bus' os'" "\<not> isOpen bus'" "open_fds os' = base" "interface bus' = interface bus"
  using assms by (auto simp: can_close_def bus_ok_def isOpen_def split: if_splits)

text \<open>Any use of one bus: the kernel hands out fresh descriptors, and nothing else touches its socket.\<close>

inductive bus_step :: "int set \<times> can_bus \<times> os \<Rightarrow> int set \<times> can_bus \<times> os \<Rightarrow> bool" where
  open_step: "fresh_fd os (k_socket k) \<Longrightarrow> can_open k bus os = (ok, bus', os') \<Longrightarrow>
    bus_step (base, bus, os) (base, bus', os')"
| close_step: "can_close bus os = (bus', os') \<Longrightarrow> bus_step (base, bus, os) (base, bus', os')"
| send_step: "can_send k bus msg = (out, ok) \<Longrightarrow> bus_step (base, bus, os) (base, bus, os)"

definition bus_start :: "int set \<times> can_bus \<times> os \<Rightarrow> bool" where
  "bus_start st \<longleftrightarrow> (case st of (base, bus, os) \<Rightarrow>
     open_fds os = base \<and> \<not> bad_close os \<and> (\<forall>fd \<in> base. 0 \<le> fd) \<and> bus = CanBus (interface bus))"

definition bus_inv :: "int set \<times> can_bus \<times> os \<Rightarrow> bool" where
  "bus_inv st \<longleftrightarrow> (case st of (base, bus, os) \<Rightarrow> bus_ok base bus os \<and> (\<forall>fd \<in> base. 0 \<le> fd))"

lemma bus_start_inv: "bus_start st \<Longrightarrow> bus_inv st"
  by (cases st) (auto simp: bus_start_def bus_inv_def, metis bus_okI)

lemma bus_step_inv: "bus_step st st' \<Longrightarrow> bus_inv st \<Longrightarrow> bus_inv st'"
  by (induction rule: bus_step.induct) (auto simp: bus_inv_def dest: can_open_ok can_close_ok)

interpretation bus: inductive_invariant bus_start bus_step bus_inv
  by unfold_locales (rule bus_start_inv, assumption, rule bus_step_inv)

section \<open>Properties\<close>

text \<open>
  \<open>open\<close> is all or nothing. It succeeds exactly when the bus is closed, the name fits and every
  kernel call succeeds; then the bus owns the new socket and the error is cleared. When it fails on
  a closed bus, the bus is closed, an error is recorded and the descriptor table is as before: each
  early return closes the socket.
\<close>
lemma can_open_outcome:
  assumes "fresh_fd os (k_socket k)" "can_open k bus os = (ok, bus', os')"
  shows "(ok \<longleftrightarrow> \<not> isOpen bus \<and> length (interface bus) < IFNAMSIZ \<and>
            (\<exists>fd i. k_socket k = Done fd \<and> k_ifindex k (ifr_name (interface bus)) = Done i \<and> k_bind k i = Done ())) \<and>
    (ok \<longrightarrow> k_socket k = Done (can_fd bus') \<and> os' = os_open (can_fd bus') os \<and> can_error bus' = []) \<and>
    (\<not> ok \<longrightarrow> os' = os \<and> can_error bus' \<noteq> [] \<and> (isOpen bus' \<longleftrightarrow> isOpen bus))"
  using assms
  by (auto simp: can_open_def isOpen_def fresh_fd_def open_failed_def describeErrno_def Let_def
      split: if_splits sys_result.splits)

definition sample_kernel :: can_kernel where
  "sample_kernel =
     \<lparr>k_socket = Done 3, k_ifindex = (\<lambda>name. if name = ''can0'' then Done 7 else Fail (Errno ''No such device'')),
      k_bind = (\<lambda>_. Done ()), k_send = (\<lambda>_. Done 16)\<rparr>"

text \<open>
  The bus never leaks or double-closes a socket. After any sequence of opens (whatever the kernel
  answers), closes and sends, the descriptors open in the process are those of the rest of the
  process and the bus's own socket; the destructor's \<open>close\<close> then leaves only the former.
\<close>
lemma can_bus_no_leak:
  assumes "bus_start (base, bus, os)" "bus_step\<^sup>*\<^sup>* (base, bus, os) (base', bus', os')"
  shows "\<not> bad_close os' \<and> open_fds os' = base' \<union> (if isOpen bus' then {can_fd bus'} else {}) \<and>
    open_fds (snd (can_close bus' os')) = base' \<and> \<not> bad_close (snd (can_close bus' os'))"
proof -
  have "bus_inv (base', bus', os')" by (rule bus.reachable_inv [OF assms])
  then have ok: "bus_ok base' bus' os'" "\<forall>fd \<in> base'. 0 \<le> fd" by (simp_all add: bus_inv_def)
  obtain bus'' os'' where c: "can_close bus' os' = (bus'', os'')" by fastforce
  from ok can_close_ok [OF ok c] c show ?thesis by (auto simp: bus_ok_def isOpen_def)
qed

text \<open>What reaches the wire for a message whose array has its eight bytes.\<close>

lemma frame_of_bytes:
  assumes "length (msg_data msg) = 8" "i < 8"
  shows "length (can_data (frame_of msg)) = 8"
    "can_data (frame_of msg) ! i = (if i < min (unat (msg_dlc msg)) 8 then msg_data msg ! i else 0)"
proof -
  let ?n = "unat (if msg_dlc msg \<le> kCanMaxDlc then msg_dlc msg else kCanMaxDlc)"
  have n: "?n = min (unat (msg_dlc msg)) 8" by (simp add: kCanMaxDlc_def word_le_nat_alt)
  have d: "can_data (frame_of msg) = take ?n (msg_data msg) @ drop ?n (replicate 8 0)"
    by (simp add: frame_of_def Let_def)
  show "length (can_data (frame_of msg)) = 8" unfolding d n using assms by simp
  show "can_data (frame_of msg) ! i = (if i < min (unat (msg_dlc msg)) 8 then msg_data msg ! i else 0)"
    unfolding d n using assms by (simp add: nth_append)
qed

end
