(* ===== verification/FileDescriptor.thy ===== *)
theory FileDescriptor
  imports Posix "HOL-Library.Multiset"
begin

text \<open>
  Sole ownership of a descriptor, \<open>network/FileDescriptor.hpp\<close>. A \<open>FileDescriptor\<close> is its
  field \<open>fd_\<close>; every operation that may close one takes the descriptor table along. The second part
  puts owners side by side and shows that the class keeps its promise: a descriptor has at most one
  owner, is closed at most once, and is open exactly as long as somebody owns it.
\<close>

section \<open>Code\<close>

type_synonym file_descriptor = int

definition FileDescriptor :: "int \<Rightarrow> file_descriptor" where
  "FileDescriptor fd = fd"

definition empty_fd :: file_descriptor where
  "empty_fd = - 1"

definition fd_get :: "file_descriptor \<Rightarrow> int" where
  "fd_get fd = fd"

definition fd_valid :: "file_descriptor \<Rightarrow> bool" where
  "fd_valid fd \<longleftrightarrow> 0 \<le> fd"

definition fd_reset :: "file_descriptor \<Rightarrow> os \<Rightarrow> file_descriptor \<times> os" where
  "fd_reset fd os = (if 0 \<le> fd then (- 1, os_close fd os) else (fd, os))"

text \<open>The destructor, and what it leaves of the table.\<close>

definition fd_destroy :: "file_descriptor \<Rightarrow> os \<Rightarrow> os" where
  "fd_destroy fd os = snd (fd_reset fd os)"

text \<open>The move constructor: the new owner, and the source left empty.\<close>

definition fd_move :: "file_descriptor \<Rightarrow> file_descriptor \<times> file_descriptor" where
  "fd_move other = (other, - 1)"

text \<open>Move assignment between two different objects: the target, the source, the table.\<close>

definition fd_move_assign ::
  "file_descriptor \<Rightarrow> file_descriptor \<Rightarrow> os \<Rightarrow> file_descriptor \<times> file_descriptor \<times> os" where
  "fd_move_assign this other os = (case fd_reset this os of (_, os) \<Rightarrow> (other, - 1, os))"

definition fd_release :: "file_descriptor \<Rightarrow> int \<times> file_descriptor" where
  "fd_release fd = (fd, - 1)"

text \<open>\<open>setNonBlocking\<close>, with the two \<open>fcntl\<close> calls as arguments; \<open>O_NONBLOCK\<close> is 04000 on Linux.\<close>

definition O_NONBLOCK :: int where
  "O_NONBLOCK = 2048"

definition setNonBlocking :: "(int \<Rightarrow> int) \<Rightarrow> (int \<Rightarrow> int \<Rightarrow> int) \<Rightarrow> file_descriptor \<Rightarrow> bool" where
  "setNonBlocking getfl setfl fd =
     (let flags = getfl fd in if flags < 0 then False else setfl fd (flags OR O_NONBLOCK) = 0)"

lemmas fd_defs = FileDescriptor_def empty_fd_def fd_get_def fd_valid_def fd_reset_def fd_move_def
  fd_move_assign_def fd_release_def fd_destroy_def

section \<open>Owners side by side\<close>

text \<open>
  The objects of a program by a number, the descriptors that were released to somebody else, and
  the table. An object that was not constructed, or was destroyed, is empty.
\<close>

record owners =
  owner :: "nat \<Rightarrow> file_descriptor"
  released :: "int set"
  table :: os

text \<open>The operations of the class, on the owner numbered \<open>i\<close>.\<close>

definition construct :: "nat \<Rightarrow> int \<Rightarrow> owners \<Rightarrow> owners" where
  "construct i fd s = s\<lparr>owner := (owner s)(i := FileDescriptor fd)\<rparr>"

definition reset_owner :: "nat \<Rightarrow> owners \<Rightarrow> owners" where
  "reset_owner i s = (case fd_reset (owner s i) (table s) of
     (fd, os) \<Rightarrow> s\<lparr>owner := (owner s)(i := fd), table := os\<rparr>)"

definition move_construct :: "nat \<Rightarrow> nat \<Rightarrow> owners \<Rightarrow> owners" where
  "move_construct i j s = (case fd_move (owner s j) of
     (fd, rest) \<Rightarrow> s\<lparr>owner := (owner s)(i := fd, j := rest)\<rparr>)"

text \<open>Self-assignment is the no-op the class tests for.\<close>

definition move_assign :: "nat \<Rightarrow> nat \<Rightarrow> owners \<Rightarrow> owners" where
  "move_assign i j s =
     (if i = j then s
      else (case fd_move_assign (owner s i) (owner s j) (table s) of
        (fd, rest, os) \<Rightarrow> s\<lparr>owner := (owner s)(i := fd, j := rest), table := os\<rparr>))"

definition release_owner :: "nat \<Rightarrow> owners \<Rightarrow> owners" where
  "release_owner i s = (case fd_release (owner s i) of
     (fd, rest) \<Rightarrow> s\<lparr>owner := (owner s)(i := rest),
       released := (if 0 \<le> fd then insert fd (released s) else released s)\<rparr>)"

text \<open>
  What a program may do. An object is constructed empty, from a failed call (\<open>-1\<close>), from a
  descriptor the kernel has just opened, or by a move, where no other object is; the holder of a
  released descriptor may close it; the destructor is \<open>reset\<close>.
\<close>

inductive owner_step :: "owners \<Rightarrow> owners \<Rightarrow> bool" where
  construct_empty: "owner s i < 0 \<Longrightarrow> owner_step s (construct i (- 1) s)"
| construct_opened: "owner s i < 0 \<Longrightarrow> fresh_fd (table s) (Done fd) \<Longrightarrow>
    owner_step s (construct i fd (s\<lparr>table := os_open fd (table s)\<rparr>))"
| move_construct: "owner s i < 0 \<Longrightarrow> i \<noteq> j \<Longrightarrow> owner_step s (move_construct i j s)"
| move_assign: "owner_step s (move_assign i j s)"
| reset_owner: "owner_step s (reset_owner i s)"
| release_owner: "owner_step s (release_owner i s)"
| foreign_close: "fd \<in> released s \<Longrightarrow>
    owner_step s (s\<lparr>released := released s - {fd}, table := os_close fd (table s)\<rparr>)"

inductive_cases owner_stepE: "owner_step s t"

definition owners_start :: "owners \<Rightarrow> bool" where
  "owners_start s \<longleftrightarrow> (\<forall>i. owner s i < 0) \<and> open_fds (table s) = released s \<and> \<not> bad_close (table s) \<and>
     (\<forall>fd \<in> released s. 0 \<le> fd)"

text \<open>No descriptor twice, and the descriptors held.\<close>

definition single :: "(nat \<Rightarrow> int) \<Rightarrow> bool" where
  "single f \<longleftrightarrow> (\<forall>i j. 0 \<le> f i \<longrightarrow> f i = f j \<longrightarrow> i = j)"

definition held :: "(nat \<Rightarrow> int) \<Rightarrow> int set" where
  "held f = {fd. 0 \<le> fd \<and> (\<exists>i. f i = fd)}"

definition owners_ok :: "owners \<Rightarrow> bool" where
  "owners_ok s \<longleftrightarrow> single (owner s) \<and> open_fds (table s) = held (owner s) \<union> released s \<and>
     held (owner s) \<inter> released s = {} \<and> \<not> bad_close (table s) \<and> (\<forall>fd \<in> released s. 0 \<le> fd)"

lemma owners_start_ok:
  assumes "owners_start s"
  shows "owners_ok s"
proof -
  have neg: "owner s i < 0" for i using assms by (simp add: owners_start_def)
  have "single (owner s)" unfolding single_def using neg by (metis not_le)
  moreover have "held (owner s) = {}" unfolding held_def using neg by (auto simp: not_le)
  ultimately show ?thesis using assms by (simp add: owners_start_def owners_ok_def)
qed

lemma held_at: "0 \<le> f i \<Longrightarrow> f i \<in> held f"
  by (auto simp: held_def)

lemma held_negative: "fd < 0 \<Longrightarrow> held f - {fd} = held f"
  by (auto simp: held_def)

lemma single_drop: "single f \<Longrightarrow> fd < 0 \<Longrightarrow> single (f(i := fd))"
  by (simp add: single_def)

lemma held_drop: "single f \<Longrightarrow> fd < 0 \<Longrightarrow> held (f(i := fd)) = held f - {f i}"
  unfolding single_def held_def by (rule set_eqI) (auto split: if_splits)

lemma single_put: "single f \<Longrightarrow> fd \<notin> held f \<Longrightarrow> single (f(i := fd))"
  by (auto simp: single_def held_def)

lemma held_put: "f i < 0 \<Longrightarrow> 0 \<le> fd \<Longrightarrow> held (f(i := fd)) = insert fd (held f)"
  unfolding held_def by (rule set_eqI) (auto, metis not_le)

lemma reset_owner_ok:
  assumes "owners_ok s"
  shows "owners_ok (reset_owner i s)"
proof (cases "0 \<le> owner s i")
  case True
  with assms held_at [of "owner s" i] show ?thesis
    by (auto simp: owners_ok_def reset_owner_def fd_reset_def single_drop held_drop)
next
  case False
  then show ?thesis using assms by (simp add: reset_owner_def fd_reset_def)
qed

lemma reset_owner_at: "owner (reset_owner i s) i < 0"
  "owner (reset_owner i s) = (owner s)(i := owner (reset_owner i s) i)"
  "released (reset_owner i s) = released s"
  by (simp_all add: reset_owner_def fd_reset_def)

lemma move_construct_ok:
  assumes "owners_ok s" "owner s i < 0" "i \<noteq> j"
  shows "owners_ok (move_construct i j s)"
proof (cases "0 \<le> owner s j")
  case True
  let ?f = "(owner s)(j := - 1)"
  have ok: "single (owner s)" using assms(1) by (simp add: owners_ok_def)
  have f: "single ?f" "held ?f = held (owner s) - {owner s j}"
    using ok by (simp_all add: single_drop held_drop)
  have m: "owner (move_construct i j s) = ?f(i := owner s j)"
    using assms(3) by (auto simp: move_construct_def fd_move_def)
  have "single (?f(i := owner s j))" using f by (simp add: single_put)
  moreover have "held (?f(i := owner s j)) = held (owner s)"
    using f(2) True assms(2,3) held_at [of "owner s" j] by (subst held_put) auto
  ultimately show ?thesis
    using assms(1) by (simp add: owners_ok_def m) (simp add: move_construct_def fd_move_def)
next
  case False
  then have "owner (move_construct i j s) = (owner s)(i := owner s j, j := - 1)"
    by (simp add: move_construct_def fd_move_def)
  moreover have "single ((owner s)(i := owner s j, j := - 1))"
    "held ((owner s)(i := owner s j, j := - 1)) = held (owner s)"
    using assms False by (simp_all add: owners_ok_def single_drop held_drop held_negative)
  ultimately show ?thesis
    using assms(1) by (simp add: owners_ok_def) (simp add: move_construct_def fd_move_def)
qed

lemma move_assign_eq: "i \<noteq> j \<Longrightarrow> move_assign i j s = move_construct i j (reset_owner i s)"
  by (simp add: move_assign_def fd_move_assign_def move_construct_def fd_move_def reset_owner_def
      split: prod.splits)

lemma move_assign_ok: "owners_ok s \<Longrightarrow> owners_ok (move_assign i j s)"
  by (cases "i = j")
    (simp add: move_assign_def, simp add: move_assign_eq move_construct_ok reset_owner_ok reset_owner_at(1))

lemma release_owner_ok:
  assumes "owners_ok s"
  shows "owners_ok (release_owner i s)"
proof (cases "0 \<le> owner s i")
  case True
  with assms held_at [of "owner s" i] show ?thesis
    by (auto simp: owners_ok_def release_owner_def fd_release_def single_drop held_drop)
next
  case False
  then have "owner s i \<notin> held (owner s)" by (simp add: held_def)
  with assms False show ?thesis
    by (auto simp: owners_ok_def release_owner_def fd_release_def single_drop held_drop)
qed

lemma construct_ok:
  assumes "owners_ok s" "owner s i < 0" "fresh_fd (table s) (Done fd)"
  shows "owners_ok (construct i fd (s\<lparr>table := os_open fd (table s)\<rparr>))"
proof -
  have "fd \<notin> held (owner s)" "0 \<le> fd" "fd \<notin> released s"
    using assms by (auto simp: owners_ok_def fresh_fd_def)
  with assms(1,2) show ?thesis
    by (auto simp: owners_ok_def construct_def FileDescriptor_def single_put held_put)
qed

lemma owner_step_ok:
  assumes "owner_step s t" "owners_ok s"
  shows "owners_ok t"
  using assms(1)
proof cases
  case (construct_empty i)
  then have "owner s i \<notin> held (owner s)" by (simp add: held_def)
  with construct_empty assms(2) show ?thesis
    by (simp add: owners_ok_def construct_def FileDescriptor_def single_drop held_drop)
next
  case (foreign_close fd)
  with assms(2) show ?thesis by (auto simp: owners_ok_def)
qed (use assms(2) construct_ok move_construct_ok move_assign_ok reset_owner_ok release_owner_ok in blast)+

interpretation fd: inductive_invariant owners_start owner_step owners_ok
  by unfold_locales (rule owners_start_ok, assumption, rule owner_step_ok)

section \<open>Properties\<close>

text \<open>
  Sole ownership. However a program constructs, moves, assigns, resets, releases and destroys
  \<open>FileDescriptor\<close> objects, no \<open>close\<close> is ever issued for a descriptor that is not open (so none is
  closed twice), no two objects own the same descriptor, and exactly the descriptors that are owned
  or were released are open: none leaks.
\<close>
lemma fd_sole_ownership:
  assumes "owners_start s" "owner_step\<^sup>*\<^sup>* s t"
  shows "\<not> bad_close (table t) \<and>
    (\<forall>i j. fd_valid (owner t i) \<and> owner t i = owner t j \<longrightarrow> i = j) \<and>
    open_fds (table t) = {fd. fd_valid fd \<and> (\<exists>i. owner t i = fd)} \<union> released t"
  using fd.reachable_inv [OF assms] by (auto simp: owners_ok_def single_def held_def fd_valid_def)

text \<open>A descriptor is opened, moved to a second object, and that object destroyed.\<close>

lemma fd_sole_ownership_witness:
  "open_fds (table (reset_owner 1 (move_construct 1 0 (construct 0 5
     \<lparr>owner = \<lambda>_. - 1, released = {}, table = os_open 5 \<lparr>open_fds = {}, bad_close = False\<rparr>\<rparr>)))) = {}"
proof -
  let ?s = "\<lparr>owner = \<lambda>_. - 1, released = {}, table = \<lparr>open_fds = {}, bad_close = False\<rparr>\<rparr>"
  let ?a = "construct 0 5 (?s\<lparr>table := os_open 5 (table ?s)\<rparr>)"
  let ?b = "move_construct 1 0 ?a" and ?c = "reset_owner 1 (move_construct 1 0 ?a)"
  have "owner_step ?s ?a" by (rule construct_opened) (simp_all add: fresh_fd_def)
  moreover have "owner_step ?a ?b"
    by (rule owner_step.move_construct) (simp_all add: construct_def FileDescriptor_def)
  moreover have "owner_step ?b ?c" by (rule owner_step.reset_owner)
  ultimately have steps: "owner_step\<^sup>*\<^sup>* ?s ?c"
    by (rule converse_rtranclp_into_rtranclp [OF _ converse_rtranclp_into_rtranclp [OF _ r_into_rtranclp]])
  have "owners_start ?s" by (simp add: owners_start_def)
  from fd_sole_ownership [OF this steps]
  have "open_fds (table ?c) = {fd. fd_valid fd \<and> (\<exists>i. owner ?c i = fd)} \<union> released ?c" by blast
  also have "\<dots> = {}"
    by (auto simp: construct_def move_construct_def reset_owner_def fd_defs)
  finally show ?thesis by simp
qed

section \<open>A component's descriptors\<close>

text \<open>
  The view of a component with several owners: its valid descriptors are pairwise different, they are
  exactly what is open beside the descriptors \<open>base\<close> of the rest of the process, and nothing was
  closed twice. The order of the owners does not matter, and an empty owner counts for nothing.
\<close>

definition owns :: "int set \<Rightarrow> file_descriptor list \<Rightarrow> os \<Rightarrow> bool" where
  "owns base fds os \<longleftrightarrow> distinct (filter fd_valid fds) \<and> set (filter fd_valid fds) \<inter> base = {} \<and>
     open_fds os = base \<union> set (filter fd_valid fds) \<and> \<not> bad_close os"

lemma owns_none: "owns base [] os \<longleftrightarrow> open_fds os = base \<and> \<not> bad_close os"
  by (simp add: owns_def)

lemma owns_empty: "fd < 0 \<Longrightarrow> owns base (fd # fds) os \<longleftrightarrow> owns base fds os"
  by (simp add: owns_def fd_valid_def)

lemma owns_perm:
  assumes "owns base fds os" "mset fds = mset fds'"
  shows "owns base fds' os"
proof -
  have *: "mset (filter fd_valid fds) = mset (filter fd_valid fds')" using assms(2) by simp
  have "set (filter fd_valid fds) = set (filter fd_valid fds')" using mset_eq_setD [OF *] .
  moreover have "distinct (filter fd_valid fds) = distinct (filter fd_valid fds')"
    using mset_eq_imp_distinct_iff [OF *] .
  ultimately show ?thesis using assms(1) unfolding owns_def by simp
qed

lemma owns_open: "owns base fds os \<Longrightarrow> fresh_fd os (Done fd) \<Longrightarrow> owns base (fd # fds) (os_open fd os)"
  by (auto simp: owns_def fd_valid_def fresh_fd_def)

lemma owns_reset: "owns base (fd # fds) os \<Longrightarrow> fd_reset fd os = (fd', os') \<Longrightarrow> owns base fds os' \<and> fd' < 0"
  by (auto simp: owns_def fd_defs split: if_splits)

lemma owns_move_assign:
  "owns base (this # other # fds) os \<Longrightarrow> fd_move_assign this other os = (fd, rest, os') \<Longrightarrow>
   owns base (other # fds) os' \<and> fd = other"
  by (auto simp: owns_def fd_defs split: if_splits)

text \<open>A descriptor that was just opened and has no owner yet counts as part of the rest.\<close>

lemma owns_aside: "owns base fds os \<Longrightarrow> fresh_fd os (Done fd) \<Longrightarrow> owns (insert fd base) fds (os_open fd os)"
  by (auto simp: owns_def fd_valid_def fresh_fd_def)

lemma owns_adopt: "owns (insert fd base) fds os \<Longrightarrow> 0 \<le> fd \<Longrightarrow> fd \<notin> base \<Longrightarrow> owns base (fd # fds) os"
  by (auto simp: owns_def fd_valid_def)

lemma owns_fresh: "owns base fds os \<Longrightarrow> fresh_fd os (Done fd) \<Longrightarrow> fd \<notin> base"
  by (auto simp: owns_def fresh_fd_def)

end
