(* ===== verification/WakePipe.thy ===== *)
theory WakePipe
  imports FileDescriptor
begin

text \<open>
  The self-pipe of \<open>network/WakePipe.hpp\<close>. First the operations as one thread performs them: opening
  and closing with their descriptors, \<open>signal\<close> and \<open>drain\<close> on the flag and the bytes in the pipe. Then
  \<open>signal\<close> from any number of threads against the \<open>poll\<close> loop, one atomic access to the flag or to the
  pipe at a time, where the question is whether a wakeup can be lost.
\<close>

section \<open>Code\<close>

text \<open>
  The two ends, the flag \<open>pending_\<close>, and the number of bytes the kernel holds in the pipe. A
  non-blocking write to a full pipe fails with \<open>EAGAIN\<close>; \<open>cap\<close> is the capacity of the pipe.
\<close>

record wake_pipe =
  read_end :: file_descriptor
  write_end :: file_descriptor
  pending :: bool
  in_pipe :: nat

definition WakePipe :: wake_pipe where
  "WakePipe = \<lparr>read_end = empty_fd, write_end = empty_fd, pending = False, in_pipe = 0\<rparr>"

text \<open>
  \<open>open\<close>, given the answer of \<open>pipe\<close> and of \<open>fcntl\<close>. The local owners are destroyed in reverse order
  when a mode cannot be set; otherwise they are moved into the members.
\<close>

definition wp_open ::
  "(int \<times> int) sys_result \<Rightarrow> (int \<Rightarrow> int) \<Rightarrow> (int \<Rightarrow> int \<Rightarrow> int) \<Rightarrow> wake_pipe \<Rightarrow> os
   \<Rightarrow> bool \<times> wake_pipe \<times> os" where
  "wp_open pipe getfl setfl w os =
     (case pipe of Fail _ \<Rightarrow> (False, w, os)
      | Done (r, wr) \<Rightarrow>
          let os = os_open wr (os_open r os); r_end = FileDescriptor r; w_end = FileDescriptor wr in
          if \<not> setNonBlocking getfl setfl (fd_get r_end) \<or> \<not> setNonBlocking getfl setfl (fd_get w_end)
          then let (_, os) = fd_reset w_end os; (_, os) = fd_reset r_end os in (False, w, os)
          else let (r', _, os) = fd_move_assign (read_end w) r_end os;
                   (w', _, os) = fd_move_assign (write_end w) w_end os
               in (True, w\<lparr>read_end := r', write_end := w', in_pipe := 0\<rparr>, os))"

definition wp_close :: "wake_pipe \<Rightarrow> os \<Rightarrow> wake_pipe \<times> os" where
  "wp_close w os =
     (let (r, os) = fd_reset (read_end w) os; (wr, os) = fd_reset (write_end w) os
      in (w\<lparr>read_end := r, write_end := wr, pending := False\<rparr>, os))"

definition readFd :: "wake_pipe \<Rightarrow> int" where
  "readFd w = fd_get (read_end w)"

definition wp_valid :: "wake_pipe \<Rightarrow> bool" where
  "wp_valid w \<longleftrightarrow> fd_valid (read_end w)"

definition wp_signal :: "nat \<Rightarrow> wake_pipe \<Rightarrow> wake_pipe" where
  "wp_signal cap w =
     (if \<not> fd_valid (write_end w) then w
      else if pending w then w
      else let w = w\<lparr>pending := True\<rparr> in
        if in_pipe w < cap then w\<lparr>in_pipe := in_pipe w + 1\<rparr> else w\<lparr>pending := False\<rparr>)"

text \<open>The reads of \<open>drain\<close>: up to 64 bytes each, until the pipe is empty.\<close>

function drain_reads :: "nat \<Rightarrow> nat" where
  "drain_reads bytes = (if bytes = 0 then 0 else drain_reads (bytes - min 64 bytes))"
  by auto
termination by (relation "measure id") auto

declare drain_reads.simps [simp del]

definition wp_drain :: "wake_pipe \<Rightarrow> wake_pipe" where
  "wp_drain w = w\<lparr>in_pipe := drain_reads (in_pipe w), pending := False\<rparr>"

lemma drain_reads_empty: "drain_reads n = 0"
proof (induction n rule: less_induct)
  case (less n)
  then show ?case by (cases "n = 0") (simp_all add: drain_reads.simps [of n] drain_reads.simps [of 0])
qed

lemma wp_drain_eq: "wp_drain w = w\<lparr>in_pipe := 0, pending := False\<rparr>"
  by (simp add: wp_drain_def drain_reads_empty)

text \<open>The flag is set exactly while a byte is in the pipe.\<close>

definition wake_ok :: "wake_pipe \<Rightarrow> bool" where
  "wake_ok w \<longleftrightarrow> in_pipe w = (if pending w then 1 else 0)"

lemma wake_ok_ops: "wake_ok w \<Longrightarrow> 0 < cap \<Longrightarrow> wake_ok (wp_signal cap w)" "wake_ok (wp_drain w)"
  by (auto simp: wake_ok_def wp_signal_def wp_drain_eq Let_def)

lemma wp_signal_wakes: "wake_ok w \<Longrightarrow> 0 < cap \<Longrightarrow> fd_valid (write_end w) \<Longrightarrow> in_pipe (wp_signal cap w) = 1"
  by (auto simp: wake_ok_def wp_signal_def Let_def)

section \<open>Signals from many threads\<close>

text \<open>
  A signalling thread has first posted its request (a frame in the queue, the stop flag), and is then
  before the exchange of the flag, before the \<open>write\<close>, or before the store that follows a failed
  \<open>write\<close>. The I/O thread is on its way to or in \<open>poll\<close>, in the reads of \<open>drain\<close>, before the store at its
  end, or in the rest of the loop, where it takes note of everything posted so far.
\<close>

datatype signaller = Quiet | Posted | Writing | Failing
datatype io_thread = Polling | Reading | Storing | Serving

record wake_system =
  flag :: bool
  bytes_in :: nat
  requests :: nat
  caller :: "nat \<Rightarrow> signaller"
  io :: io_thread

definition posts :: "nat \<Rightarrow> wake_system \<Rightarrow> wake_system" where
  "posts i s = s\<lparr>requests := requests s + 1, caller := (caller s)(i := Posted)\<rparr>"

text \<open>\<open>pending_.exchange(true)\<close>, and the early return.\<close>

definition exchanges :: "nat \<Rightarrow> wake_system \<Rightarrow> wake_system" where
  "exchanges i s = s\<lparr>flag := True, caller := (caller s)(i := if flag s then Quiet else Writing)\<rparr>"

definition writes :: "nat \<Rightarrow> nat \<Rightarrow> wake_system \<Rightarrow> wake_system" where
  "writes cap i s =
     (if bytes_in s < cap then s\<lparr>bytes_in := bytes_in s + 1, caller := (caller s)(i := Quiet)\<rparr>
      else s\<lparr>caller := (caller s)(i := Failing)\<rparr>)"

definition retracts :: "nat \<Rightarrow> wake_system \<Rightarrow> wake_system" where
  "retracts i s = s\<lparr>flag := False, caller := (caller s)(i := Quiet)\<rparr>"

text \<open>\<open>poll\<close> returns when the pipe is readable, and may return for another descriptor.\<close>

definition polls :: "wake_system \<Rightarrow> wake_system" where
  "polls s = s\<lparr>io := if 0 < bytes_in s then Reading else Serving\<rparr>"

definition reads :: "wake_system \<Rightarrow> wake_system" where
  "reads s = (if 0 < bytes_in s then s\<lparr>bytes_in := bytes_in s - min 64 (bytes_in s)\<rparr> else s\<lparr>io := Storing\<rparr>)"

definition stores :: "wake_system \<Rightarrow> wake_system" where
  "stores s = s\<lparr>flag := False, io := Serving\<rparr>"

definition serves :: "wake_system \<Rightarrow> wake_system" where
  "serves s = s\<lparr>requests := 0, io := Polling\<rparr>"

text \<open>A \<open>write\<close> or \<open>read\<close> that fails with \<open>EINTR\<close> is repeated: a step that changes nothing.\<close>

inductive wake_step :: "nat \<Rightarrow> wake_system \<Rightarrow> wake_system \<Rightarrow> bool" for cap where
  post_step: "caller s i = Quiet \<Longrightarrow> wake_step cap s (posts i s)"
| exchange_step: "caller s i = Posted \<Longrightarrow> wake_step cap s (exchanges i s)"
| write_step: "caller s i = Writing \<Longrightarrow> wake_step cap s (writes cap i s)"
| retract_step: "caller s i = Failing \<Longrightarrow> wake_step cap s (retracts i s)"
| interrupted: "wake_step cap s s"
| poll_step: "io s = Polling \<Longrightarrow> wake_step cap s (polls s)"
| read_step: "io s = Reading \<Longrightarrow> wake_step cap s (reads s)"
| store_step: "io s = Storing \<Longrightarrow> wake_step cap s (stores s)"
| serve_step: "io s = Serving \<Longrightarrow> wake_step cap s (serves s)"

definition wake_start :: "wake_system \<Rightarrow> bool" where
  "wake_start s \<longleftrightarrow> \<not> flag s \<and> bytes_in s = 0 \<and> requests s = 0 \<and> (\<forall>i. caller s i = Quiet) \<and> io s = Polling"

text \<open>Some thread is before the exchange, some is before the write, at most one is before the write.\<close>

definition posting :: "(nat \<Rightarrow> signaller) \<Rightarrow> bool" where
  "posting c \<longleftrightarrow> (\<exists>i. c i = Posted)"

definition writing :: "(nat \<Rightarrow> signaller) \<Rightarrow> bool" where
  "writing c \<longleftrightarrow> (\<exists>i. c i = Writing)"

definition one_writer :: "(nat \<Rightarrow> signaller) \<Rightarrow> bool" where
  "one_writer c \<longleftrightarrow> (\<forall>i j. c i = Writing \<longrightarrow> c j = Writing \<longrightarrow> i = j) \<and> (\<forall>i. c i \<noteq> Failing)"

lemma caller_update:
  "posting (c(i := Posted))" "writing (c(i := Writing))"
  "c i = Quiet \<Longrightarrow> writing (c(i := Posted)) = writing c"
  "c i = Posted \<Longrightarrow> writing (c(i := Quiet)) = writing c"
  "c i = Writing \<Longrightarrow> writing c"
  "c i = Writing \<Longrightarrow> one_writer c \<Longrightarrow> \<not> writing (c(i := Quiet))"
  "one_writer c \<Longrightarrow> one_writer (c(i := Quiet))" "one_writer c \<Longrightarrow> one_writer (c(i := Posted))"
  "one_writer c \<Longrightarrow> \<not> writing c \<Longrightarrow> one_writer (c(i := Writing))"
proof -
  show "c i = Quiet \<Longrightarrow> writing (c(i := Posted)) = writing c"
    unfolding writing_def by (metis fun_upd_apply signaller.distinct)
  show "c i = Posted \<Longrightarrow> writing (c(i := Quiet)) = writing c"
    unfolding writing_def by (metis fun_upd_apply signaller.distinct)
qed (auto simp: posting_def writing_def one_writer_def)

definition wake_inv :: "wake_system \<Rightarrow> bool" where
  "wake_inv s \<longleftrightarrow> bytes_in s \<le> 1 \<and> one_writer (caller s) \<and>
     (writing (caller s) \<longrightarrow> flag s \<and> bytes_in s = 0 \<and> io s \<in> {Polling, Serving}) \<and>
     (bytes_in s = 1 \<longrightarrow> flag s \<and> io s \<noteq> Storing) \<and>
     (io s \<in> {Reading, Storing} \<longrightarrow> flag s) \<and>
     (flag s \<longrightarrow> writing (caller s) \<or> bytes_in s = 1 \<or> io s \<in> {Reading, Storing}) \<and>
     (0 < requests s \<and> io s = Polling \<longrightarrow> bytes_in s = 1 \<or> posting (caller s) \<or> writing (caller s))"

lemma wake_start_inv: "wake_start s \<Longrightarrow> wake_inv s"
  by (simp add: wake_start_def wake_inv_def writing_def one_writer_def)

lemma posts_inv: "wake_inv s \<Longrightarrow> caller s i = Quiet \<Longrightarrow> wake_inv (posts i s)"
  by (simp add: wake_inv_def posts_def caller_update)

lemma exchanges_inv: "wake_inv s \<Longrightarrow> caller s i = Posted \<Longrightarrow> wake_inv (exchanges i s)"
  by (cases "flag s") (auto simp: wake_inv_def exchanges_def caller_update intro: io_thread.exhaust)

lemma writes_inv: "wake_inv s \<Longrightarrow> caller s i = Writing \<Longrightarrow> 0 < cap \<Longrightarrow> wake_inv (writes cap i s)"
  using caller_update(5) [of "caller s" i]
  by (simp add: wake_inv_def writes_def caller_update) auto

lemma io_inv:
  "wake_inv s \<Longrightarrow> io s = Polling \<Longrightarrow> wake_inv (polls s)"
  "wake_inv s \<Longrightarrow> io s = Reading \<Longrightarrow> wake_inv (reads s)"
  "wake_inv s \<Longrightarrow> io s = Storing \<Longrightarrow> wake_inv (stores s)"
  "wake_inv s \<Longrightarrow> io s = Serving \<Longrightarrow> wake_inv (serves s)"
  by (auto simp: wake_inv_def polls_def reads_def stores_def serves_def)

lemma wake_step_inv:
  assumes "wake_step cap s t" "wake_inv s" "0 < cap"
  shows "wake_inv t"
  using assms(1)
proof cases
  case (retract_step i)
  then show ?thesis using assms(2) by (simp add: wake_inv_def one_writer_def)
qed (use assms(2,3) posts_inv exchanges_inv writes_inv io_inv in blast)+

interpretation wake: inductive_invariant wake_start "wake_step (Suc n)" wake_inv for n
  by unfold_locales (rule wake_start_inv, assumption, erule wake_step_inv, simp_all)

section \<open>The descriptors\<close>

text \<open>Both ends owned or none, each open, in a table where nothing was closed twice.\<close>

definition pipe_ok :: "int set \<Rightarrow> wake_pipe \<Rightarrow> os \<Rightarrow> bool" where
  "pipe_ok base w os \<longleftrightarrow> \<not> bad_close os \<and>
     (if fd_valid (read_end w)
      then 0 \<le> write_end w \<and> read_end w \<noteq> write_end w \<and> read_end w \<notin> base \<and> write_end w \<notin> base \<and>
        open_fds os = insert (read_end w) (insert (write_end w) base)
      else write_end w < 0 \<and> open_fds os = base)"

definition fresh_pair :: "os \<Rightarrow> (int \<times> int) sys_result \<Rightarrow> bool" where
  "fresh_pair os r \<longleftrightarrow> (case r of Done (a, b) \<Rightarrow>
     0 \<le> a \<and> 0 \<le> b \<and> a \<noteq> b \<and> a \<notin> open_fds os \<and> b \<notin> open_fds os | Fail _ \<Rightarrow> True)"

lemma wp_close_ok:
  assumes "pipe_ok base w os" "wp_close w os = (w', os')"
  shows "pipe_ok base w' os'" "\<not> wp_valid w'" "open_fds os' = base" "\<not> pending w'"
  using assms by (auto simp: wp_close_def pipe_ok_def fd_defs wp_valid_def split: if_splits)

lemma wp_open_closed:
  assumes "pipe_ok base w os" "\<not> wp_valid w" "fresh_pair os pipe" "wp_open pipe getfl setfl w os = (ok, w', os')"
  shows "pipe_ok base w' os'" "ok \<longleftrightarrow> wp_valid w'" "\<not> ok \<Longrightarrow> w' = w \<and> os' = os" "pending w' = pending w"
    "ok \<Longrightarrow> in_pipe w' = 0"
  using assms
  by (auto simp: wp_open_def pipe_ok_def fresh_pair_def fd_defs wp_valid_def Let_def split: if_splits sys_result.splits)

section \<open>Properties\<close>

text \<open>
  C19: No wakeup is lost. Any number of threads may post a request and signal, at any rate and in any
  interleaving with the \<open>poll\<close> loop. At most one byte is ever in the pipe, so no \<open>write\<close> finds it
  full; and whenever a request is posted and not yet served while the I/O thread is in \<open>poll\<close>, either
  the pipe is readable or some thread has yet to finish its \<open>signal\<close>: once all callers are done, \<open>poll\<close>
  returns and the pipe is drained.
\<close>
theorem no_lost_wakeup:
  assumes "wake_start s" "0 < cap" "(wake_step cap)\<^sup>*\<^sup>* s t"
  shows "bytes_in t \<le> 1 \<and> (\<forall>i. caller t i \<noteq> Failing) \<and>
    (0 < requests t \<and> io t = Polling \<and> bytes_in t = 0 \<longrightarrow> (\<exists>i. caller t i \<noteq> Quiet)) \<and>
    (0 < requests t \<and> io t = Polling \<and> (\<forall>i. caller t i = Quiet) \<longrightarrow> io (polls t) = Reading)"
proof -
  obtain n where "cap = Suc n" using assms(2) by (cases cap) auto
  with assms have "wake_inv t" using wake.reachable_inv by blast
  then have *: "bytes_in t \<le> 1" "\<forall>i. caller t i \<noteq> Failing"
    "0 < requests t \<and> io t = Polling \<longrightarrow> bytes_in t = 1 \<or> posting (caller t) \<or> writing (caller t)"
    by (simp_all add: wake_inv_def one_writer_def)
  have "posting (caller t) \<or> writing (caller t) \<Longrightarrow> \<exists>i. caller t i \<noteq> Quiet"
    unfolding posting_def writing_def by (metis signaller.distinct(1,3))
  with * show ?thesis by (auto simp: polls_def)
qed

text \<open>
  Two threads post while the I/O thread is in \<open>poll\<close>: the first writes the byte, the second finds the
  flag set and returns.
\<close>

theorem no_lost_wakeup_witness:
  "io (polls (exchanges 1 (writes 1 0 (exchanges 0 (posts 1 (posts 0
     \<lparr>flag = False, bytes_in = 0, requests = 0, caller = \<lambda>_. Quiet, io = Polling\<rparr>)))))) = Reading"
proof -
  let ?s = "\<lparr>flag = False, bytes_in = 0, requests = 0, caller = \<lambda>_. Quiet, io = Polling\<rparr>"
  let ?a = "posts 0 ?s" let ?b = "posts 1 ?a" let ?c = "exchanges 0 ?b" let ?d = "writes 1 0 ?c"
  let ?e = "exchanges 1 ?d"
  have s1: "wake_step 1 ?s ?a" by (rule post_step) simp
  have s2: "wake_step 1 ?a ?b" by (rule post_step) (simp add: posts_def)
  have s3: "wake_step 1 ?b ?c" by (rule exchange_step) (simp add: posts_def)
  have s4: "wake_step 1 ?c ?d" by (rule write_step) (simp add: posts_def exchanges_def)
  have s5: "wake_step 1 ?d ?e" by (rule exchange_step) (simp add: posts_def exchanges_def writes_def)
  note cons = converse_rtranclp_into_rtranclp [where r = "wake_step 1"]
  have steps: "(wake_step 1)\<^sup>*\<^sup>* ?s ?e"
    by (rule cons [OF s1 cons [OF s2 cons [OF s3 cons [OF s4 r_into_rtranclp [where r = "wake_step 1", OF s5]]]]])
  have "wake_start ?s" by (simp add: wake_start_def)
  from no_lost_wakeup [OF this _ steps] show ?thesis
    by (simp add: posts_def exchanges_def writes_def)
qed

text \<open>
  \<open>open\<close> leaves nothing behind when it fails. On a closed pipe it either owns both ends, open and
  distinct, or, if \<open>pipe\<close> fails or either end cannot be made non-blocking, closes what it got and
  leaves the object and the descriptor table as they were; \<open>close\<close> returns the table to what it was.
\<close>
lemma wake_open_outcome:
  assumes "pipe_ok base w os" "\<not> wp_valid w" "fresh_pair os pipe" "wp_open pipe getfl setfl w os = (ok, w', os')"
  shows "(ok \<longleftrightarrow> (\<exists>r wr. pipe = Done (r, wr) \<and> setNonBlocking getfl setfl r \<and> setNonBlocking getfl setfl wr)) \<and>
    (\<not> ok \<longrightarrow> w' = w \<and> os' = os) \<and>
    (ok \<longrightarrow> pipe = Done (read_end w', write_end w') \<and>
       open_fds os' = open_fds os \<union> {read_end w', write_end w'}) \<and>
    open_fds (snd (wp_close w' os')) = base \<and> \<not> bad_close (snd (wp_close w' os'))"
proof -
  note o = wp_open_closed [OF assms]
  obtain w'' os'' where c: "wp_close w' os' = (w'', os'')" by fastforce
  have w: "read_end w < 0" "write_end w < 0"
    using assms(1,2) by (auto simp: pipe_ok_def wp_valid_def fd_valid_def)
  have 1: "(ok \<longleftrightarrow> (\<exists>r wr. pipe = Done (r, wr) \<and> setNonBlocking getfl setfl r \<and> setNonBlocking getfl setfl wr)) \<and>
    (ok \<longrightarrow> pipe = Done (read_end w', write_end w') \<and> open_fds os' = open_fds os \<union> {read_end w', write_end w'})"
  proof (cases pipe)
    case (Done p)
    obtain r wr where p: "p = (r, wr)" by fastforce
    show ?thesis
      using assms(4) w unfolding Done p
      by (cases "setNonBlocking getfl setfl r \<and> setNonBlocking getfl setfl wr")
        (auto simp: wp_open_def fd_defs Let_def split: if_splits)
  next
    case (Fail e)
    with assms(4) show ?thesis by (simp add: wp_open_def)
  qed
  have "\<not> bad_close os''" "open_fds os'' = base"
    using wp_close_ok [OF o(1) c] by (auto simp: pipe_ok_def wp_valid_def)
  with 1 o(3) show ?thesis unfolding c snd_conv by blast
qed

text \<open>Opening, even over a pipe that is still open, and closing, as seen by the component that has the pipe.\<close>

lemma wp_open_owns:
  assumes "owns base (read_end w # write_end w # fds) os" "fresh_pair os pipe"
    "wp_open pipe getfl setfl w os = (ok, w', os')"
  shows "owns base (read_end w' # write_end w' # fds) os'" "ok \<Longrightarrow> fd_valid (read_end w') \<and> fd_valid (write_end w')"
    "pending w' = pending w" "\<not> ok \<Longrightarrow> w' = w \<and> os' = os" "ok \<Longrightarrow> in_pipe w' = 0"
proof -
  have *: "owns base (read_end w' # write_end w' # fds) os' \<and> (ok \<longrightarrow> fd_valid (read_end w') \<and> fd_valid (write_end w')) \<and>
    pending w' = pending w \<and> (\<not> ok \<longrightarrow> w' = w \<and> os' = os) \<and> (ok \<longrightarrow> in_pipe w' = 0)"
  proof (cases pipe)
    case (Fail e)
    with assms show ?thesis by (simp add: wp_open_def)
  next
    case (Done p)
    obtain r wr where p: "p = (r, wr)" by fastforce
    have f: "0 \<le> r" "0 \<le> wr" "r \<noteq> wr" "r \<notin> open_fds os" "wr \<notin> open_fds os"
      using assms(2) by (simp_all add: Done p fresh_pair_def)
    show ?thesis
    proof (cases "setNonBlocking getfl setfl r \<and> setNonBlocking getfl setfl wr")
      case False
      with assms(1,3) f show ?thesis by (auto simp: Done p wp_open_def fd_defs Let_def)
    next
      case True
      let ?os = "os_open wr (os_open r os)"
      have "owns base (wr # r # read_end w # write_end w # fds) ?os"
        by (intro owns_open assms(1)) (use f in \<open>auto simp: fresh_fd_def\<close>)
      then have 1: "owns base (read_end w # r # write_end w # wr # fds) ?os" by (rule owns_perm) simp
      obtain r' x os1 where m1: "fd_move_assign (read_end w) r ?os = (r', x, os1)" by (metis prod_cases3)
      obtain w2 y os2 where m2: "fd_move_assign (write_end w) wr os1 = (w2, y, os2)" by (metis prod_cases3)
      note 2 = owns_move_assign [OF 1 m1]
      then have "owns base (write_end w # wr # r # fds) os1" by (auto elim: owns_perm)
      note 3 = owns_move_assign [OF this m2]
      then have "owns base (r # wr # fds) os2" by (auto elim: owns_perm)
      with 2 3 assms(3) True f m1 m2 show ?thesis
        by (auto simp: Done p wp_open_def Let_def FileDescriptor_def fd_get_def fd_valid_def)
    qed
  qed
  then show "owns base (read_end w' # write_end w' # fds) os'" "ok \<Longrightarrow> fd_valid (read_end w') \<and> fd_valid (write_end w')"
    "pending w' = pending w" "\<not> ok \<Longrightarrow> w' = w \<and> os' = os" "ok \<Longrightarrow> in_pipe w' = 0" by blast+
qed

lemma wp_close_owns:
  assumes "owns base (read_end w # write_end w # fds) os" "wp_close w os = (w', os')"
  shows "owns base fds os'" "read_end w' < 0" "write_end w' < 0" "\<not> pending w'" "in_pipe w' = in_pipe w"
proof -
  obtain r os1 where 1: "fd_reset (read_end w) os = (r, os1)" by fastforce
  obtain wr os2 where 2: "fd_reset (write_end w) os1 = (wr, os2)" by fastforce
  have w': "w' = w\<lparr>read_end := r, write_end := wr, pending := False\<rparr>" "os' = os2"
    using assms(2) 1 2 by (simp_all add: wp_close_def)
  note a = owns_reset [OF assms(1) 1]
  note b = owns_reset [OF conjunct1 [OF a] 2]
  show "owns base fds os'" "read_end w' < 0" "write_end w' < 0" "\<not> pending w'" "in_pipe w' = in_pipe w"
    using a b w' by simp_all
qed

end
