(* ===== verification/ListenSocket.thy ===== *)
theory ListenSocket
  imports FileDescriptor
begin

text \<open>
  The listening socket, \<open>network/ListenSocket.cpp\<close>, with the server configuration of
  \<open>network/TcpServer.hpp\<close>. The kernel's answers and \<open>inet_pton\<close> are a record; a call that fails gives
  the \<open>errno\<close> the code would read.
\<close>

section \<open>Configuration\<close>

record tcp_server_config =
  bind_address :: string
  port :: u16
  queue_capacity :: nat
  tcp_nodelay :: bool
  send_buffer_bytes :: int

definition default_tcp_config :: tcp_server_config where
  "default_tcp_config =
     \<lparr>bind_address = ''0.0.0.0'', port = 7000, queue_capacity = 16, tcp_nodelay = True,
      send_buffer_bytes = 262144\<rparr>"

section \<open>Code\<close>

definition kListenBacklog :: int where
  "kListenBacklog = 1"

text \<open>The addresses of a listening socket: port and IPv4 address in network order.\<close>

definition htons :: "u16 \<Rightarrow> u16" where
  "htons p = push_bit 8 p OR drop_bit 8 p"

text \<open>\<open>std::to_string\<close> of a number.\<close>

fun to_string :: "nat \<Rightarrow> string" where
  "to_string n = (if n < 10 then [char_of (48 + n)] else to_string (n div 10) @ [char_of (48 + n mod 10)])"

declare to_string.simps [simp del]

definition net_describeErrno :: "string \<Rightarrow> errno \<Rightarrow> string" where
  "net_describeErrno context err = context @ '': '' @ strerror err"

record listen_kernel =
  lk_socket :: "int sys_result"
  lk_reuseaddr :: "errno option"
  lk_getfl :: "int \<Rightarrow> int"
  lk_setfl :: "int \<Rightarrow> int \<Rightarrow> int"
  lk_fcntl_errno :: errno
  lk_inet_pton :: "string \<Rightarrow> u32 option"
  lk_bind :: "u16 \<Rightarrow> u32 \<Rightarrow> errno option"
  lk_listen :: "int \<Rightarrow> errno option"

text \<open>An early return: the error text, and the local owner destroyed.\<close>

definition listen_failed :: "string \<Rightarrow> file_descriptor \<Rightarrow> os \<Rightarrow> file_descriptor \<times> string \<times> os" where
  "listen_failed error fd os = (empty_fd, error, snd (fd_reset fd os))"

text \<open>\<open>makeListenSocket(config, error)\<close>: the descriptor, the error text and the table.\<close>

definition makeListenSocket ::
  "listen_kernel \<Rightarrow> tcp_server_config \<Rightarrow> string \<Rightarrow> os \<Rightarrow> file_descriptor \<times> string \<times> os" where
  "makeListenSocket k config error os =
     (case lk_socket k of
        Fail e \<Rightarrow> (empty_fd, net_describeErrno ''socket()'' e, os)
      | Done s \<Rightarrow>
          let fd = FileDescriptor s; os = os_open s os in
          case lk_reuseaddr k of
            Some e \<Rightarrow> listen_failed (net_describeErrno ''setsockopt(SO_REUSEADDR)'' e) fd os
          | None \<Rightarrow>
              if \<not> setNonBlocking (lk_getfl k) (lk_setfl k) (fd_get fd)
              then listen_failed (net_describeErrno ''fcntl(O_NONBLOCK) on listen socket'' (lk_fcntl_errno k)) fd os
              else (case lk_inet_pton k (bind_address config) of
                  None \<Rightarrow> listen_failed (''invalid bind address: '' @ bind_address config) fd os
                | Some address \<Rightarrow>
                    (case lk_bind k (htons (port config)) address of
                       Some e \<Rightarrow> listen_failed (net_describeErrno
                          (''bind() to '' @ bind_address config @ '':'' @ to_string (unat (port config))) e) fd os
                     | None \<Rightarrow>
                         (case lk_listen k kListenBacklog of
                            Some e \<Rightarrow> listen_failed (net_describeErrno ''listen()'' e) fd os
                          | None \<Rightarrow> (fd, error, os)))))"

section \<open>Properties\<close>

lemma listen_outcome:
  assumes "fresh_fd os (lk_socket k)" "makeListenSocket k config error os = (fd, error', os')"
  shows "fd_valid fd \<longleftrightarrow> (\<exists>s a. lk_socket k = Done s \<and> lk_reuseaddr k = None \<and>
       setNonBlocking (lk_getfl k) (lk_setfl k) s \<and> lk_inet_pton k (bind_address config) = Some a \<and>
       lk_bind k (htons (port config)) a = None \<and> lk_listen k 1 = None)"
    "fd_valid fd \<Longrightarrow> lk_socket k = Done fd \<and> os' = os_open fd os \<and> error' = error"
    "\<not> fd_valid fd \<Longrightarrow> fd = empty_fd \<and> os' = os \<and> error' \<noteq> []"
proof -
  have *: "(fd_valid fd \<longleftrightarrow> (\<exists>s a. lk_socket k = Done s \<and> lk_reuseaddr k = None \<and>
       setNonBlocking (lk_getfl k) (lk_setfl k) s \<and> lk_inet_pton k (bind_address config) = Some a \<and>
       lk_bind k (htons (port config)) a = None \<and> lk_listen k 1 = None)) \<and>
    (fd_valid fd \<longrightarrow> lk_socket k = Done fd \<and> os' = os_open fd os \<and> error' = error) \<and>
    (\<not> fd_valid fd \<longrightarrow> fd = empty_fd \<and> os' = os \<and> error' \<noteq> [])"
  proof (cases "lk_socket k")
    case (Fail e)
    with assms show ?thesis by (auto simp: makeListenSocket_def fd_defs net_describeErrno_def)
  next
    case (Done s)
    with assms(1) have s: "0 \<le> s" "s \<notin> open_fds os" by (simp_all add: fresh_fd_def)
    then have fail: "listen_failed e s (os_open s os) = (- 1, e, os)" for e
      by (simp add: listen_failed_def fd_defs)
    show ?thesis
      using assms(2) s unfolding makeListenSocket_def Done
      by (auto simp: fail fd_defs kListenBacklog_def net_describeErrno_def Let_def
          split: if_splits option.splits)
  qed
  then show "fd_valid fd \<longleftrightarrow> (\<exists>s a. lk_socket k = Done s \<and> lk_reuseaddr k = None \<and>
       setNonBlocking (lk_getfl k) (lk_setfl k) s \<and> lk_inet_pton k (bind_address config) = Some a \<and>
       lk_bind k (htons (port config)) a = None \<and> lk_listen k 1 = None)"
    "fd_valid fd \<Longrightarrow> lk_socket k = Done fd \<and> os' = os_open fd os \<and> error' = error"
    "\<not> fd_valid fd \<Longrightarrow> fd = empty_fd \<and> os' = os \<and> error' \<noteq> []"
    by blast+
qed

end
