(* ===== verification/CommandLine.thy ===== *)
theory CommandLine
  imports Perception RpLidarDevice ListenSocket "HOL-Library.Char_ord"
begin

text \<open>
  The options of the node and their parsing, \<open>app/Options.hpp\<close> and \<open>app/CommandLine.cpp\<close>, with the
  parts of the C and C++ library it uses written out: \<open>strtoul\<close> at a given width of \<open>unsigned long\<close>
  (64 bits on the 64-bit builds, 32 on the 32-bit ones) and \<open>stof\<close>, that is \<open>strtof\<close> with its range
  errors. Strings are those of \<open>argv\<close>, without a zero character. An error is \<^const>\<open>Inl\<close> its text.
\<close>

section \<open>Library functions\<close>

definition is_space :: "char \<Rightarrow> bool" where
  "is_space c \<longleftrightarrow> c = CHR 0x20 \<or> (9 \<le> (of_char c :: nat) \<and> (of_char c :: nat) \<le> 13)"

definition digit_value :: "char \<Rightarrow> nat" where
  "digit_value c = of_char c - 48"

definition is_digit :: "char \<Rightarrow> bool" where
  "is_digit c \<longleftrightarrow> 48 \<le> (of_char c :: nat) \<and> (of_char c :: nat) \<le> 57"

definition decimal :: "string \<Rightarrow> nat" where
  "decimal ds = foldl (\<lambda>a c. 10 * a + digit_value c) 0 ds"

text \<open>An optional sign: whether it is a minus, and the text after it.\<close>

fun skip_sign :: "string \<Rightarrow> bool \<times> string" where
  "skip_sign (c # s) = (if c = CHR ''-'' then (True, s) else if c = CHR ''+'' then (False, s) else (False, c # s))"
| "skip_sign [] = (False, [])"

text \<open>
  \<open>strtoul(text, &end, 10)\<close>: the value, the text at \<open>end\<close>, and whether \<open>errno\<close> is \<open>ERANGE\<close>. Without a
  digit nothing is converted and \<open>end\<close> is the beginning; a value out of range is the largest one; a
  minus sign negates in the unsigned type.
\<close>

definition strtoul :: "nat \<Rightarrow> string \<Rightarrow> nat \<times> string \<times> bool" where
  "strtoul bits text =
     (case skip_sign (dropWhile is_space text) of (neg, s) \<Rightarrow>
        let ds = takeWhile is_digit s; v = decimal ds in
        if ds = [] then (0, text, False)
        else if 2 ^ bits \<le> v then (2 ^ bits - 1, dropWhile is_digit s, True)
        else (if neg then (2 ^ bits - v) mod 2 ^ bits else v, dropWhile is_digit s, False))"

text \<open>
  The value of a decimal or hexadecimal floating constant, an integer times a power of the base,
  rounded to nearest.
\<close>

definition scaled :: "bool \<Rightarrow> nat \<Rightarrow> nat \<Rightarrow> int \<Rightarrow> float32 \<times> bool" where
  "scaled neg m base e =
     (let n = (if 0 \<le> e then m * base ^ nat e else m) * f32_unit;
          d = (if 0 \<le> e then 1 else base ^ nat (- e));
          x = f32_round neg n d
      in (x, f32_is_inf x \<or> (f32_mag x < 2 ^ 23 \<and> f32_mag x * d \<noteq> n)))"

definition is_hex :: "char \<Rightarrow> bool" where
  "is_hex c \<longleftrightarrow> is_digit c \<or> (97 \<le> (of_char c :: nat) \<and> (of_char c :: nat) \<le> 102) \<or>
     (65 \<le> (of_char c :: nat) \<and> (of_char c :: nat) \<le> 70)"

definition hex_value :: "char \<Rightarrow> nat" where
  "hex_value c = (if is_digit c then digit_value c else if 97 \<le> (of_char c :: nat) then of_char c - 87 else of_char c - 55)"

text \<open>The digits before and after an optional point, and the text after them.\<close>

definition mantissa :: "(char \<Rightarrow> bool) \<Rightarrow> string \<Rightarrow> string \<times> string \<times> string" where
  "mantissa digit s =
     (let whole = takeWhile digit s; rest = dropWhile digit s in
      case rest of
        [] \<Rightarrow> (whole, [], rest)
      | c # after \<Rightarrow> (if c = CHR ''.'' then (whole, takeWhile digit after, dropWhile digit after) else (whole, [], rest)))"

text \<open>An exponent part, if its marker is followed by an optionally signed number.\<close>

definition exponent :: "char set \<Rightarrow> string \<Rightarrow> int" where
  "exponent markers s = (case s of
     [] \<Rightarrow> 0
   | c # after \<Rightarrow>
       if c \<notin> markers then 0
       else case skip_sign after of (neg, t) \<Rightarrow>
         let ds = takeWhile is_digit t in if neg then - int (decimal ds) else int (decimal ds))"

definition lower :: "char \<Rightarrow> char" where
  "lower c = (if 65 \<le> (of_char c :: nat) \<and> (of_char c :: nat) \<le> 90 then char_of (of_char c + 32 :: nat) else c)"

definition starts_with :: "string \<Rightarrow> string \<Rightarrow> bool" where
  "starts_with s p \<longleftrightarrow> map lower (take (length p) s) = p"

text \<open>
  \<open>strtof\<close> on the part after white space and sign: the value and whether \<open>errno\<close> is \<open>ERANGE\<close>
  (overflow, or an inexact result below the normal range); \<^const>\<open>None\<close> when nothing is converted.
\<close>

definition strtof_unsigned :: "bool \<Rightarrow> string \<Rightarrow> (float32 \<times> bool) option" where
  "strtof_unsigned neg s =
     (if starts_with s ''inf'' then Some (f32_inf neg, False)
      else if starts_with s ''nan'' then Some (f32_nan, False)
      else if starts_with s ''0x'' \<and> (case mantissa is_hex (drop 2 s) of (w, f, _) \<Rightarrow> w @ f \<noteq> [])
      then (case mantissa is_hex (drop 2 s) of (w, f, rest) \<Rightarrow>
        Some (scaled neg (foldl (\<lambda>a c. 16 * a + hex_value c) 0 (w @ f)) 2
                (exponent {CHR ''p'', CHR ''P''} rest - 4 * int (length f))))
      else (case mantissa is_digit s of (w, f, rest) \<Rightarrow>
        if w @ f = [] then None
        else Some (scaled neg (decimal (w @ f)) 10
                (exponent {CHR ''e'', CHR ''E''} rest - int (length f)))))"

text \<open>
  \<open>std::stof(text)\<close> as the code uses it: \<^const>\<open>None\<close> stands for the exception of a text that does not
  start with a number or is out of range. What follows the number is ignored.
\<close>

definition stof :: "string \<Rightarrow> float32 option" where
  "stof text = (case skip_sign (dropWhile is_space text) of (neg, s) \<Rightarrow>
     (case strtof_unsigned neg s of
        None \<Rightarrow> None
      | Some (x, out_of_range) \<Rightarrow> if out_of_range then None else Some x))"

section \<open>Options\<close>

record options =
  o_lidar :: lidar_config
  o_canbus :: string
  o_no_can :: bool
  o_tcp_server :: tcp_server_config
  o_perception :: perception_config
  o_health_interval_s :: u32

definition default_options :: options where
  "default_options =
     \<lparr>o_lidar = default_lidar_config, o_canbus = ''can0'', o_no_can = False,
      o_tcp_server = default_tcp_config, o_perception = default_perception_config,
      o_health_interval_s = 5\<rparr>"

section \<open>Code\<close>

definition kMaxNumericValue :: nat where
  "kMaxNumericValue = 0xFFFFFFFF"

definition parseUnsigned :: "nat \<Rightarrow> string \<Rightarrow> string \<Rightarrow> string + u32" where
  "parseUnsigned bits text option =
     (if text = [] then Inl (option @ '' requires a number'')
      else case strtoul bits text of (parsed, rest, range_error) \<Rightarrow>
        if range_error \<or> rest \<noteq> [] \<or> kMaxNumericValue < parsed
        then Inl (option @ '': '' @ [CHR 0x27] @ text @ [CHR 0x27] @ '' is not a valid number'')
        else Inr (word_of_nat parsed))"

definition applyFlag :: "string \<Rightarrow> options \<Rightarrow> options option" where
  "applyFlag arg out =
     (if arg = ''--no-reconnect'' then Some (out\<lparr>o_lidar := (o_lidar out)\<lparr>auto_reconnect := False\<rparr>\<rparr>)
      else if arg = ''--no-can'' then Some (out\<lparr>o_no_can := True\<rparr>)
      else None)"

text \<open>The three branches that convert with \<open>stof\<close>, and those that convert with \<open>parseUnsigned\<close>.\<close>

definition float_option :: "string \<Rightarrow> string \<Rightarrow> (float32 \<Rightarrow> options) \<Rightarrow> string + options" where
  "float_option arg value store = (case stof value of
     Some x \<Rightarrow> Inr (store x)
   | None \<Rightarrow> Inl (arg @ '': '' @ [CHR 0x27] @ value @ [CHR 0x27] @ '' is not a valid float''))"

definition unsigned_option :: "nat \<Rightarrow> string \<Rightarrow> string \<Rightarrow> (u32 \<Rightarrow> options) \<Rightarrow> string + options" where
  "unsigned_option bits arg value store = (case parseUnsigned bits value arg of
     Inr n \<Rightarrow> Inr (store n)
   | Inl error \<Rightarrow> Inl error)"

definition applyValued :: "nat \<Rightarrow> string \<Rightarrow> string \<Rightarrow> options \<Rightarrow> string + options" where
  "applyValued bits arg value out =
     (if arg = ''--device'' then Inr (out\<lparr>o_lidar := (o_lidar out)\<lparr>serial_port := value\<rparr>\<rparr>)
      else if arg = ''--baud''
      then unsigned_option bits arg value (\<lambda>n. out\<lparr>o_lidar := (o_lidar out)\<lparr>baudrate := n\<rparr>\<rparr>)
      else if arg = ''--scan-timeout-ms''
      then unsigned_option bits arg value (\<lambda>n. out\<lparr>o_lidar := (o_lidar out)\<lparr>scan_timeout_ms := n\<rparr>\<rparr>)
      else if arg = ''--can-interface'' then Inr (out\<lparr>o_canbus := value\<rparr>)
      else if arg = ''--health-interval''
      then unsigned_option bits arg value (\<lambda>n. out\<lparr>o_health_interval_s := n\<rparr>)
      else if arg = ''--tcp-port''
      then unsigned_option bits arg value (\<lambda>n. out\<lparr>o_tcp_server := (o_tcp_server out)\<lparr>port := ucast n\<rparr>\<rparr>)
      else if arg = ''--min-angle''
      then float_option arg value (\<lambda>x. out\<lparr>o_perception := (o_perception out)\<lparr>min_angle_deg := x\<rparr>\<rparr>)
      else if arg = ''--max-angle''
      then float_option arg value (\<lambda>x. out\<lparr>o_perception := (o_perception out)\<lparr>max_angle_deg := x\<rparr>\<rparr>)
      else if arg = ''--max-distance''
      then float_option arg value (\<lambda>x. out\<lparr>o_perception := (o_perception out)\<lparr>max_distance_mm := x\<rparr>\<rparr>)
      else if arg = ''--min-quality''
      then unsigned_option bits arg value (\<lambda>n. out\<lparr>o_perception := (o_perception out)\<lparr>minimum_quality := ucast n\<rparr>\<rparr>)
      else if arg = ''--min-hits''
      then unsigned_option bits arg value (\<lambda>n. out\<lparr>o_perception := (o_perception out)\<lparr>min_hits_per_sector := n\<rparr>\<rparr>)
      else Inl (''unknown option '' @ arg))"

text \<open>
  The loop of \<open>parse\<close> over the arguments after the program name: the options if parsing succeeded, the
  error text, and whether \<open>printUsage\<close> was called.
\<close>

fun parse_args :: "nat \<Rightarrow> string list \<Rightarrow> options \<Rightarrow> options option \<times> string \<times> bool" where
  "parse_args bits [] options = (Some options, [], False)"
| "parse_args bits (arg # args) options =
     (if arg = ''--help'' \<or> arg = ''-h'' then (None, [], True)
      else case applyFlag arg options of
        Some options' \<Rightarrow> parse_args bits args options'
      | None \<Rightarrow>
          (case args of
             [] \<Rightarrow> (None, ''missing value for option '' @ arg, False)
           | value # args \<Rightarrow>
               (case applyValued bits arg value options of
                  Inl error \<Rightarrow> (None, error, False)
                | Inr options' \<Rightarrow> parse_args bits args options')))"

text \<open>The lines of \<open>printUsage\<close>.\<close>

definition printUsage :: "string \<Rightarrow> string list" where
  "printUsage program =
     [''AEB sensing node'',
      [],
      ''Usage: '' @ program @ '' [options]'',
      [],
      ''Lidar:'',
      ''  --device PATH           Serial device (default /dev/ttyUSB0)'',
      ''  --baud RATE             Baud rate (default 460800)'',
      ''  --scan-timeout-ms MS    Per-revolution timeout (default 2000)'',
      ''  --no-reconnect          Exit acquisition on device error'',
      [],
      ''CAN bus:'',
      ''  --can-interface NAME    SocketCAN interface (default can0)'',
      ''  --no-can                Disable CAN output (viewer-only mode)'',
      [],
      ''Visualisation:'',
      ''  --tcp-port PORT         TCP stream port for lidar_viewer (default 7000)'',
      [],
      ''Perception (AEB detection):'',
      ''  --min-angle DEG         FOV left  edge in degrees (default -45)'',
      ''  --max-angle DEG         FOV right edge in degrees (default  45)'',
      ''  --max-distance MM       Max range in millimetres   (default 2000)'',
      ''  --min-quality N         Min lidar quality 0-15+    (default 15)'',
      ''  --min-hits N            Min points per sector to declare obstacle (default 3)'',
      [],
      ''Diagnostics:'',
      ''  --health-interval SEC   Health report period, 0 disables (default 5)'',
      ''  -h, --help              Show this message'']"

definition parse :: "nat \<Rightarrow> string list \<Rightarrow> options option \<times> string \<times> string list" where
  "parse bits argv =
     (case parse_args bits (tl argv) default_options of
        (result, error, usage) \<Rightarrow> (result, error, if usage then printUsage (hd argv) else []))"

section \<open>Numbers\<close>

lemma digit_char: "is_digit c \<Longrightarrow> \<not> is_space c \<and> c \<noteq> CHR ''-'' \<and> c \<noteq> CHR ''+''"
  by (auto simp: is_digit_def is_space_def)

lemma sign_char: "\<not> is_space (CHR ''-'')" "\<not> is_space (CHR ''+'')" "\<not> is_digit (CHR ''-'')" "\<not> is_digit (CHR ''+'')"
  by (simp_all add: is_space_def is_digit_def)

lemma all_digits: "list_all is_digit ds \<Longrightarrow> takeWhile is_digit ds = ds \<and> dropWhile is_digit ds = []"
  by (auto simp: list_all_iff takeWhile_eq_all_conv)

lemma skip_sign_cases:
  "skip_sign s = (neg, t) \<longleftrightarrow> (neg \<and> s = CHR ''-'' # t) \<or> (\<not> neg \<and> s = CHR ''+'' # t) \<or>
     (\<not> neg \<and> s = t \<and> (\<forall>u. t \<noteq> CHR ''-'' # u \<and> t \<noteq> CHR ''+'' # u))"
  by (cases s) auto

text \<open>What \<open>strtoul\<close> does with white space, a sign and digits.\<close>

lemma strtoul_text:
  assumes "list_all is_space ws" "ds \<noteq> []" "list_all is_digit ds" "sign \<in> {[], ''+'', ''-''}"
  shows "strtoul bits (ws @ sign @ ds) =
    (if 2 ^ bits \<le> decimal ds then (2 ^ bits - 1, [], True)
     else (if sign = ''-'' then (2 ^ bits - decimal ds) mod 2 ^ bits else decimal ds, [], False))"
proof -
  obtain d ds' where ds: "ds = d # ds'" using assms(2) by (cases ds) auto
  have d: "is_digit d" using assms(3) by (simp add: ds)
  have "dropWhile is_space (ws @ sign @ ds) = sign @ ds"
    using assms(1,4) digit_char [OF d] sign_char by (auto simp: ds list_all_iff dropWhile_append2)
  moreover have "skip_sign (sign @ ds) = (sign = ''-'', ds)"
    using assms(4) digit_char [OF d] by (auto simp: ds)
  ultimately show ?thesis
    using assms(2) by (simp add: strtoul_def Let_def conjunct1 [OF all_digits [OF assms(3)]] conjunct2 [OF all_digits [OF assms(3)]])
qed

lemma strtoul_whole:
  assumes "strtoul bits text = (v, [], False)" "text \<noteq> []"
  shows "\<exists>ws sign ds. text = ws @ sign @ ds \<and> list_all is_space ws \<and> sign \<in> {[], ''+'', ''-''} \<and>
    ds \<noteq> [] \<and> list_all is_digit ds"
proof -
  let ?ws = "takeWhile is_space text" and ?r = "dropWhile is_space text"
  obtain neg s where s: "skip_sign ?r = (neg, s)" by fastforce
  let ?ds = "takeWhile is_digit s"
  have ds: "?ds \<noteq> []" "dropWhile is_digit s = []"
    using assms s by (auto simp: strtoul_def Let_def split: if_splits)
  then have "s = ?ds" by (metis append_Nil2 takeWhile_dropWhile_id)
  moreover have "list_all is_digit ?ds" "list_all is_space ?ws"
    by (auto simp: list_all_iff dest: set_takeWhileD)
  moreover have "\<exists>sign \<in> {[], ''+'', ''-''}. ?r = sign @ s"
    using s by (auto simp: skip_sign_cases)
  moreover have "text = ?ws @ ?r" by simp
  ultimately show ?thesis using ds(1) by (metis (lifting))
qed

text \<open>A whole number up to \<open>2 ^ 24\<close> is read exactly.\<close>

lemma scaled_whole:
  assumes "n \<le> 2 ^ 24"
  shows "scaled neg n 10 0 = (f32_round neg (n * f32_unit) 1, False)"
    "f32_is_finite (f32_round neg (n * f32_unit) 1)"
    "f32_val (f32_round neg (n * f32_unit) 1) = (if neg then - int (n * f32_unit) else int (n * f32_unit))"
proof -
  have "representable (n * f32_unit)" using representableI [OF assms, of 149] by (simp add: f32_unit_def)
  moreover have "n * f32_unit < f32_limit"
  proof -
    have "n * f32_unit \<le> 2 ^ 24 * f32_unit" using assms by (rule mult_le_mono1)
    also have "\<dots> < f32_limit" by (simp add: f32_unit_def f32_limit_def)
    finally show ?thesis .
  qed
  moreover have "n * f32_unit = n * f32_unit * 1" by simp
  ultimately have r: "f32_sign (f32_round neg (n * f32_unit) 1) = neg" "f32_mag (f32_round neg (n * f32_unit) 1) = n * f32_unit"
    "f32_is_finite (f32_round neg (n * f32_unit) 1)" using f32_round_exact [of 1 "n * f32_unit" "n * f32_unit" neg] by simp_all
  then show "f32_is_finite (f32_round neg (n * f32_unit) 1)"
    "f32_val (f32_round neg (n * f32_unit) 1) = (if neg then - int (n * f32_unit) else int (n * f32_unit))"
    by (simp, unfold f32_val_def, simp only: r)
  show "scaled neg n 10 0 = (f32_round neg (n * f32_unit) 1, False)"
    using r by (simp add: scaled_def f32_finite_iff)
qed

section \<open>Properties\<close>

text \<open>
  C39: What counts as a number. An unsigned option accepts exactly the texts made of white space, an
  optional sign and decimal digits up to the end whose value fits \<open>unsigned long\<close> and, negated in
  that type when the sign is a minus, is below 2 to the power of 32, and yields that value: trailing junk such as
  \<open>8OOO\<close> is always rejected, a leading minus is not.
\<close>
theorem parseUnsigned_accepts:
  "parseUnsigned bits text option = Inr n \<longleftrightarrow>
    (\<exists>ws sign ds. text = ws @ sign @ ds \<and> list_all is_space ws \<and> sign \<in> {[], ''+'', ''-''} \<and>
       ds \<noteq> [] \<and> list_all is_digit ds \<and> decimal ds < 2 ^ bits \<and>
       (let v = (if sign = ''-'' then (2 ^ bits - decimal ds) mod 2 ^ bits else decimal ds)
        in v \<le> kMaxNumericValue \<and> n = word_of_nat v))"
  (is "_ \<longleftrightarrow> ?rhs")
proof
  assume p: "parseUnsigned bits text option = Inr n"
  then obtain v where v: "strtoul bits text = (v, [], False)" "text \<noteq> []" "v \<le> kMaxNumericValue" "n = word_of_nat v"
    by (auto simp: parseUnsigned_def not_less split: if_splits prod.splits)
  from strtoul_whole [OF v(1,2)] obtain ws sign ds where t: "text = ws @ sign @ ds" "list_all is_space ws"
    "sign \<in> {[], ''+'', ''-''}" "ds \<noteq> []" "list_all is_digit ds" by blast
  have r: "decimal ds < 2 ^ bits" "(if sign = ''-'' then (2 ^ bits - decimal ds) mod 2 ^ bits else decimal ds) = v"
    using strtoul_text [OF t(2,4,5,3), of bits] v(1) unfolding t(1) by (simp_all only: split: if_splits) simp_all
  show ?rhs unfolding Let_def
    by (intro exI [of _ ws] exI [of _ sign] exI [of _ ds] conjI t r(1)) (simp_all only: r(2) v)
next
  assume ?rhs
  then obtain ws sign ds where t: "text = ws @ sign @ ds" "list_all is_space ws"
    "sign \<in> {[], ''+'', ''-''}" "ds \<noteq> []" "list_all is_digit ds" "decimal ds < 2 ^ bits"
    "(if sign = ''-'' then (2 ^ bits - decimal ds) mod 2 ^ bits else decimal ds) \<le> kMaxNumericValue"
    "n = word_of_nat (if sign = ''-'' then (2 ^ bits - decimal ds) mod 2 ^ bits else decimal ds)"
    by (auto simp: Let_def)
  with strtoul_text [OF t(2,4,5,3), of bits] show "parseUnsigned bits text option = Inr n"
    by (simp add: parseUnsigned_def)
qed

lemma parseUnsigned_error: "parseUnsigned bits text option = Inl e \<Longrightarrow> e \<noteq> []"
  by (auto simp: parseUnsigned_def split: if_splits prod.splits)

lemma applyValued_error: "applyValued bits arg value out = Inl e \<Longrightarrow> e \<noteq> []"
  by (auto simp: applyValued_def unsigned_option_def float_option_def dest: parseUnsigned_error
      split: if_splits sum.splits option.splits)

text \<open>
  The three outcomes of parsing do not overlap. Either there are options and no error, or the
  usage was printed and there is neither options nor an error, or there is an error text that is not
  empty: the caller can tell help from failure by the emptiness of the text, as \<open>main\<close> does.
\<close>
lemma parse_outcomes:
  "case parse bits argv of (result, error, usage) \<Rightarrow>
     (result \<noteq> None \<and> error = [] \<and> usage = []) \<or> (result = None \<and> error = [] \<and> usage = printUsage (hd argv)) \<or>
     (result = None \<and> error \<noteq> [] \<and> usage = [])"
proof -
  have "case parse_args bits args out of (result, error, usage) \<Rightarrow>
     (result \<noteq> None \<and> error = [] \<and> \<not> usage) \<or> (result = None \<and> error = [] \<and> usage) \<or>
     (result = None \<and> error \<noteq> [] \<and> \<not> usage)" for args out
  proof (induction bits args out rule: parse_args.induct)
    case (2 bits arg args options)
    show ?case
    proof (cases args)
      case Nil
      then show ?thesis using 2 by (auto split: option.splits)
    next
      case (Cons v args')
      then show ?thesis
        using 2 applyValued_error [of bits arg v options] by (auto split: option.splits sum.splits)
    qed
  qed simp
  from this [of "tl argv" default_options] show ?thesis by (auto simp: parse_def split: prod.splits)
qed

text \<open>
  Two options narrow their value without a check. A port is taken modulo 65536 and a minimum
  quality modulo 256, so a number the parser accepts can configure another port, or switch the
  quality filter off, without a message.
\<close>
lemma narrowed_options:
  assumes "parseUnsigned bits text ''--tcp-port'' = Inr n" "parseUnsigned bits text ''--min-quality'' = Inr n"
  shows "(\<exists>out'. applyValued bits ''--tcp-port'' text out = Inr out' \<and>
            unat (port (o_tcp_server out')) = unat n mod 65536) \<and>
    (\<exists>out'. applyValued bits ''--min-quality'' text out = Inr out' \<and>
            unat (minimum_quality (o_perception out')) = unat n mod 256)"
  using assms by (simp add: applyValued_def unsigned_option_def unsigned_ucast_eq take_bit_eq_mod)

text \<open>\<open>65792\<close> is 65536 and 256: port 256, and no quality filter.\<close>

lemma narrowed_options_witness:
  "\<exists>out'. applyValued 64 ''--tcp-port'' ''65792'' default_options = Inr out' \<and> unat (port (o_tcp_server out')) = 256"
proof -
  have n: "parseUnsigned 64 ''65792'' opt = Inr 65792" for opt
    by (simp add: parseUnsigned_def strtoul_def is_space_def is_digit_def digit_value_def decimal_def
        kMaxNumericValue_def Let_def)
  from narrowed_options [OF n n, of default_options] show ?thesis by auto
qed

end
