(* ===== verification/Usage.thy ===== *)
theory Usage
  imports CommandLine
begin

text \<open>
  The help text of the node, \<open>printUsage\<close> of \<open>app/CommandLine.cpp\<close>, read back: the options it documents,
  with their defaults, against what the parser does.
\<close>

section \<open>Reading the text\<close>

fun split_spaces :: "string \<Rightarrow> string list" where
  "split_spaces [] = [[]]"
| "split_spaces (c # s) =
     (if c = CHR '' '' then [] # split_spaces s
      else case split_spaces s of [] \<Rightarrow> [[c]] | w # ws \<Rightarrow> (c # w) # ws)"

text \<open>The words of the option column of a line; a line without one has none.\<close>

definition option_words :: "string \<Rightarrow> string list" where
  "option_words line =
     (if take 3 line = ''  -'' then filter (\<lambda>w. w \<noteq> []) (split_spaces (take 24 (drop 2 line))) else [])"

fun text_after :: "string \<Rightarrow> string \<Rightarrow> string" where
  "text_after p [] = []"
| "text_after p (c # s) = (if take (length p) (c # s) = p then drop (length p) (c # s) else text_after p s)"

definition shown_default :: "string \<Rightarrow> string" where
  "shown_default line = filter (\<lambda>c. c \<noteq> CHR '' '') (takeWhile (\<lambda>c. c \<noteq> CHR '')'') (text_after ''(default '' line))"

text \<open>
  An option that takes a value is followed by a name for it; the others stand alone, or several in a row,
  separated by commas.
\<close>

definition valued :: "string list \<Rightarrow> bool" where
  "valued ws \<longleftrightarrow> length ws = 2 \<and> take 1 (ws ! 1) \<noteq> ''-''"

definition documented_values :: "string list \<Rightarrow> (string \<times> string) list" where
  "documented_values text =
     map (\<lambda>line. (option_words line ! 0, shown_default line)) (filter (\<lambda>line. valued (option_words line)) text)"

definition documented_flags :: "string list \<Rightarrow> string list" where
  "documented_flags text =
     map (filter (\<lambda>c. c \<noteq> CHR '','')) (concat (filter (\<lambda>ws. \<not> valued ws) (map option_words text)))"

section \<open>What the text says\<close>

lemma usage_values:
  "documented_values (printUsage program) =
     [(''--device'', ''/dev/ttyUSB0''), (''--baud'', ''460800''), (''--scan-timeout-ms'', ''2000''),
      (''--can-interface'', ''can0''), (''--tcp-port'', ''7000''), (''--min-angle'', ''-45''), (''--max-angle'', ''45''),
      (''--max-distance'', ''2000''), (''--min-quality'', ''15''), (''--min-hits'', ''3''), (''--health-interval'', ''5'')]"
  by (simp add: documented_values_def printUsage_def option_words_def valued_def shown_default_def)

lemma usage_flags: "documented_flags (printUsage program) = [''--no-reconnect'', ''--no-can'', ''-h'', ''--help'']"
  by (simp add: documented_flags_def printUsage_def option_words_def valued_def)

section \<open>The default values as texts\<close>

lemma default_numbers:
  assumes "bits \<in> {32, 64}"
  shows "parseUnsigned bits ''460800'' opt = Inr 460800" "parseUnsigned bits ''2000'' opt = Inr 2000"
    "parseUnsigned bits ''7000'' opt = Inr 7000" "parseUnsigned bits ''15'' opt = Inr 15"
    "parseUnsigned bits ''3'' opt = Inr 3" "parseUnsigned bits ''5'' opt = Inr 5" "parseUnsigned bits ''0'' opt = Inr 0"
  using assms
  by (auto simp: parseUnsigned_def strtoul_def is_space_def is_digit_def digit_value_def decimal_def kMaxNumericValue_def Let_def)

lemma default_floats:
  "stof ''-45'' = Some (f32_neg (f32_of_nat 45))" "stof ''45'' = Some (f32_of_nat 45)" "stof ''2000'' = Some (f32_of_nat 2000)"
  "stof ''0'' = Some (f32_of_nat 0)"
proof -
  note text_defs = stof_def strtof_unsigned_def mantissa_def is_digit_def is_space_def starts_with_def lower_def
    exponent_def decimal_def digit_value_def
  have "f32_round True (45 * f32_unit) 1 = f32_neg (f32_of_nat 45)" by (simp add: f32_compute_defs)
  then show "stof ''-45'' = Some (f32_neg (f32_of_nat 45))" "stof ''45'' = Some (f32_of_nat 45)"
    "stof ''2000'' = Some (f32_of_nat 2000)" "stof ''0'' = Some (f32_of_nat 0)"
    using scaled_whole(1) [of 45] scaled_whole(1) [of 2000] scaled_whole(1) [of 0]
    by (simp_all add: text_defs f32_of_nat_def del: mult_numeral_1)
qed

lemma default_applies:
  assumes "bits \<in> {32, 64}" "(name, value) \<in> set (documented_values (printUsage program))"
  shows "applyValued bits name value default_options = Inr default_options"
proof -
  have "applyValued bits ''--device'' ''/dev/ttyUSB0'' default_options = Inr default_options"
    "applyValued bits ''--can-interface'' ''can0'' default_options = Inr default_options"
    by (simp_all add: applyValued_def default_options_def default_lidar_config_def)
  moreover have "applyValued bits ''--baud'' ''460800'' default_options = Inr default_options"
    "applyValued bits ''--scan-timeout-ms'' ''2000'' default_options = Inr default_options"
    "applyValued bits ''--health-interval'' ''5'' default_options = Inr default_options"
    "applyValued bits ''--tcp-port'' ''7000'' default_options = Inr default_options"
    by (simp_all add: applyValued_def unsigned_option_def default_numbers [OF assms(1)] default_options_def
        default_lidar_config_def default_tcp_config_def)
  moreover have "applyValued bits ''--min-quality'' ''15'' default_options = Inr default_options"
    "applyValued bits ''--min-hits'' ''3'' default_options = Inr default_options"
    by (simp_all add: applyValued_def unsigned_option_def default_numbers [OF assms(1)] default_options_def default_perception_config_def)
  moreover have "applyValued bits ''--min-angle'' ''-45'' default_options = Inr default_options"
    "applyValued bits ''--max-angle'' ''45'' default_options = Inr default_options"
    "applyValued bits ''--max-distance'' ''2000'' default_options = Inr default_options"
    by (simp_all add: applyValued_def float_option_def default_floats default_options_def default_perception_config_def)
  ultimately show ?thesis using assms(2) unfolding usage_values by auto
qed

lemma no_flag:
  assumes "(name, value) \<in> set (documented_values (printUsage program))"
  shows "applyFlag name out = None" "name \<noteq> ''--help''" "name \<noteq> ''-h''"
  using assms by (auto simp: usage_values applyFlag_def)

lemma all_defaults:
  assumes "bits \<in> {32, 64}" "set entries \<subseteq> set (documented_values (printUsage program))"
  shows "parse_args bits (concat (map (\<lambda>(name, value). [name, value]) entries)) default_options = (Some default_options, [], False)"
  using assms(2)
proof (induction entries)
  case (Cons e entries)
  obtain name shown where e: "e = (name, shown)" by fastforce
  then have "(name, shown) \<in> set (documented_values (printUsage program))" using Cons.prems by auto
  from default_applies [OF assms(1) this] no_flag [OF this] Cons show ?case by (simp add: e)
qed simp

section \<open>Property\<close>

text \<open>
  C38: The help text tells the truth. Read back from what \<open>--help\<close> prints: the options that take a value
  are exactly those for which the parser accepts some value, with every other word refused; the options
  that stand alone are exactly those it recognises as flags or as the request for help; and passing any
  of the documented defaults, or any sequence of them, changes nothing: they are the values of a
  node started without arguments.
\<close>
theorem usage_truthful:
  assumes "bits \<in> {32, 64}" "parse bits [program, ''--help''] = (result, error, usage)"
  shows "result = None \<and> error = [] \<and>
    (\<forall>arg. arg \<in> fst ` set (documented_values usage) \<longleftrightarrow> (\<exists>value out'. applyValued bits arg value out = Inr out')) \<and>
    (\<forall>arg. arg \<in> set (documented_flags usage) \<longleftrightarrow>
       applyFlag arg out \<noteq> None \<or> parse bits [program, arg] = (None, [], usage)) \<and>
    (\<forall>entries. set entries \<subseteq> set (documented_values usage) \<longrightarrow>
       parse bits (program # concat (map (\<lambda>(name, value). [name, value]) entries)) = (Some default_options, [], []))"
proof -
  have u: "usage = printUsage program" "result = None" "error = []" using assms(2) by (simp_all add: parse_def)
  have "arg \<in> fst ` set (documented_values usage) \<longleftrightarrow> (\<exists>value out'. applyValued bits arg value out = Inr out')" for arg
  proof
    assume "arg \<in> fst ` set (documented_values usage)"
    then have "\<exists>out'. applyValued bits arg ''0'' out = Inr out'"
      by (auto simp: u usage_values applyValued_def unsigned_option_def float_option_def default_numbers [OF assms(1)] default_floats)
    then show "\<exists>value out'. applyValued bits arg value out = Inr out'" by blast
  next
    assume "\<exists>value out'. applyValued bits arg value out = Inr out'"
    then show "arg \<in> fst ` set (documented_values usage)"
      by (auto simp: u usage_values applyValued_def split: if_splits)
  qed
  moreover have "arg \<in> set (documented_flags usage) \<longleftrightarrow>
      applyFlag arg out \<noteq> None \<or> parse bits [program, arg] = (None, [], usage)" for arg
  proof -
    have "usage \<noteq> []" by (simp add: u printUsage_def)
    then have "parse bits [program, arg] = (None, [], usage) \<longleftrightarrow> arg = ''--help'' \<or> arg = ''-h''"
      by (auto simp: parse_def u split: option.splits)
    then show ?thesis by (auto simp: u usage_flags applyFlag_def)
  qed
  moreover have "parse bits (program # concat (map (\<lambda>(name, value). [name, value]) entries)) = (Some default_options, [], [])"
    if "set entries \<subseteq> set (documented_values usage)" for entries
    using all_defaults [OF assms(1)] that by (simp add: parse_def u)
  ultimately show ?thesis using u by blast
qed

theorem usage_truthful_witness:
  "parse 64 [''aeb_node'', ''--baud'', ''460800'', ''--min-angle'', ''-45''] = (Some default_options, [], []) \<and>
   applyFlag ''--no-can'' default_options \<noteq> None \<and> (\<nexists>value out'. applyValued 64 ''--can'' value default_options = Inr out')"
proof -
  have asked: "parse 64 [''aeb_node'', ''--help''] = (None, [], printUsage ''aeb_node'')" by (simp add: parse_def)
  have bits: "(64 :: nat) \<in> {32, 64}" by simp
  note truth = usage_truthful [OF bits asked, of default_options]
  let ?entries = "[(''--baud'', ''460800''), (''--min-angle'', ''-45'')]"
  have "set ?entries \<subseteq> set (documented_values (printUsage ''aeb_node''))" by (simp add: usage_values)
  with truth have "parse 64 (''aeb_node'' # concat (map (\<lambda>(name, value). [name, value]) ?entries)) = (Some default_options, [], [])"
    by blast
  moreover have "''--can'' \<notin> fst ` set (documented_values (printUsage ''aeb_node''))" by (simp add: usage_values)
  with truth have "\<nexists>value out'. applyValued 64 ''--can'' value default_options = Inr out'" by metis
  ultimately show ?thesis by (simp add: applyFlag_def)
qed

end
