(* ===== verification/ClientSession.thy ===== *)
theory ClientSession
  imports Protocol FrameQueue ListenSocket
begin

text \<open>
  One connection, \<open>network/ClientSession.cpp\<close>: accepting it, the events it waits for, \<open>pump\<close>, which
  drains the frame queue into a non-blocking socket with partial writes, and \<open>drainInput\<close>. A system
  call that sits in a loop takes its answers from a script, one element per call, as the return value
  and \<open>errno\<close>; \<^const>\<open>None\<close> means that the script ended before the operation did. The bytes the kernel
  accepted are part of the result of \<open>pump\<close>: they are what the peer receives.
\<close>

section \<open>Code\<close>

datatype SessionResult = Progressed | Blocked | Closed | Failed

record session_progress =
  bytes_sent :: u64
  frames_sent :: u64

definition no_progress :: session_progress where
  "no_progress = \<lparr>bytes_sent = 0, frames_sent = 0\<rparr>"

record client_session =
  cs_socket :: file_descriptor
  send_buffer :: bytes
  send_offset :: nat
  staging :: scan_frame

definition empty_session :: client_session where
  "empty_session = \<lparr>cs_socket = empty_fd, send_buffer = [], send_offset = 0, staging = default_frame\<rparr>"

definition ClientSession :: "file_descriptor \<Rightarrow> client_session" where
  "ClientSession socket = empty_session\<lparr>cs_socket := socket\<rparr>"

definition cs_valid :: "client_session \<Rightarrow> bool" where
  "cs_valid s \<longleftrightarrow> fd_valid (cs_socket s)"

definition cs_fd :: "client_session \<Rightarrow> int" where
  "cs_fd s = fd_get (cs_socket s)"

text \<open>The socket options requested on Linux; their failure is ignored.\<close>

datatype sock_opt = TCP_NODELAY int | SO_SNDBUF int

definition applySocketOptions :: "tcp_server_config \<Rightarrow> sock_opt list" where
  "applySocketOptions config =
     (if tcp_nodelay config then [TCP_NODELAY 1] else []) @
     (if 0 < send_buffer_bytes config then [SO_SNDBUF (send_buffer_bytes config)] else [])"

text \<open>
  The loop of \<open>accept\<close>. One answer is that of \<open>accept\<close> and, for an accepted socket, the \<open>errno\<close> of a
  failing \<open>setNonBlocking\<close>, after which the loop closes it and tries again.
\<close>

fun cs_accept ::
  "(int sys_result \<times> errno option) list \<Rightarrow> tcp_server_config \<Rightarrow> string \<Rightarrow> os
   \<Rightarrow> (client_session \<times> sock_opt list \<times> string \<times> os) option" where
  "cs_accept [] config error os = None"
| "cs_accept ((answer, nonblock) # script) config error os =
     (case answer of
        Fail EINTR \<Rightarrow> cs_accept script config error os
      | Fail EAGAIN \<Rightarrow> Some (empty_session, [], error, os)
      | Fail e \<Rightarrow> Some (empty_session, [], net_describeErrno ''accept()'' e, os)
      | Done fd \<Rightarrow>
          let os = os_open fd os in
          (case nonblock of
             Some e \<Rightarrow> cs_accept script config
                (net_describeErrno ''fcntl(O_NONBLOCK) on client socket'' e) (snd (fd_reset (FileDescriptor fd) os))
           | None \<Rightarrow> Some (ClientSession (FileDescriptor fd), applySocketOptions config, error, os)))"

text \<open>The event mask as the set of its bits.\<close>

datatype poll_event = POLLIN | POLLOUT | POLLHUP | POLLERR | POLLNVAL

definition pollEvents :: "client_session \<Rightarrow> bool \<Rightarrow> poll_event list" where
  "pollEvents s has_pending_frames =
     POLLIN # (if has_pending_frames \<or> send_offset s < length (send_buffer s) then [POLLOUT] else [])"

text \<open>
  Refilling the send buffer at the top of the loop of \<open>pump\<close>: whether there is something to send.
\<close>

definition refill :: "frame_queue \<Rightarrow> client_session \<Rightarrow> bool \<times> frame_queue \<times> client_session" where
  "refill queue s =
     (if length (send_buffer s) \<le> send_offset s
      then (case pop queue (staging s) of (popped, queue, frame) \<Rightarrow>
        let s = s\<lparr>staging := frame\<rparr> in
        if \<not> popped then (False, queue, s)
        else (True, queue, s\<lparr>send_buffer := encode frame, send_offset := 0\<rparr>))
      else (True, queue, s))"

text \<open>What a successful \<open>send\<close> of \<open>n\<close> bytes does.\<close>

definition sent :: "nat \<Rightarrow> client_session \<Rightarrow> session_progress \<Rightarrow> client_session \<times> session_progress" where
  "sent n s progress =
     (let s = s\<lparr>send_offset := send_offset s + n\<rparr>;
          progress = progress\<lparr>bytes_sent := bytes_sent progress + word_of_nat n\<rparr>;
          progress = (if length (send_buffer s) \<le> send_offset s
                      then progress\<lparr>frames_sent := frames_sent progress + 1\<rparr> else progress)
      in (s, progress))"

record pump_result =
  p_result :: SessionResult
  p_queue :: frame_queue
  p_session :: client_session
  p_progress :: session_progress
  p_error :: string
  p_wire :: bytes

text \<open>The loop of \<open>pump\<close>; \<open>wire\<close> are the bytes accepted so far.\<close>

fun pump_loop ::
  "(int \<times> errno) list \<Rightarrow> frame_queue \<Rightarrow> client_session \<Rightarrow> session_progress \<Rightarrow> string \<Rightarrow> bytes
   \<Rightarrow> pump_result option" where
  "pump_loop script queue s progress error wire =
     (case refill queue s of (something, queue, s) \<Rightarrow>
        if \<not> something
        then Some \<lparr>p_result = Progressed, p_queue = queue, p_session = s, p_progress = progress,
                   p_error = error, p_wire = wire\<rparr>
        else case script of
          [] \<Rightarrow> None
        | (written, err) # script \<Rightarrow>
            if 0 < written
            then (case sent (nat written) s progress of (s', progress) \<Rightarrow>
                    pump_loop script queue s' progress error
                      (wire @ take (nat written) (drop (send_offset s) (send_buffer s))))
            else if written < 0 \<and> err = EINTR then pump_loop script queue s progress error wire
            else if written < 0 \<and> err = EAGAIN
            then Some \<lparr>p_result = Blocked, p_queue = queue, p_session = s, p_progress = progress,
                       p_error = error, p_wire = wire\<rparr>
            else Some \<lparr>p_result = Failed, p_queue = queue, p_session = s, p_progress = progress,
                       p_error = net_describeErrno ''send()'' err, p_wire = wire\<rparr>)"

declare pump_loop.simps [simp del]

definition pump ::
  "(int \<times> errno) list \<Rightarrow> frame_queue \<Rightarrow> client_session \<Rightarrow> session_progress \<Rightarrow> string \<Rightarrow> pump_result option" where
  "pump script queue s progress error =
     (if \<not> cs_valid s
      then Some \<lparr>p_result = Failed, p_queue = queue, p_session = s, p_progress = progress,
                 p_error = error, p_wire = []\<rparr>
      else pump_loop script queue s progress error [])"

fun drain_input :: "(int \<times> errno) list \<Rightarrow> SessionResult option" where
  "drain_input [] = None"
| "drain_input ((n, err) # script) =
     (if 0 < n then drain_input script
      else if n = 0 then Some Closed
      else if err = EINTR then drain_input script
      else if err = EAGAIN then Some Progressed
      else Some Failed)"

definition drainInput :: "(int \<times> errno) list \<Rightarrow> client_session \<Rightarrow> SessionResult option" where
  "drainInput script s = (if \<not> cs_valid s then Some Failed else drain_input script)"

definition cs_close :: "client_session \<Rightarrow> os \<Rightarrow> client_session \<times> os" where
  "cs_close s os = (case fd_reset (cs_socket s) os of (fd, os) \<Rightarrow>
     (s\<lparr>cs_socket := fd, send_buffer := [], send_offset := 0\<rparr>, os))"

section \<open>Reading until the peer pauses\<close>

text \<open>The answers of \<open>recv\<close> after which the loop of \<open>drainInput\<close> calls it again.\<close>

definition recv_again :: "int \<times> errno \<Rightarrow> bool" where
  "recv_again answer \<longleftrightarrow> 0 < fst answer \<or> fst answer < 0 \<and> snd answer = EINTR"

lemma drain_input_absorbed: "list_all recv_again script \<Longrightarrow> drain_input (script @ rest) = drain_input rest"
  by (induction script) (auto simp: recv_again_def)

lemma drain_input_None: "drain_input script = None \<longleftrightarrow> list_all recv_again script"
  by (induction script rule: drain_input.induct) (auto simp: recv_again_def)

lemma drain_input_decided:
  assumes "list_all recv_again script" "\<not> recv_again (n, e)"
  shows "drain_input (script @ (n, e) # rest) =
    Some (if n = 0 then Closed else if e = EAGAIN then Progressed else Failed)"
  using assms by (auto simp: drain_input_absorbed recv_again_def)

section \<open>The bytes still owed to the peer\<close>

definition owed :: "client_session \<Rightarrow> frame_queue \<Rightarrow> bytes" where
  "owed s q = drop (send_offset s) (send_buffer s) @ concat (map encode (fq_queue q))"

lemma encode_nonempty: "encode f \<noteq> []"
  using encode_length_ge [of f] by auto

lemma pop_outcome:
  assumes "pop q out = (popped, q', f)"
  shows "popped \<longleftrightarrow> fq_queue q \<noteq> []" "popped \<Longrightarrow> fq_queue q = f # fq_queue q'"
    "\<not> popped \<Longrightarrow> q' = q \<and> f = out" "fq_capacity q' = fq_capacity q" "queue_ok q \<Longrightarrow> queue_ok q'"
  using assms by (auto simp: pop_def queue_ok_alt Let_def recycleLocked_pool split: if_splits)

text \<open>Either the buffer still holds bytes, or a frame moves from the queue to it, or there is none.\<close>

lemma refill_cases:
  assumes "refill q s = (something, q', s')"
  obtains (rest) "send_offset s < length (send_buffer s)" "something" "q' = q" "s' = s"
  | (next_frame) f where "length (send_buffer s) \<le> send_offset s" "something" "fq_queue q = f # fq_queue q'"
      "s' = s\<lparr>staging := f, send_buffer := encode f, send_offset := 0\<rparr>" "fq_capacity q' = fq_capacity q"
      "queue_ok q \<longrightarrow> queue_ok q'"
  | (idle) "length (send_buffer s) \<le> send_offset s" "\<not> something" "fq_queue q = []" "q' = q" "s' = s"
proof (cases "length (send_buffer s) \<le> send_offset s")
  case False
  with assms show thesis by (intro rest) (auto simp: refill_def)
next
  case True
  obtain popped q2 f where p: "pop q (staging s) = (popped, q2, f)" by (metis prod_cases3)
  note P = pop_outcome [OF p]
  show thesis
  proof (cases popped)
    case pd: True
    show thesis
      by (rule next_frame [OF True, of f]) (use assms p pd True P(2,4,5) in \<open>auto simp: refill_def\<close>)
  next
    case False
    with P(1,3) have "fq_queue q = []" "q2 = q" "f = staging s" by simp_all
    with False True assms p show thesis by (intro idle) (auto simp: refill_def)
  qed
qed

lemma sent_outcome:
  assumes "sent n s pr = (s', pr')"
  shows "drop (send_offset s) (send_buffer s) =
      take n (drop (send_offset s) (send_buffer s)) @ drop (send_offset s') (send_buffer s')"
    "cs_socket s' = cs_socket s"
  using assms by (auto simp: sent_def Let_def add.commute append_take_drop_id drop_drop [symmetric] simp del: drop_drop)

text \<open>
  What \<open>pump\<close> does to the bytes owed, from a point where it has sent \<open>w\<close>: the bytes accepted by the
  kernel come off the front, the frames it popped have moved from the queue to the buffer, and
  \<^const>\<open>Progressed\<close> means that nothing is left.
\<close>

definition pumped :: "bytes \<Rightarrow> client_session \<Rightarrow> frame_queue \<Rightarrow> pump_result \<Rightarrow> bool" where
  "pumped w s q r \<longleftrightarrow> cs_socket (p_session r) = cs_socket s \<and>
     fq_capacity (p_queue r) = fq_capacity q \<and> (queue_ok q \<longrightarrow> queue_ok (p_queue r)) \<and>
     (p_result r = Progressed \<longleftrightarrow> owed (p_session r) (p_queue r) = []) \<and>
     (p_result r = Failed \<longrightarrow> p_error r \<noteq> []) \<and> p_result r \<noteq> Closed \<and>
     (\<exists>fs. fq_queue q = fs @ fq_queue (p_queue r) \<and>
        w @ drop (send_offset s) (send_buffer s) @ concat (map encode fs) =
        p_wire r @ drop (send_offset (p_session r)) (send_buffer (p_session r)))"

lemma pumped_refill:
  assumes "refill q s = (something, q', s')" "pumped w s' q' r"
  shows "pumped w s q r"
  using assms(1)
proof (cases rule: refill_cases)
  case (next_frame f)
  from assms(2) obtain fs where fs: "fq_queue q' = fs @ fq_queue (p_queue r)"
    "w @ drop (send_offset s') (send_buffer s') @ concat (map encode fs) =
     p_wire r @ drop (send_offset (p_session r)) (send_buffer (p_session r))"
    unfolding pumped_def by blast
  then have "fq_queue q = (f # fs) @ fq_queue (p_queue r) \<and>
      w @ drop (send_offset s) (send_buffer s) @ concat (map encode (f # fs)) =
      p_wire r @ drop (send_offset (p_session r)) (send_buffer (p_session r))"
    using next_frame by simp
  moreover have "cs_socket s' = cs_socket s" using next_frame by simp
  ultimately show ?thesis using assms(2) next_frame(5,6) unfolding pumped_def by metis
qed (use assms(2) in simp_all)

lemma pumped_sent:
  assumes "sent n s pr = (s', pr')" "pumped (w @ take n (drop (send_offset s) (send_buffer s))) s' q r"
  shows "pumped w s q r"
proof -
  from assms(2) obtain fs where fs: "fq_queue q = fs @ fq_queue (p_queue r)"
    "(w @ take n (drop (send_offset s) (send_buffer s))) @ drop (send_offset s') (send_buffer s') @ concat (map encode fs) =
     p_wire r @ drop (send_offset (p_session r)) (send_buffer (p_session r))"
    unfolding pumped_def by blast
  then have "w @ drop (send_offset s) (send_buffer s) @ concat (map encode fs) =
     p_wire r @ drop (send_offset (p_session r)) (send_buffer (p_session r))"
    using sent_outcome(1) [OF assms(1)] by (metis append.assoc)
  with fs(1) assms(2) sent_outcome(2) [OF assms(1)] show ?thesis unfolding pumped_def by metis
qed

lemma pumped_stop:
  assumes "p_session r = s" "p_queue r = q" "p_wire r = w" "p_result r \<noteq> Closed"
    "p_result r = Progressed \<longleftrightarrow> owed s q = []" "p_result r = Failed \<longrightarrow> p_error r \<noteq> []"
  shows "pumped w s q r"
  using assms by (auto simp: pumped_def intro!: exI [of _ "[]"])

lemma pump_loop_outcome: "pump_loop script q s pr e w = Some r \<Longrightarrow> pumped w s q r"
proof (induction script arbitrary: q s pr e w)
  case Nil
  obtain something q1 s1 where rf: "refill q s = (something, q1, s1)" by (metis prod_cases3)
  show ?case
  proof (rule pumped_refill [OF rf])
    have "\<not> something" using Nil rf by (auto simp: pump_loop.simps [of "[]"])
    with rf have "owed s1 q1 = []" by (cases rule: refill_cases) (auto simp: owed_def)
    with Nil rf \<open>\<not> something\<close> show "pumped w s1 q1 r"
      by (intro pumped_stop) (auto simp: pump_loop.simps [of "[]"])
  qed
next
  case (Cons a script)
  obtain written err where a: "a = (written, err)" by fastforce
  obtain something q1 s1 where rf: "refill q s = (something, q1, s1)" by (metis prod_cases3)
  note step = Cons.prems [unfolded a, unfolded pump_loop.simps [of "(written, err) # script"] rf, simplified]
  show ?case
  proof (rule pumped_refill [OF rf])
    show "pumped w s1 q1 r"
    proof (cases something)
      case False
      with rf have "owed s1 q1 = []" by (cases rule: refill_cases) (auto simp: owed_def)
      with False step show ?thesis by (intro pumped_stop) auto
    next
      case True
      with rf have owed1: "owed s1 q1 \<noteq> []"
        by (cases rule: refill_cases) (auto simp: owed_def encode_nonempty)
      consider "0 < written" | "\<not> 0 < written" "written < 0 \<and> err = EINTR" | "\<not> 0 < written" "\<not> (written < 0 \<and> err = EINTR)"
        by blast
      then show ?thesis
      proof cases
        case 1
        obtain s2 pr2 where st: "sent (nat written) s1 pr = (s2, pr2)" by fastforce
        with 1 True step have "pump_loop script q1 s2 pr2 e (w @ take (nat written) (drop (send_offset s1) (send_buffer s1))) = Some r"
          by simp
        from Cons.IH [OF this] st show ?thesis by (rule pumped_sent [rotated])
      next
        case 2
        with True step show ?thesis by (intro Cons.IH) simp
      next
        case 3
        with True step owed1 show ?thesis
          by (intro pumped_stop) (auto simp: net_describeErrno_def split: if_splits)
      qed
    qed
  qed
qed

section \<open>A whole connection\<close>

text \<open>
  The bytes sent and those in the buffer are the packets of some frames; these and the queued ones
  are, in order, among the frames \<open>fs\<close>, and are all of them if they fit the queue.
\<close>

definition streaming :: "scan_frame list \<Rightarrow> frame_queue \<Rightarrow> client_session \<Rightarrow> bytes \<Rightarrow> bool" where
  "streaming fs q s wire \<longleftrightarrow> queue_ok q \<and>
     (\<exists>gs. wire @ drop (send_offset s) (send_buffer s) = concat (map encode gs) \<and>
        subseq (gs @ fq_queue q) fs \<and> (length fs \<le> fq_capacity q \<longrightarrow> gs @ fq_queue q = fs))"

lemma streaming_push:
  assumes "streaming fs q s wire"
  shows "streaming (fs @ [f]) (fst (push f q)) s wire"
proof -
  obtain gs where gs: "wire @ drop (send_offset s) (send_buffer s) = concat (map encode gs)"
    "subseq (gs @ fq_queue q) fs" "length fs \<le> fq_capacity q \<longrightarrow> gs @ fq_queue q = fs" and ok: "queue_ok q"
    using assms by (auto simp: streaming_def)
  have cap: "1 \<le> fq_capacity q" using ok by (simp add: queue_ok_def)
  let ?k = "Suc (length (fq_queue q)) - fq_capacity q"
  note p = push_queue [OF cap, of f]
  have "subseq (gs @ drop ?k (fq_queue q)) (gs @ fq_queue q)"
    by (rule list_emb_append_mono [OF subseq_order.refl subseq_drop])
  then have "subseq (gs @ drop ?k (fq_queue q)) fs" using gs(2) by (rule subseq_order.order_trans)
  then have "subseq ((gs @ drop ?k (fq_queue q)) @ [f]) (fs @ [f])"
    by (rule list_emb_append_mono [OF _ subseq_order.refl])
  moreover have "length (fs @ [f]) \<le> fq_capacity q \<longrightarrow> gs @ drop ?k (fq_queue q) @ [f] = fs @ [f]"
  proof
    assume fit: "length (fs @ [f]) \<le> fq_capacity q"
    then have "gs @ fq_queue q = fs" using gs(3) by simp
    moreover from this fit have "?k = 0" by auto
    ultimately show "gs @ drop ?k (fq_queue q) @ [f] = fs @ [f]" by simp
  qed
  moreover have "queue_ok (fst (push f q))" using ok p by (auto simp: queue_ok_alt)
  ultimately show ?thesis using gs(1) p(1,3) unfolding streaming_def by (metis append.assoc)
qed

lemma streaming_pumped:
  assumes "streaming fs q s wire" "pumped [] s q r"
  shows "streaming fs (p_queue r) (p_session r) (wire @ p_wire r)"
proof -
  obtain gs where gs: "wire @ drop (send_offset s) (send_buffer s) = concat (map encode gs)"
    "subseq (gs @ fq_queue q) fs" "length fs \<le> fq_capacity q \<longrightarrow> gs @ fq_queue q = fs" and ok: "queue_ok q"
    using assms(1) by (auto simp: streaming_def)
  obtain hs where hs: "fq_queue q = hs @ fq_queue (p_queue r)"
    "drop (send_offset s) (send_buffer s) @ concat (map encode hs) =
     p_wire r @ drop (send_offset (p_session r)) (send_buffer (p_session r))"
    using assms(2) by (auto simp: pumped_def)
  have "(wire @ p_wire r) @ drop (send_offset (p_session r)) (send_buffer (p_session r)) =
      (wire @ drop (send_offset s) (send_buffer s)) @ concat (map encode hs)"
    by (simp add: hs(2))
  also have "\<dots> = concat (map encode (gs @ hs))" unfolding gs(1) by simp
  finally have "(wire @ p_wire r) @ drop (send_offset (p_session r)) (send_buffer (p_session r)) = concat (map encode (gs @ hs))" .
  moreover have "subseq ((gs @ hs) @ fq_queue (p_queue r)) fs" using gs(2) hs(1) by simp
  moreover have "length fs \<le> fq_capacity (p_queue r) \<longrightarrow> (gs @ hs) @ fq_queue (p_queue r) = fs"
    using gs(3) hs(1) assms(2) by (simp add: pumped_def)
  moreover have "queue_ok (p_queue r)" using ok assms(2) by (simp add: pumped_def)
  ultimately show ?thesis unfolding streaming_def by blast
qed

lemma pump_pumped: "pump script q s pr e = Some r \<Longrightarrow> cs_valid s \<Longrightarrow> pumped [] s q r"
  by (auto simp: pump_def dest: pump_loop_outcome)

text \<open>Cutting a stream of packets anywhere: whole packets, and the beginning of one more.\<close>

lemma prefix_of_packets:
  assumes "prefix w (concat (map encode fs))"
  shows "\<exists>gs part g. prefix gs fs \<and> w = concat (map encode gs) @ part \<and> strict_prefix part (encode g)"
  using assms
proof (induction fs arbitrary: w)
  case Nil
  then show ?case using encode_nonempty [of default_frame]
    by (intro exI [of _ "[]"] exI [of _ "[]"] exI [of _ default_frame]) (simp add: strict_prefix_def)
next
  case (Cons f fs)
  consider "strict_prefix w (encode f)" | w' where "w = encode f @ w'" "prefix w' (concat (map encode fs))"
    using Cons.prems by (cases "w = encode f") (auto simp: prefix_append strict_prefix_def)
  then show ?case
  proof cases
    case 1
    then show ?thesis by (intro exI [of _ "[]"] exI [of _ w] exI [of _ f]) simp
  next
    case 2
    from Cons.IH [OF 2(2)] obtain gs part g where
      "prefix gs fs" "w' = concat (map encode gs) @ part" "strict_prefix part (encode g)" by blast
    with 2(1) show ?thesis by (intro exI [of _ "f # gs"] exI [of _ part] exI [of _ g]) simp
  qed
qed

text \<open>What the peer's decoder makes of such a stream, in whatever chunks it arrives.\<close>

lemma streaming_received:
  assumes "streaming fs q s wire" "concat chunks = wire"
  shows "\<exists>frames part. subseq frames fs \<and>
    receive_all decode_one chunks = (map truncate_frame frames, None, part) \<and>
    (owed s q = [] \<longrightarrow> part = [] \<and> (length fs \<le> fq_capacity q \<longrightarrow> frames = fs))"
proof -
  obtain hs where hs: "wire @ drop (send_offset s) (send_buffer s) = concat (map encode hs)"
    "subseq (hs @ fq_queue q) fs" "length fs \<le> fq_capacity q \<longrightarrow> hs @ fq_queue q = fs"
    using assms(1) by (auto simp: streaming_def)
  have "subseq hs (hs @ fq_queue q)" by (simp add: prefix_imp_subseq)
  then have sub: "subseq hs fs" using hs(2) by (meson subseq_order.order_trans)
  show ?thesis
  proof (cases "owed s q = []")
    case True
    then have "concat chunks = concat (map encode hs) @ []" using hs(1) assms(2) by (simp add: owed_def)
    moreover have "strict_prefix [] (encode default_frame)"
      using encode_nonempty [of default_frame] by (simp add: strict_prefix_def)
    ultimately have "receive_all decode_one chunks = (map truncate_frame hs, None, [])"
      by (rule wire.receive_encoded)
    moreover have "fq_queue q = []" using True by (cases "fq_queue q") (auto simp: owed_def encode_nonempty)
    ultimately show ?thesis using sub hs(3) True by (intro exI [of _ hs] exI [of _ "[]"]) auto
  next
    case False
    have "prefix wire (concat (map encode hs))" using hs(1) by (metis prefixI)
    from prefix_of_packets [OF this] obtain gs part g where
      f: "prefix gs hs" "wire = concat (map encode gs) @ part" "strict_prefix part (encode g)" by blast
    from wire.receive_encoded [OF _ f(3), of chunks gs] f(2) assms(2)
    have "receive_all decode_one chunks = (map truncate_frame gs, None, part)" by simp
    moreover have "subseq gs fs"
      using f(1) sub by (meson prefix_imp_subseq subseq_order.order_trans)
    ultimately show ?thesis using False by blast
  qed
qed

lemma streaming_start:
  "queue_ok q \<Longrightarrow> fq_queue q = [] \<Longrightarrow> streaming [] q (ClientSession fd) []"
  by (auto simp: streaming_def ClientSession_def empty_session_def intro!: exI [of _ "[]"])

section \<open>Progress\<close>

text \<open>
  A socket that takes the bytes: every answer is an interruption or accepts some of the bytes offered.
\<close>

definition taking :: "(int \<times> errno) list \<Rightarrow> bool" where
  "taking script \<longleftrightarrow> (\<forall>(n, err) \<in> set script. 0 < n \<or> (n < 0 \<and> err = EINTR))"

definition writes_in :: "(int \<times> errno) list \<Rightarrow> nat" where
  "writes_in script = length (filter (\<lambda>(n, err). 0 < n) script)"

lemma refill_owed:
  assumes "refill q s = (something, q', s')"
  shows "owed s' q' = owed s q" "something \<longleftrightarrow> send_offset s' < length (send_buffer s')"
  using assms
  by (cases rule: refill_cases; auto simp: owed_def encode_nonempty)+

lemma owed_sent:
  assumes "sent n s pr = (s', pr')" "0 < n" "send_offset s < length (send_buffer s)"
  shows "owed s q = take n (drop (send_offset s) (send_buffer s)) @ owed s' q" "length (owed s' q) < length (owed s q)"
proof -
  show *: "owed s q = take n (drop (send_offset s) (send_buffer s)) @ owed s' q"
    using sent_outcome(1) [OF assms(1)] by (simp add: owed_def)
  have "take n (drop (send_offset s) (send_buffer s)) \<noteq> []" using assms(2,3) by simp
  then show "length (owed s' q) < length (owed s q)" unfolding * by (simp add: length_greater_0_conv [symmetric] del: length_greater_0_conv)
qed

lemma pump_loop_delivers:
  "taking script \<Longrightarrow> length (owed s q) \<le> writes_in script \<Longrightarrow>
   \<exists>r. pump_loop script q s pr e w = Some r \<and> p_result r = Progressed \<and> p_wire r = w @ owed s q"
proof (induction script arbitrary: q s pr e w)
  case Nil
  obtain something q1 s1 where rf: "refill q s = (something, q1, s1)" by (metis prod_cases3)
  have "owed s q = []" using Nil by (simp add: writes_in_def)
  then have "owed s1 q1 = []" by (simp only: refill_owed(1) [OF rf])
  then have "\<not> something" using refill_owed(2) [OF rf] by (simp add: owed_def)
  with rf \<open>owed s q = []\<close> show ?case by (simp add: pump_loop.simps [of "[]"])
next
  case (Cons a script)
  obtain n err where a: "a = (n, err)" by fastforce
  obtain something q1 s1 where rf: "refill q s = (something, q1, s1)" by (metis prod_cases3)
  note rf' = refill_owed [OF rf]
  note step = pump_loop.simps [of "(n, err) # script" q s pr e w, unfolded rf, simplified]
  have take: "taking script" using Cons.prems(1) by (simp add: taking_def)
  show ?case
  proof (cases something)
    case False
    have "owed s q = []" using rf False by (cases rule: refill_cases) (auto simp: owed_def)
    with False show ?thesis by (simp add: a step)
  next
    case some: True
    show ?thesis
    proof (cases "0 < n")
      case True
      obtain s2 pr2 where st: "sent (nat n) s1 pr = (s2, pr2)" by fastforce
      note o = owed_sent [OF st, of q1] 
      have o1: "owed s1 q1 = take (nat n) (drop (send_offset s1) (send_buffer s1)) @ owed s2 q1"
        "length (owed s2 q1) < length (owed s1 q1)"
        using o True some rf'(2) by auto
      have "length (owed s2 q1) \<le> writes_in script"
        using Cons.prems(2) True o1(2) rf'(1) by (simp add: a writes_in_def)
      from Cons.IH [OF take this, of pr2 e "w @ take (nat n) (drop (send_offset s1) (send_buffer s1))"] some True st o1(1) rf'(1)
      show ?thesis by (simp add: a step)
    next
      case False
      then have int: "n < 0" "err = EINTR" using Cons.prems(1) by (auto simp: a taking_def)
      have "length (owed s1 q1) \<le> writes_in script" using Cons.prems(2) False rf'(1) by (simp add: a writes_in_def)
      from Cons.IH [OF take this, of pr e w] some int rf'(1) show ?thesis
        by (simp add: a int(2) step [unfolded int(2)])
    qed
  qed
qed

end
