(* ===== verification/TcpServer.thy ===== *)
theory TcpServer
  imports ClientSession WakePipe
begin

text \<open>
  The streaming server, \<open>network/TcpServer.cpp\<close>: the private state, one turn of the \<open>poll\<close> loop as a
  function of what the environment answers during it, \<open>start\<close>, \<open>stop\<close> and \<open>publish\<close>. Each of these
  takes the descriptor table along. \<^const>\<open>None\<close> means that a script of answers ended too early. The
  capacity of the wake pipe is an argument.
\<close>

section \<open>State\<close>

record tcp_stats =
  st_frames_published :: u64
  st_frames_dropped :: u64
  st_frames_sent :: u64
  st_bytes_sent :: u64
  st_client_connects :: u64
  st_client_disconnects :: u64
  st_send_errors :: u64
  st_client_connected :: bool

definition zero_tcp_stats :: tcp_stats where
  "zero_tcp_stats =
     \<lparr>st_frames_published = 0, st_frames_dropped = 0, st_frames_sent = 0, st_bytes_sent = 0,
      st_client_connects = 0, st_client_disconnects = 0, st_send_errors = 0, st_client_connected = False\<rparr>"

record tcp_server =
  t_config :: tcp_server_config
  t_queue :: frame_queue
  t_worker :: worker
  t_stop_requested :: bool
  t_running :: bool
  t_client_connected :: bool
  t_listen_fd :: file_descriptor
  t_wake :: wake_pipe
  t_session :: client_session
  t_stats :: tcp_stats
  t_last_error :: string

text \<open>\<open>TcpServer(config)\<close>.\<close>

definition TcpServer :: "tcp_server_config \<Rightarrow> tcp_server" where
  "TcpServer config =
     \<lparr>t_config = config, t_queue = FrameQueue (queue_capacity config), t_worker = Detached,
      t_stop_requested = False, t_running = False, t_client_connected = False, t_listen_fd = empty_fd,
      t_wake = WakePipe, t_session = empty_session, t_stats = zero_tcp_stats, t_last_error = []\<rparr>"

section \<open>Code of the I/O thread\<close>

definition tcp_setError :: "string \<Rightarrow> tcp_server \<Rightarrow> tcp_server" where
  "tcp_setError message t = (if message = [] then t else t\<lparr>t_last_error := message\<rparr>)"

definition endSession :: "bool \<Rightarrow> tcp_server \<Rightarrow> os \<Rightarrow> tcp_server \<times> os" where
  "endSession error_related t os =
     (if \<not> cs_valid (t_session t) then (t, os)
      else case cs_close (t_session t) os of (s, os) \<Rightarrow>
        let t = t\<lparr>t_session := s, t_client_connected := False\<rparr>;
            st = (t_stats t)\<lparr>st_client_disconnects := st_client_disconnects (t_stats t) + 1\<rparr>;
            st = (if error_related then st\<lparr>st_send_errors := st_send_errors st + 1\<rparr> else st)
        in (t\<lparr>t_stats := st\<lparr>st_client_connected := False\<rparr>\<rparr>, os))"

text \<open>The accepted session replaces the member, whose descriptor the assignment would close.\<close>

definition acceptClient ::
  "(int sys_result \<times> errno option) list \<Rightarrow> tcp_server \<Rightarrow> os \<Rightarrow> (tcp_server \<times> os) option" where
  "acceptClient script t os =
     (case cs_accept script (t_config t) [] os of
        None \<Rightarrow> None
      | Some (accepted, opts, error, os) \<Rightarrow>
          let t = tcp_setError error t in
          if \<not> cs_valid accepted then Some (t, os)
          else (case (if cs_valid (t_session t) then endSession False t os else (t, os)) of (t, os) \<Rightarrow>
            (case fd_move_assign (cs_socket (t_session t)) (cs_socket accepted) os of (fd, _, os) \<Rightarrow>
               let t = t\<lparr>t_session := accepted\<lparr>cs_socket := fd\<rparr>, t_client_connected := True\<rparr>;
                   t = t\<lparr>t_queue := clear (t_queue t)\<rparr>
               in Some (t\<lparr>t_stats := (t_stats t)\<lparr>st_client_connects := st_client_connects (t_stats t) + 1,
                                               st_client_connected := True\<rparr>\<rparr>, os))))"

text \<open>\<open>serviceOutput\<close>, with the bytes the kernel accepted.\<close>

definition serviceOutput ::
  "(int \<times> errno) list \<Rightarrow> tcp_server \<Rightarrow> os \<Rightarrow> (tcp_server \<times> os \<times> bytes) option" where
  "serviceOutput script t os =
     (case pump script (t_queue t) (t_session t) no_progress [] of
        None \<Rightarrow> None
      | Some r \<Rightarrow>
          let t = t\<lparr>t_queue := p_queue r, t_session := p_session r\<rparr>; progress = p_progress r;
              t = (if bytes_sent progress \<noteq> 0 \<or> frames_sent progress \<noteq> 0
                   then t\<lparr>t_stats := (t_stats t)\<lparr>st_bytes_sent := st_bytes_sent (t_stats t) + bytes_sent progress,
                                               st_frames_sent := st_frames_sent (t_stats t) + frames_sent progress\<rparr>\<rparr>
                   else t)
          in if p_result r = Failed
             then (case endSession True (tcp_setError (p_error r) t) os of (t, os) \<Rightarrow> Some (t, os, p_wire r))
             else Some (t, os, p_wire r))"

definition serviceClientEvents ::
  "poll_event list \<Rightarrow> (int \<times> errno) list \<Rightarrow> tcp_server \<Rightarrow> os \<Rightarrow> (tcp_server \<times> os) option" where
  "serviceClientEvents revents script t os =
     (if POLLHUP \<in> set revents \<or> POLLERR \<in> set revents \<or> POLLNVAL \<in> set revents
      then Some (endSession (POLLERR \<in> set revents) t os)
      else if POLLIN \<notin> set revents then Some (t, os)
      else case drainInput script (t_session t) of
        None \<Rightarrow> None
      | Some result \<Rightarrow>
          Some (if result = Closed then endSession False t os
                else if result = Failed then endSession True t os else (t, os)))"

text \<open>
  What the environment answers during one turn of the loop: the outcome of \<open>poll\<close> (the \<open>errno\<close> of a
  failure, or what it reports for the wake pipe, the listening socket and the client), and the
  scripts of the calls that follow.
\<close>

record io_turn =
  io_poll :: "(bool \<times> bool \<times> poll_event list) sys_result"
  io_recv :: "(int \<times> errno) list"
  io_accept :: "(int sys_result \<times> errno option) list"
  io_send :: "(int \<times> errno) list"

text \<open>The array given to \<open>poll\<close>: the descriptors with the events asked for.\<close>

definition poll_set :: "tcp_server \<Rightarrow> (int \<times> poll_event list) list" where
  "poll_set t =
     [(readFd (t_wake t), [POLLIN]), (fd_get (t_listen_fd t), [POLLIN])] @
     (if cs_valid (t_session t)
      then [(cs_fd (t_session t), pollEvents (t_session t) (\<not> queue_empty (t_queue t)))] else [])"

text \<open>The body of the loop, after its test: whether it goes on, the server, the table, the bytes sent.\<close>

definition tcp_turn :: "io_turn \<Rightarrow> tcp_server \<Rightarrow> os \<Rightarrow> (bool \<times> tcp_server \<times> os \<times> bytes) option" where
  "tcp_turn turn t os =
     (case io_poll turn of
        Fail EINTR \<Rightarrow> Some (True, t, os, [])
      | Fail e \<Rightarrow> Some (False, tcp_setError (net_describeErrno ''poll()'' e) t, os, [])
      | Done (wake_in, listen_in, revents) \<Rightarrow>
          let t = (if wake_in then t\<lparr>t_wake := wp_drain (t_wake t)\<rparr> else t) in
          Option.bind
            (if cs_valid (t_session t) then serviceClientEvents revents (io_recv turn) t os else Some (t, os))
            (\<lambda>(t, os). Option.bind
              (if listen_in then acceptClient (io_accept turn) t os else Some (t, os))
              (\<lambda>(t, os).
                if cs_valid (t_session t)
                then map_option (\<lambda>(t, os, wire). (True, t, os, wire)) (serviceOutput (io_send turn) t os)
                else Some (True, t\<lparr>t_queue := clear (t_queue t)\<rparr>, os, []))))"

text \<open>The statements after the loop.\<close>

definition tcp_run_exit :: "tcp_server \<Rightarrow> os \<Rightarrow> tcp_server \<times> os" where
  "tcp_run_exit t os = (case endSession False t os of (t, os) \<Rightarrow>
     (t\<lparr>t_queue := clear (t_queue t), t_running := False, t_worker := Returned\<rparr>, os))"

section \<open>Code of the other threads\<close>

record start_kernel =
  sk_pipe :: "(int \<times> int) sys_result"
  sk_getfl :: "int \<Rightarrow> int"
  sk_setfl :: "int \<Rightarrow> int \<Rightarrow> int"
  sk_pipe_errno :: errno
  sk_listen :: listen_kernel
  sk_spawn_error :: "string option"

text \<open>
  \<open>start()\<close>; \<^const>\<open>None\<close> is \<open>std::terminate\<close>, which assigning a thread to a joinable one calls.
\<close>

definition tcp_start :: "start_kernel \<Rightarrow> tcp_server \<Rightarrow> os \<Rightarrow> (bool \<times> tcp_server \<times> os) option" where
  "tcp_start k t os =
     (if t_running t then Some (False, tcp_setError ''start() called while already running'' t, os)
      else let t = t\<lparr>t_stop_requested := False\<rparr> in
      case wp_open (sk_pipe k) (sk_getfl k) (sk_setfl k) (t_wake t) os of (ready, w, os) \<Rightarrow>
        let t = t\<lparr>t_wake := w\<rparr> in
        if \<not> ready
        then (case wp_close (t_wake t) os of (w, os) \<Rightarrow>
          Some (False, (tcp_setError (net_describeErrno ''pipe()'' (sk_pipe_errno k)) t)\<lparr>t_wake := w\<rparr>, os))
        else case makeListenSocket (sk_listen k) (t_config t) [] os of (fd, error, os) \<Rightarrow>
          (case fd_move_assign (t_listen_fd t) fd os of (fd, _, os) \<Rightarrow>
            let t = t\<lparr>t_listen_fd := fd\<rparr> in
            if \<not> fd_valid (t_listen_fd t)
            then (case wp_close (t_wake t) os of (w, os) \<Rightarrow> Some (False, (tcp_setError error t)\<lparr>t_wake := w\<rparr>, os))
            else let t = t\<lparr>t_running := True\<rparr> in
            (case sk_spawn_error k of
               Some what \<Rightarrow>
                 (case fd_reset (t_listen_fd t) os of (fd, os) \<Rightarrow>
                   (case wp_close (t_wake t) os of (w, os) \<Rightarrow>
                     Some (False, tcp_setError (''failed to spawn I/O thread: '' @ what)
                       (t\<lparr>t_running := False, t_listen_fd := fd, t_wake := w\<rparr>), os)))
             | None \<Rightarrow> if joinable (t_worker t) then None else Some (True, t\<lparr>t_worker := Running\<rparr>, os))))"

text \<open>\<open>stop()\<close>: the request and the signal, and, once a joinable thread has returned, the rest.\<close>

definition tcp_stop_request :: "nat \<Rightarrow> tcp_server \<Rightarrow> tcp_server" where
  "tcp_stop_request cap t = t\<lparr>t_stop_requested := True, t_wake := wp_signal cap (t_wake t)\<rparr>"

definition tcp_stop_finish :: "tcp_server \<Rightarrow> os \<Rightarrow> tcp_server \<times> os" where
  "tcp_stop_finish t os =
     (case fd_reset (t_listen_fd t) os of (fd, os) \<Rightarrow>
        (case wp_close (t_wake t) os of (w, os) \<Rightarrow>
           (t\<lparr>t_worker := Detached, t_listen_fd := fd, t_wake := w, t_client_connected := False, t_running := False\<rparr>, os)))"

text \<open>
  The destructor of a server whose thread, if it has one, has returned: \<open>stop\<close>, and then the members of
  \<open>Impl\<close> that own a descriptor, in the reverse of their order.
\<close>

definition tcp_destroy :: "nat \<Rightarrow> tcp_server \<Rightarrow> os \<Rightarrow> os" where
  "tcp_destroy cap t os =
     (case tcp_stop_finish (tcp_stop_request cap t) os of (t, os) \<Rightarrow>
        let os = fd_destroy (cs_socket (t_session t)) os;
            os = fd_destroy (write_end (t_wake t)) os;
            os = fd_destroy (read_end (t_wake t)) os
        in fd_destroy (t_listen_fd t) os)"

text \<open>
  \<open>publish(frame)\<close>, in the pieces between which other threads may run: the count, the two loads, the
  early return, the push with its count, the signal.
\<close>

definition publish_count :: "tcp_server \<Rightarrow> tcp_server" where
  "publish_count t = t\<lparr>t_stats := (t_stats t)\<lparr>st_frames_published := st_frames_published (t_stats t) + 1\<rparr>\<rparr>"

definition nobody_listens :: "tcp_server \<Rightarrow> bool" where
  "nobody_listens t \<longleftrightarrow> \<not> t_client_connected t \<or> \<not> t_running t"

definition publish_discard :: "tcp_server \<Rightarrow> tcp_server" where
  "publish_discard t = t\<lparr>t_stats := (t_stats t)\<lparr>st_frames_dropped := st_frames_dropped (t_stats t) + 1\<rparr>\<rparr>"

definition publish_push :: "scan_frame \<Rightarrow> tcp_server \<Rightarrow> tcp_server" where
  "publish_push frame t =
     (case push frame (t_queue t) of (q, dropped) \<Rightarrow>
        let t = t\<lparr>t_queue := q\<rparr>
        in if dropped \<noteq> 0
           then t\<lparr>t_stats := (t_stats t)\<lparr>st_frames_dropped := st_frames_dropped (t_stats t) + word_of_nat dropped\<rparr>\<rparr>
           else t)"

definition publish_signal :: "nat \<Rightarrow> tcp_server \<Rightarrow> tcp_server" where
  "publish_signal cap t = t\<lparr>t_wake := wp_signal cap (t_wake t)\<rparr>"

definition publish :: "nat \<Rightarrow> scan_frame \<Rightarrow> tcp_server \<Rightarrow> tcp_server" where
  "publish cap frame t =
     (let t = publish_count t
      in if nobody_listens t then publish_discard t else publish_signal cap (publish_push frame t))"

definition isRunning :: "tcp_server \<Rightarrow> bool" where
  "isRunning t \<longleftrightarrow> t_running t"

definition hasClient :: "tcp_server \<Rightarrow> bool" where
  "hasClient t \<longleftrightarrow> t_client_connected t"

definition tcp_statistics :: "tcp_server \<Rightarrow> tcp_stats" where
  [simp]: "tcp_statistics t = t_stats t"

definition tcp_lastError :: "tcp_server \<Rightarrow> string" where
  [simp]: "tcp_lastError t = t_last_error t"

end
