(* ===== verification/ServerInterleaving.thy ===== *)
theory ServerInterleaving
  imports TcpServer
begin

text \<open>
  The streaming server under concurrency: the step relation in which the I/O thread, the controlling
  thread and any number of publishers interleave, its invariant, and the proof that a turn of the loop
  and a call of \<open>publish\<close> are such steps.
\<close>

section \<open>Interleavings\<close>

text \<open>
  The server with the descriptor table, one statement group at a time: those of the poll loop and of
  the exit of the I/O thread, while it runs; \<open>start\<close> and \<open>stop\<close> of the controlling thread, which gets
  past the join only when the I/O thread has returned; and the pieces of \<open>publish\<close>, at any time and
  from any thread.
\<close>

definition fresh_accepts :: "os \<Rightarrow> (int sys_result \<times> errno option) list \<Rightarrow> bool" where
  "fresh_accepts os script \<longleftrightarrow> (\<forall>(answer, nonblock) \<in> set script. fresh_fd os answer)"

definition fresh_start :: "start_kernel \<Rightarrow> tcp_server \<Rightarrow> os \<Rightarrow> bool" where
  "fresh_start k t os \<longleftrightarrow> fresh_pair os (sk_pipe k) \<and>
     fresh_fd (snd (snd (wp_open (sk_pipe k) (sk_getfl k) (sk_setfl k) (t_wake t) os))) (lk_socket (sk_listen k))"

inductive io_step :: "tcp_server \<times> os \<Rightarrow> tcp_server \<times> os \<Rightarrow> bool" where
  drains: "t_worker t = Running \<Longrightarrow> io_step (t, os) (t\<lparr>t_wake := wp_drain (t_wake t)\<rparr>, os)"
| client_events: "t_worker t = Running \<Longrightarrow> cs_valid (t_session t) \<Longrightarrow>
    serviceClientEvents revents script t os = Some r \<Longrightarrow> io_step (t, os) r"
| accepts: "t_worker t = Running \<Longrightarrow> fresh_accepts os accept_script \<Longrightarrow>
    acceptClient accept_script t os = Some r \<Longrightarrow> io_step (t, os) r"
| outputs: "t_worker t = Running \<Longrightarrow> cs_valid (t_session t) \<Longrightarrow> serviceOutput script t os = Some (t', os', wire) \<Longrightarrow>
    io_step (t, os) (t', os')"
| idles: "t_worker t = Running \<Longrightarrow> \<not> cs_valid (t_session t) \<Longrightarrow>
    io_step (t, os) (t\<lparr>t_queue := clear (t_queue t)\<rparr>, os)"
| breaks: "t_worker t = Running \<Longrightarrow> io_step (t, os) (tcp_run_exit (tcp_setError (net_describeErrno ''poll()'' e) t) os)"
| leaves: "t_worker t = Running \<Longrightarrow> t_stop_requested t \<Longrightarrow> io_step (t, os) (tcp_run_exit t os)"

inductive server_step :: "nat \<Rightarrow> tcp_server \<times> os \<Rightarrow> tcp_server \<times> os \<Rightarrow> bool" for cap where
  io_steps: "io_step s s' \<Longrightarrow> server_step cap s s'"
| starts: "fresh_start k t os \<Longrightarrow> tcp_start k t os = Some (ok, r) \<Longrightarrow> server_step cap (t, os) r"
| stop_requests: "server_step cap (t, os) (tcp_stop_request cap t, os)"
| stop_finishes: "t_worker t \<noteq> Running \<Longrightarrow> server_step cap (t, os) (tcp_stop_finish t os)"
| publish_counts: "server_step cap (t, os) (publish_count t, os)"
| publish_discards: "server_step cap (t, os) (publish_discard t, os)"
| publish_pushes: "server_step cap (t, os) (publish_push frame t, os)"
| publish_signals: "server_step cap (t, os) (publish_signal cap t, os)"

text \<open>
  One whole \<open>publish\<close> while the I/O thread runs between its pieces: the two loads are apart, and after
  each of them, and before the signal, the thread may take any number of steps.
\<close>

inductive publishes :: "nat \<Rightarrow> scan_frame \<Rightarrow> tcp_server \<times> os \<Rightarrow> tcp_server \<times> os \<Rightarrow> bool" for cap frame where
  no_client: "io_step\<^sup>*\<^sup>* (publish_count t, os) (t1, os1) \<Longrightarrow> \<not> t_client_connected t1 \<Longrightarrow>
    io_step\<^sup>*\<^sup>* (t1, os1) (t2, os2) \<Longrightarrow> publishes cap frame (t, os) (publish_discard t2, os2)"
| not_running: "io_step\<^sup>*\<^sup>* (publish_count t, os) (t1, os1) \<Longrightarrow> t_client_connected t1 \<Longrightarrow>
    io_step\<^sup>*\<^sup>* (t1, os1) (t2, os2) \<Longrightarrow> \<not> t_running t2 \<Longrightarrow>
    io_step\<^sup>*\<^sup>* (t2, os2) (t3, os3) \<Longrightarrow> publishes cap frame (t, os) (publish_discard t3, os3)"
| queues: "io_step\<^sup>*\<^sup>* (publish_count t, os) (t1, os1) \<Longrightarrow> t_client_connected t1 \<Longrightarrow>
    io_step\<^sup>*\<^sup>* (t1, os1) (t2, os2) \<Longrightarrow> t_running t2 \<Longrightarrow>
    io_step\<^sup>*\<^sup>* (t2, os2) (t3, os3) \<Longrightarrow> io_step\<^sup>*\<^sup>* (publish_push frame t3, os3) (t4, os4) \<Longrightarrow>
    publishes cap frame (t, os) (publish_signal cap t4, os4)"

section \<open>Invariant\<close>

text \<open>
  The descriptors are the listening socket, the two ends of the pipe and the session's socket. The
  mirrors of the session's validity and the counters agree with it; \<open>running\<close> is whether the I/O thread
  is; no session exists without it; and a thread that runs has its socket and pipe.
\<close>

definition tcp_fds :: "tcp_server \<Rightarrow> file_descriptor list" where
  "tcp_fds t = [read_end (t_wake t), write_end (t_wake t), t_listen_fd t, cs_socket (t_session t)]"

definition wake_ready :: "wake_pipe \<Rightarrow> bool" where
  "wake_ready w \<longleftrightarrow> (if fd_valid (write_end w) then wake_ok w else \<not> pending w)"

definition session_accounted :: "tcp_server \<Rightarrow> bool" where
  "session_accounted t \<longleftrightarrow> (t_client_connected t \<longleftrightarrow> cs_valid (t_session t)) \<and>
     (st_client_connected (t_stats t) \<longleftrightarrow> cs_valid (t_session t)) \<and>
     st_client_connects (t_stats t) = st_client_disconnects (t_stats t) + (if cs_valid (t_session t) then 1 else 0)"

definition thread_ok :: "tcp_server \<Rightarrow> bool" where
  "thread_ok t \<longleftrightarrow> (t_running t \<longleftrightarrow> t_worker t = Running) \<and> (cs_valid (t_session t) \<longrightarrow> t_running t) \<and>
     (t_running t \<longrightarrow> fd_valid (t_listen_fd t) \<and> fd_valid (read_end (t_wake t)) \<and> fd_valid (write_end (t_wake t))) \<and>
     (t_worker t = Detached \<longrightarrow> \<not> fd_valid (t_listen_fd t) \<and> \<not> fd_valid (read_end (t_wake t)) \<and> \<not> fd_valid (write_end (t_wake t)))"

definition tcp_ok :: "int set \<Rightarrow> tcp_server \<times> os \<Rightarrow> bool" where
  "tcp_ok base s \<longleftrightarrow> (case s of (t, os) \<Rightarrow> owns base (tcp_fds t) os \<and> wake_ready (t_wake t) \<and>
     queue_ok (t_queue t) \<and> fq_capacity (t_queue t) = max 1 (queue_capacity (t_config t)) \<and>
     session_accounted t \<and> thread_ok t)"

lemmas tcp_ok_defs = tcp_ok_def tcp_fds_def wake_ready_def session_accounted_def thread_ok_def cs_valid_def

definition tcp_new :: "int set \<Rightarrow> tcp_server \<times> os \<Rightarrow> bool" where
  "tcp_new base s \<longleftrightarrow> (\<exists>config. fst s = TcpServer config) \<and> open_fds (snd s) = base \<and> \<not> bad_close (snd s)"

lemma tcp_new_ok: "tcp_new base s \<Longrightarrow> tcp_ok base s"
  by (cases s) (auto simp: tcp_new_def tcp_ok_defs TcpServer_def owns_empty owns_none empty_fd_def fd_valid_def
      WakePipe_def empty_session_def zero_tcp_stats_def queue_ok_FrameQueue, auto simp: FrameQueue_def)

lemma wake_ready_ops:
  "wake_ready w \<Longrightarrow> 0 < cap \<Longrightarrow> wake_ready (wp_signal cap w)" "wake_ready w \<Longrightarrow> wake_ready (wp_drain w)"
  "write_end (wp_signal cap w) = write_end w" "read_end (wp_signal cap w) = read_end w"
  "write_end (wp_drain w) = write_end w" "read_end (wp_drain w) = read_end w"
  by (auto simp: wake_ready_def wake_ok_def wp_signal_def wp_drain_eq Let_def)

lemma tcp_ok_wake:
  "tcp_ok base (t, os) \<Longrightarrow> 0 < cap \<Longrightarrow> tcp_ok base (t\<lparr>t_wake := wp_signal cap (t_wake t)\<rparr>, os)"
  "tcp_ok base (t, os) \<Longrightarrow> tcp_ok base (t\<lparr>t_wake := wp_drain (t_wake t)\<rparr>, os)"
  by (auto simp: tcp_ok_def tcp_fds_def session_accounted_def thread_ok_def wake_ready_ops)

lemma tcp_ok_queue:
  "tcp_ok base (t, os) \<Longrightarrow> queue_ok q \<Longrightarrow> fq_capacity q = fq_capacity (t_queue t) \<Longrightarrow> tcp_ok base (t\<lparr>t_queue := q\<rparr>, os)"
  by (auto simp: tcp_ok_defs)

lemma tcp_ok_error: "tcp_ok base (tcp_setError e t, os) = tcp_ok base (t, os)"
  by (simp add: tcp_ok_defs tcp_setError_def)

lemma tcp_ok_counts:
  "tcp_ok base (t\<lparr>t_stats := st_frames_published_update f (t_stats t)\<rparr>, os) = tcp_ok base (t, os)"
  "tcp_ok base (t\<lparr>t_stats := st_frames_dropped_update f (t_stats t)\<rparr>, os) = tcp_ok base (t, os)"
  "tcp_ok base (t\<lparr>t_stats := st_bytes_sent_update f (t_stats t)\<rparr>, os) = tcp_ok base (t, os)"
  "tcp_ok base (t\<lparr>t_stats := st_frames_sent_update f (t_stats t)\<rparr>, os) = tcp_ok base (t, os)"
  "tcp_ok base (t\<lparr>t_stop_requested := b\<rparr>, os) = tcp_ok base (t, os)"
  by (simp_all add: tcp_ok_defs)


lemma tcp_ok_clear: "tcp_ok base (t, os) \<Longrightarrow> tcp_ok base (t\<lparr>t_queue := clear (t_queue t)\<rparr>, os)"
  using clear_queue [of "t_queue t"] by (intro tcp_ok_queue) (auto simp: tcp_ok_def queue_ok_alt)

lemma tcp_ok_push: "tcp_ok base (t, os) \<Longrightarrow> tcp_ok base (publish_push f t, os)"
proof -
  assume ok: "tcp_ok base (t, os)"
  then have q: "queue_ok (t_queue t)" by (simp add: tcp_ok_def)
  have "tcp_ok base (t\<lparr>t_queue := fst (push f (t_queue t))\<rparr>, os)"
    using ok fq.push_keeps [OF q, of f] by (intro tcp_ok_queue) auto
  then show ?thesis
    using tcp_ok_counts(2) [where base = base and t = "t\<lparr>t_queue := fst (push f (t_queue t))\<rparr>"]
    by (simp add: publish_push_def split_beta Let_def)
qed

lemma endSession_fields:
  assumes "endSession e t os = (t', os')"
  shows "\<not> cs_valid (t_session t')" "t_worker t' = t_worker t" "t_queue t' = t_queue t" "t_wake t' = t_wake t"
    "t_config t' = t_config t" "t_running t' = t_running t" "t_listen_fd t' = t_listen_fd t"
  using assms by (auto simp: endSession_def cs_close_def cs_valid_def fd_defs Let_def split: if_splits)

lemma endSession_ok:
  assumes "tcp_ok base (t, os)" "endSession e t os = (t', os')"
  shows "tcp_ok base (t', os')"
proof (cases "cs_valid (t_session t)")
  case False
  with assms show ?thesis by (simp add: endSession_def)
next
  case True
  obtain fd os1 where r: "fd_reset (cs_socket (t_session t)) os = (fd, os1)" by fastforce
  have e: "t_session t' = (t_session t)\<lparr>cs_socket := fd, send_buffer := [], send_offset := 0\<rparr>" "os' = os1"
    "\<not> t_client_connected t'" "\<not> st_client_connected (t_stats t')"
    "st_client_connects (t_stats t') = st_client_connects (t_stats t)"
    "st_client_disconnects (t_stats t') = st_client_disconnects (t_stats t) + 1"
    using assms(2) True r by (auto simp: endSession_def cs_close_def Let_def split: if_splits)
  have "owns base (cs_socket (t_session t) # [read_end (t_wake t), write_end (t_wake t), t_listen_fd t]) os"
    by (rule owns_perm) (use assms(1) in \<open>auto simp: tcp_ok_def tcp_fds_def\<close>)
  note o = owns_reset [OF this r]
  then have "owns base (fd # [read_end (t_wake t), write_end (t_wake t), t_listen_fd t]) os'" by (simp add: owns_empty e(2))
  then have "owns base (tcp_fds t') os'"
    by (rule owns_perm) (use e endSession_fields [OF assms(2)] in \<open>simp add: tcp_fds_def\<close>)
  moreover have "fd < 0" using o by simp
  ultimately show ?thesis
    using assms(1) e endSession_fields [OF assms(2)] True
    unfolding tcp_ok_def session_accounted_def thread_ok_def by auto
qed

lemma cs_accept_outcome:
  assumes "fresh_accepts os script" "cs_accept script config e os = Some (s, opts, e', os')"
  shows "(cs_valid s \<longrightarrow> fresh_fd os (Done (cs_socket s)) \<and> os' = os_open (cs_socket s) os \<and> s = ClientSession (cs_socket s)) \<and>
    (\<not> cs_valid s \<longrightarrow> os' = os \<and> s = empty_session)"
  using assms
proof (induction script config e os rule: cs_accept.induct)
  case (1 config e os)
  then show ?case by simp
next
  case (2 answer nonblock script config e os)
  have fresh: "fresh_accepts os script" "fresh_fd os answer" using 2(3) by (auto simp: fresh_accepts_def)
  show ?case
  proof (cases answer)
    case (Fail err)
    with 2 fresh show ?thesis
      by (cases err) (auto simp: cs_valid_def empty_session_def empty_fd_def fd_valid_def)
  next
    case (Done fd)
    then have fd: "0 \<le> fd" "fd \<notin> open_fds os" using fresh(2) by (simp_all add: fresh_fd_def)
    show ?thesis
    proof (cases nonblock)
      case None
      with 2(4) Done fd fresh(2) show ?thesis by (auto simp: ClientSession_def FileDescriptor_def cs_valid_def fd_valid_def)
    next
      case (Some err)
      have "snd (fd_reset (FileDescriptor fd) (os_open fd os)) = os" using fd by (simp add: fd_defs)
      with 2(1) [OF Done refl Some] 2(4) Done Some fresh(1) show ?thesis by simp
    qed
  qed
qed

text \<open>Installing an accepted session: the old one ends, the new descriptor joins the ledger.\<close>

lemma acceptClient_installs:
  assumes "tcp_ok base (t, os)" "t_worker t = Running" "fresh_accepts os script" "acceptClient script t os = Some (t', os')"
    and acc: "cs_accept script (t_config t) [] os = Some (s, opts, e, os1)" and True: "cs_valid s"
  shows "tcp_ok base (t', os') \<and> t_worker t' = Running \<and> t_session t' = s \<and> fq_queue (t_queue t') = [] \<and>
    s = ClientSession (cs_socket s)"
proof -
  let ?t = "tcp_setError e t"
  have same: "t_session ?t = t_session t" "t_worker ?t = t_worker t" "t_queue ?t = t_queue t" "t_config ?t = t_config t"
    "t_wake ?t = t_wake t" "t_listen_fd ?t = t_listen_fd t" "t_running ?t = t_running t"
    by (simp_all add: tcp_setError_def)
  note out = cs_accept_outcome [OF assms(3) acc]
  let ?fd = "cs_socket s"
  have fresh: "fresh_fd os (Done ?fd)" and os1: "os1 = os_open ?fd os" and s: "s = ClientSession ?fd"
    using out True by simp_all
  obtain t2 os2 where es: "(if cs_valid (t_session ?t) then endSession False ?t os1 else (?t, os1)) = (t2, os2)"
    by fastforce
  have es': "endSession False ?t os1 = (t2, os2)" using es by (cases "cs_valid (t_session ?t)") (auto simp: endSession_def)
  have "tcp_ok (insert ?fd base) (?t, os1)"
    using assms(1) owns_aside [OF _ fresh] by (simp add: tcp_ok_error) (simp add: tcp_ok_def os1)
  note ok2 = endSession_ok [OF this es']
  note f2 = endSession_fields [OF es']
  have fd: "0 \<le> ?fd" "?fd \<notin> base" using fresh owns_fresh [of base _ os] assms(1) by (auto simp: fresh_fd_def tcp_ok_def)
  have neg: "cs_socket (t_session t2) < 0" using f2(1) by (simp add: cs_valid_def fd_valid_def)
  have "owns (insert ?fd base) [cs_socket (t_session t2), read_end (t_wake t2), write_end (t_wake t2), t_listen_fd t2] os2"
    by (rule owns_perm) (use ok2 in \<open>auto simp: tcp_ok_def tcp_fds_def\<close>)
  then have "owns base [?fd, read_end (t_wake t2), write_end (t_wake t2), t_listen_fd t2] os2"
    using neg fd by (simp add: owns_empty owns_adopt)
  then have own: "owns base [read_end (t_wake t2), write_end (t_wake t2), t_listen_fd t2, ?fd] os2"
    by (rule owns_perm) simp
  have mv: "fd_move_assign (cs_socket (t_session t2)) ?fd os2 = (?fd, - 1, os2)"
    using neg by (simp add: fd_defs)
  have t': "(t', os') = (t2\<lparr>t_session := s, t_client_connected := True, t_queue := clear (t_queue t2),
      t_stats := (t_stats t2)\<lparr>st_client_connects := st_client_connects (t_stats t2) + 1, st_client_connected := True\<rparr>\<rparr>, os2)"
    using assms(4) True by (simp add: acceptClient_def acc Let_def es [unfolded Let_def] mv)
  have "tcp_ok base (t', os')"
    using ok2 own t' f2 same assms(1,2) fd clear_queue [of "t_queue t2"]
    unfolding tcp_ok_def session_accounted_def thread_ok_def
    by (auto simp: tcp_fds_def cs_valid_def fd_valid_def queue_ok_alt)
  moreover have "t_worker t' = Running" "t_session t' = s" "fq_queue (t_queue t') = []"
    using t' f2 same assms(2) clear_queue [of "t_queue t2"] by simp_all
  ultimately show ?thesis using s by simp
qed

lemma acceptClient_ok:
  assumes "tcp_ok base (t, os)" "t_worker t = Running" "fresh_accepts os script" "acceptClient script t os = Some (t', os')"
  shows "tcp_ok base (t', os')" "t_worker t' = Running"
    "st_client_connects (t_stats t') \<noteq> st_client_connects (t_stats t) \<longrightarrow> cs_valid (t_session t') \<and>
       t_session t' = ClientSession (cs_socket (t_session t')) \<and> fq_queue (t_queue t') = []"
proof -
  obtain s opts e os1 where acc: "cs_accept script (t_config t) [] os = Some (s, opts, e, os1)"
    using assms(4) by (auto simp: acceptClient_def split: option.splits)
  have "tcp_ok base (t', os') \<and> t_worker t' = Running \<and> (st_client_connects (t_stats t') \<noteq> st_client_connects (t_stats t) \<longrightarrow> cs_valid (t_session t') \<and>
       t_session t' = ClientSession (cs_socket (t_session t')) \<and> fq_queue (t_queue t') = [])"
  proof (cases "cs_valid s")
    case False
    then have "t' = tcp_setError e t" "os' = os"
      using assms(4) cs_accept_outcome [OF assms(3) acc] by (simp_all add: acceptClient_def acc Let_def)
    then show ?thesis using assms(1,2) by (simp add: tcp_ok_error) (simp add: tcp_setError_def)
  next
    case True
    from acceptClient_installs [OF assms acc True] True show ?thesis by metis
  qed
  then show "tcp_ok base (t', os')" "t_worker t' = Running"
    "st_client_connects (t_stats t') \<noteq> st_client_connects (t_stats t) \<longrightarrow> cs_valid (t_session t') \<and>
       t_session t' = ClientSession (cs_socket (t_session t')) \<and> fq_queue (t_queue t') = []" by blast+
qed

lemma serviceClientEvents_ok:
  assumes "tcp_ok base (t, os)" "serviceClientEvents revents script t os = Some (t', os')"
  shows "tcp_ok base (t', os')" "t_worker t' = t_worker t"
  using assms endSession_ok [OF assms(1)] endSession_fields(2)
  by (auto simp: serviceClientEvents_def split: if_splits option.splits)

lemma serviceOutput_ok:
  assumes "tcp_ok base (t, os)" "cs_valid (t_session t)" "serviceOutput script t os = Some (t', os', wire)"
  shows "tcp_ok base (t', os')" "t_worker t' = t_worker t"
proof -
  obtain r where r: "pump script (t_queue t) (t_session t) no_progress [] = Some r"
    using assms(3) by (auto simp: serviceOutput_def split: option.splits)
  have p: "pumped [] (t_session t) (t_queue t) r" by (rule pump_pumped [OF r assms(2)])
  let ?t = "t\<lparr>t_queue := p_queue r, t_session := p_session r\<rparr>"
  have ok1: "tcp_ok base (?t, os)"
    using assms(1) p by (auto simp: tcp_ok_defs pumped_def)
  define t2 where "t2 = (if bytes_sent (p_progress r) \<noteq> 0 \<or> frames_sent (p_progress r) \<noteq> 0
     then ?t\<lparr>t_stats := (t_stats ?t)\<lparr>st_bytes_sent := st_bytes_sent (t_stats ?t) + bytes_sent (p_progress r),
                      st_frames_sent := st_frames_sent (t_stats ?t) + frames_sent (p_progress r)\<rparr>\<rparr> else ?t)"
  have ok2: "tcp_ok base (t2, os)" "t_worker t2 = t_worker t"
    using ok1 unfolding t2_def by (auto simp: tcp_ok_defs)
  show "tcp_ok base (t', os')" "t_worker t' = t_worker t"
    using assms(3) ok2 endSession_ok [of base "tcp_setError (p_error r) t2" os True] endSession_fields(2) [of True "tcp_setError (p_error r) t2" os]
    unfolding serviceOutput_def r option.case Let_def t2_def [symmetric]
    by (auto simp: tcp_ok_error split: if_splits prod.splits) (simp_all add: tcp_setError_def split: if_splits)
qed

lemma tcp_run_exit_ok:
  assumes "tcp_ok base (t, os)"
  shows "tcp_ok base (tcp_run_exit t os)"
proof -
  obtain t1 os1 where e: "endSession False t os = (t1, os1)" by fastforce
  note ok = tcp_ok_clear [OF endSession_ok [OF assms e]] and f = endSession_fields [OF e]
  have "tcp_run_exit t os = (t1\<lparr>t_queue := clear (t_queue t1), t_running := False, t_worker := Returned\<rparr>, os1)"
    by (simp add: tcp_run_exit_def e)
  with ok f(1) show ?thesis unfolding tcp_ok_def session_accounted_def thread_ok_def tcp_fds_def by auto
qed

lemma tcp_stop_finish_ok:
  assumes "tcp_ok base (t, os)" "t_worker t \<noteq> Running" "tcp_stop_finish t os = (t', os')"
  shows "tcp_ok base (t', os')" "t_worker t' = Detached" "open_fds os' = base"
proof -
  obtain fd os1 where 1: "fd_reset (t_listen_fd t) os = (fd, os1)" by fastforce
  obtain w os2 where 2: "wp_close (t_wake t) os1 = (w, os2)" by fastforce
  have t': "t' = t\<lparr>t_worker := Detached, t_listen_fd := fd, t_wake := w, t_client_connected := False, t_running := False\<rparr>"
    "os' = os2" using assms(3) 1 2 by (simp_all add: tcp_stop_finish_def)
  have run: "\<not> cs_valid (t_session t)" "\<not> t_running t" using assms(1,2) by (auto simp: tcp_ok_def thread_ok_def)
  have neg: "cs_socket (t_session t) < 0" using run(1) by (simp add: cs_valid_def fd_valid_def)
  have "owns base (cs_socket (t_session t) # t_listen_fd t # [read_end (t_wake t), write_end (t_wake t)]) os"
    by (rule owns_perm) (use assms(1) in \<open>auto simp: tcp_ok_def tcp_fds_def\<close>)
  then have "owns base (t_listen_fd t # [read_end (t_wake t), write_end (t_wake t)]) os" using neg by (simp add: owns_empty)
  note o1 = owns_reset [OF this 1]
  note o2 = wp_close_owns [OF conjunct1 [OF o1] 2]
  show "t_worker t' = Detached" by (simp add: t')
  show "open_fds os' = base" using o2(1) by (simp add: t' owns_none)
  show "tcp_ok base (t', os')"
    using assms(1) o1 o2 neg run
    by (auto simp: tcp_ok_defs t' owns_empty fd_valid_def)
qed

text \<open>
  \<open>start\<close> on a server that does not run: either everything succeeds, or the pipe and the socket are
  closed again and an error text is left.
\<close>

definition starts_up :: "start_kernel \<Rightarrow> tcp_server \<Rightarrow> bool" where
  "starts_up k t \<longleftrightarrow> (\<exists>r w s a. sk_pipe k = Done (r, w) \<and> setNonBlocking (sk_getfl k) (sk_setfl k) r \<and>
     setNonBlocking (sk_getfl k) (sk_setfl k) w \<and> lk_socket (sk_listen k) = Done s \<and> lk_reuseaddr (sk_listen k) = None \<and>
     setNonBlocking (lk_getfl (sk_listen k)) (lk_setfl (sk_listen k)) s \<and>
     lk_inet_pton (sk_listen k) (bind_address (t_config t)) = Some a \<and>
     lk_bind (sk_listen k) (htons (port (t_config t))) a = None \<and> lk_listen (sk_listen k) 1 = None \<and> sk_spawn_error k = None)"

lemma wp_open_ready:
  "wp_open pipe getfl setfl w os = (ready, w', os') \<Longrightarrow>
   ready \<longleftrightarrow> (\<exists>r wr. pipe = Done (r, wr) \<and> setNonBlocking getfl setfl r \<and> setNonBlocking getfl setfl wr)"
  by (auto simp: wp_open_def FileDescriptor_def fd_get_def Let_def split: sys_result.splits prod.splits if_splits)

lemma tcp_setError_fields:
  "t_session (tcp_setError e t) = t_session t" "t_worker (tcp_setError e t) = t_worker t" "t_queue (tcp_setError e t) = t_queue t"
  "t_config (tcp_setError e t) = t_config t" "t_wake (tcp_setError e t) = t_wake t" "t_listen_fd (tcp_setError e t) = t_listen_fd t"
  "t_running (tcp_setError e t) = t_running t" "e \<noteq> [] \<Longrightarrow> t_last_error (tcp_setError e t) = e"
  by (simp_all add: tcp_setError_def)

text \<open>Every failing \<open>start\<close> leaves the server like this: the pipe closed, the flags down.\<close>

lemma tcp_ok_failed:
  assumes "tcp_ok base (t, os)" "\<not> t_running t" "t' = t\<lparr>t_stop_requested := b, t_wake := w, t_listen_fd := l, t_last_error := e\<rparr>"
    and "owns base [l] os'" "read_end w < 0" "write_end w < 0" "\<not> pending w" "t_worker t = Detached \<longrightarrow> l < 0"
  shows "tcp_ok base (t', os')"
proof -
  have neg: "cs_socket (t_session t) < 0" using assms(1,2) by (auto simp: tcp_ok_def thread_ok_def cs_valid_def fd_valid_def)
  have "owns base (cs_socket (t_session t) # read_end w # write_end w # [l]) os'" using assms(4,5,6) neg by (simp add: owns_empty)
  then have "owns base (tcp_fds t') os'" by (rule owns_perm) (simp add: tcp_fds_def assms(3))
  then show ?thesis
    using assms(1,2,5-8) by (auto simp: tcp_ok_def session_accounted_def thread_ok_def assms(3) wake_ready_def fd_valid_def)
qed

text \<open>What \<open>start\<close> promises on a server that does not run.\<close>

definition start_post :: "int set \<Rightarrow> start_kernel \<Rightarrow> tcp_server \<Rightarrow> (bool \<times> tcp_server \<times> os) option \<Rightarrow> bool" where
  "start_post base k t r \<longleftrightarrow> (case r of None \<Rightarrow> starts_up k t \<and> joinable (t_worker t)
     | Some (started, t', os') \<Rightarrow> tcp_ok base (t', os') \<and> (started \<longleftrightarrow> starts_up k t) \<and> (started \<longrightarrow> \<not> joinable (t_worker t)) \<and>
         (started \<longrightarrow> t_running t' \<and> lk_socket (sk_listen k) = Done (t_listen_fd t') \<and> \<not> t_stop_requested t') \<and>
         (\<not> started \<longrightarrow> t_worker t' = t_worker t \<and> t_last_error t' \<noteq> []))"

lemma start_post_failed:
  assumes "tcp_ok base (t, os)" "\<not> t_running t" "\<not> starts_up k t" "error \<noteq> []"
    and "owns base [l] os'" "read_end w < 0" "write_end w < 0" "\<not> pending w" "t_worker t = Detached \<longrightarrow> l < 0"
  shows "start_post base k t (Some (False,
    t\<lparr>t_stop_requested := False, t_wake := w, t_listen_fd := l, t_last_error := error\<rparr>, os'))"
  using tcp_ok_failed [OF assms(1,2) refl assms(5-9)] assms(3,4) by (simp add: start_post_def)

lemma idle_server:
  assumes "tcp_ok base (t, os)" "\<not> t_running t"
  shows "\<not> cs_valid (t_session t)" "t_worker t \<noteq> Running" "cs_socket (t_session t) < 0"
    "owns base (read_end (t_wake t) # write_end (t_wake t) # [t_listen_fd t]) os"
proof -
  show sess: "\<not> cs_valid (t_session t)" "t_worker t \<noteq> Running" using assms by (auto simp: tcp_ok_def thread_ok_def)
  then show neg: "cs_socket (t_session t) < 0" by (simp add: cs_valid_def fd_valid_def)
  have "owns base (cs_socket (t_session t) # [read_end (t_wake t), write_end (t_wake t), t_listen_fd t]) os"
    by (rule owns_perm) (use assms(1) in \<open>auto simp: tcp_ok_def tcp_fds_def\<close>)
  then show "owns base (read_end (t_wake t) # write_end (t_wake t) # [t_listen_fd t]) os" using neg by (simp add: owns_empty)
qed

lemma start_without_pipe:
  assumes "tcp_ok base (t, os)" "\<not> t_running t" "fresh_pair os (sk_pipe k)"
    and o: "wp_open (sk_pipe k) (sk_getfl k) (sk_setfl k) (t_wake t) os = (False, w1, os1)"
  shows "start_post base k t (tcp_start k t os)"
proof -
  obtain w2 os2 where c: "wp_close w1 os1 = (w2, os2)" by fastforce
  note own1 = wp_open_owns [OF idle_server(4) [OF assms(1,2)] assms(3) o]
  note own2 = wp_close_owns [OF own1(1) c]
  have "t_worker t = Detached \<longrightarrow> t_listen_fd t < 0" using assms(1) by (auto simp: tcp_ok_def thread_ok_def fd_valid_def)
  moreover have "\<not> starts_up k t" using wp_open_ready [OF o] by (auto simp: starts_up_def)
  moreover have "tcp_start k t os = Some (False, t\<lparr>t_stop_requested := False, t_wake := w2, t_listen_fd := t_listen_fd t,
      t_last_error := net_describeErrno ''pipe()'' (sk_pipe_errno k)\<rparr>, os2)"
    using assms(2) o c by (simp add: tcp_start_def tcp_setError_def net_describeErrno_def)
  ultimately show ?thesis
    using start_post_failed [OF assms(1,2) _ _ own2(1-4)] by (simp add: net_describeErrno_def)
qed

text \<open>The descriptors once the pipe is there and the socket has been tried.\<close>

lemma start_listens:
  assumes "tcp_ok base (t, os)" "\<not> t_running t" "fresh_start k t os"
    and o: "wp_open (sk_pipe k) (sk_getfl k) (sk_setfl k) (t_wake t) os = (True, w1, os1)"
    and m: "makeListenSocket (sk_listen k) (t_config t) [] os1 = (fd, error, os2)"
    and mv: "fd_move_assign (t_listen_fd t) fd os2 = (l, x, os3)"
  shows "l = fd" "owns base (read_end w1 # write_end w1 # [fd]) os3"
proof -
  show "l = fd" using mv by (auto simp: fd_defs split: if_splits)
  have pair: "fresh_pair os (sk_pipe k)" and fresh: "fresh_fd os1 (lk_socket (sk_listen k))"
    using assms(3) o by (simp_all add: fresh_start_def)
  note own1 = wp_open_owns [OF idle_server(4) [OF assms(1,2)] pair o]
  note lo = listen_outcome [OF fresh m]
  have "owns base (fd # [read_end w1, write_end w1, t_listen_fd t]) os2"
  proof (cases "fd_valid fd")
    case True
    then show ?thesis using owns_open [OF own1(1), of fd] lo(2) fresh by simp
  next
    case False
    then show ?thesis using own1(1) lo(3) by (simp add: owns_empty empty_fd_def)
  qed
  then have "owns base (t_listen_fd t # fd # [read_end w1, write_end w1]) os2" by (rule owns_perm) simp
  note own2 = owns_move_assign [OF this mv]
  show "owns base (read_end w1 # write_end w1 # [fd]) os3" by (rule owns_perm [OF conjunct1 [OF own2]]) simp
qed

lemma start_without_socket:
  assumes "tcp_ok base (t, os)" "\<not> t_running t" "fresh_start k t os"
    and o: "wp_open (sk_pipe k) (sk_getfl k) (sk_setfl k) (t_wake t) os = (True, w1, os1)"
    and m: "makeListenSocket (sk_listen k) (t_config t) [] os1 = (fd, error, os2)"
    and mv: "fd_move_assign (t_listen_fd t) fd os2 = (l, x, os3)"
    and v: "\<not> fd_valid fd"
  shows "start_post base k t (tcp_start k t os)"
proof -
  note s = start_listens [OF assms(1-3) o m mv]
  have "fresh_fd os1 (lk_socket (sk_listen k))" using assms(3) o by (simp add: fresh_start_def)
  note lo = listen_outcome [OF this m]
  obtain w2 os4 where c: "wp_close w1 os3 = (w2, os4)" by fastforce
  note own4 = wp_close_owns [OF s(2) c]
  have "\<not> starts_up k t" using lo(1) v by (auto simp: starts_up_def)
  moreover have "tcp_start k t os = Some (False, t\<lparr>t_stop_requested := False, t_wake := w2, t_listen_fd := fd,
      t_last_error := error\<rparr>, os4)"
    using assms(2) o c m mv v s(1) lo(3) by (simp add: tcp_start_def tcp_setError_def)
  moreover have "fd < 0" using v by (simp add: fd_valid_def)
  ultimately show ?thesis
    using start_post_failed [OF assms(1,2) _ _ own4(1-4)] lo(3) [OF v] by simp
qed

lemma start_without_thread:
  assumes "tcp_ok base (t, os)" "\<not> t_running t" "fresh_start k t os"
    and o: "wp_open (sk_pipe k) (sk_getfl k) (sk_setfl k) (t_wake t) os = (True, w1, os1)"
    and m: "makeListenSocket (sk_listen k) (t_config t) [] os1 = (fd, error, os2)"
    and mv: "fd_move_assign (t_listen_fd t) fd os2 = (l, x, os3)"
    and v: "fd_valid fd" and what: "sk_spawn_error k = Some what"
  shows "start_post base k t (tcp_start k t os)"
proof -
  note s = start_listens [OF assms(1-3) o m mv]
  obtain fd' os4 where r: "fd_reset fd os3 = (fd', os4)" by fastforce
  have "owns base (fd # [read_end w1, write_end w1]) os3" by (rule owns_perm [OF s(2)]) simp
  note r' = owns_reset [OF this r]
  obtain w2 os5 where c: "wp_close w1 os4 = (w2, os5)" by fastforce
  have "owns base (read_end w1 # write_end w1 # []) os4"
    using r' by (simp add: owns_empty)
  note own5 = wp_close_owns [OF this c]
  have own: "owns base [fd'] os5" using own5(1) r' by (simp add: owns_empty)
  have "\<not> starts_up k t" using what by (auto simp: starts_up_def)
  moreover have "tcp_start k t os = Some (False, t\<lparr>t_stop_requested := False, t_wake := w2, t_listen_fd := fd',
      t_last_error := ''failed to spawn I/O thread: '' @ what\<rparr>, os5)"
    using assms(2) o c m mv v s(1) r what by (simp add: tcp_start_def tcp_setError_def)
  ultimately show ?thesis using start_post_failed [OF assms(1,2) _ _ own own5(2-4)] r' by simp
qed

lemma start_with_thread:
  assumes "tcp_ok base (t, os)" "\<not> t_running t" "fresh_start k t os"
    and o: "wp_open (sk_pipe k) (sk_getfl k) (sk_setfl k) (t_wake t) os = (True, w1, os1)"
    and m: "makeListenSocket (sk_listen k) (t_config t) [] os1 = (fd, error, os2)"
    and mv: "fd_move_assign (t_listen_fd t) fd os2 = (l, x, os3)"
    and v: "fd_valid fd" and none: "sk_spawn_error k = None"
  shows "start_post base k t (tcp_start k t os)"
proof -
  note idle = idle_server [OF assms(1,2)] and s = start_listens [OF assms(1-3) o m mv]
  have pair: "fresh_pair os (sk_pipe k)" and fresh: "fresh_fd os1 (lk_socket (sk_listen k))"
    using assms(3) o by (simp_all add: fresh_start_def)
  note own1 = wp_open_owns [OF idle(4) pair o] and lo = listen_outcome [OF fresh m]
  have up: "starts_up k t" using wp_open_ready [OF o] lo(1) v none by (auto simp: starts_up_def)
  show ?thesis
  proof (cases "joinable (t_worker t)")
    case True
    have "tcp_start k t os = None" using assms(2) o m mv v s(1) none True by (simp add: tcp_start_def)
    with up True show ?thesis by (simp add: start_post_def)
  next
    case False
    let ?t' = "t\<lparr>t_stop_requested := False, t_wake := w1, t_listen_fd := fd, t_running := True, t_worker := Running\<rparr>"
    have st: "tcp_start k t os = Some (True, ?t', os3)" using assms(2) o m mv v s(1) none False by (simp add: tcp_start_def)
    have "owns base (cs_socket (t_session t) # read_end w1 # write_end w1 # [fd]) os3" using s(2) idle(3) by (simp add: owns_empty)
    then have "owns base (tcp_fds ?t') os3" by (rule owns_perm) (simp add: tcp_fds_def)
    moreover have "\<not> pending w1"
      using own1(3) assms(1) False by (auto simp: tcp_ok_def thread_ok_def joinable_def wake_ready_def)
    ultimately have "tcp_ok base (?t', os3)"
      using assms(1) own1(2,5) v idle(1)
      by (auto simp: tcp_ok_def session_accounted_def thread_ok_def wake_ready_def wake_ok_def)
    then show ?thesis using st up False lo(2) [OF v] by (simp add: start_post_def)
  qed
qed

lemma tcp_start_outcome:
  assumes "tcp_ok base (t, os)" "fresh_start k t os" "\<not> t_running t"
  shows "start_post base k t (tcp_start k t os)"
proof -
  obtain ready w1 os1 where o: "wp_open (sk_pipe k) (sk_getfl k) (sk_setfl k) (t_wake t) os = (ready, w1, os1)"
    by (metis prod_cases3)
  show ?thesis
  proof (cases ready)
    case False
    then show ?thesis using start_without_pipe [OF assms(1,3)] assms(2) o by (simp add: fresh_start_def)
  next
    case True
    with o have o: "wp_open (sk_pipe k) (sk_getfl k) (sk_setfl k) (t_wake t) os = (True, w1, os1)" by simp
    obtain fd error os2 where m: "makeListenSocket (sk_listen k) (t_config t) [] os1 = (fd, error, os2)" by (metis prod_cases3)
    obtain l x os3 where mv: "fd_move_assign (t_listen_fd t) fd os2 = (l, x, os3)" by (metis prod_cases3)
    show ?thesis
      using start_without_socket [OF assms(1,3,2) o m mv] start_without_thread [OF assms(1,3,2) o m mv]
        start_with_thread [OF assms(1,3,2) o m mv] by (cases "fd_valid fd"; cases "sk_spawn_error k") simp_all
  qed
qed

lemma io_step_ok:
  assumes "io_step s s'" "tcp_ok base s"
  shows "tcp_ok base s'"
  using assms(1)
proof cases
  case (accepts t os script)
  then show ?thesis using acceptClient_ok(1) [of base t os script] assms(2) by (cases s') auto
next
  case (client_events t revents script os)
  then show ?thesis using serviceClientEvents_ok(1) [of base t os revents script] assms(2) by (cases s') auto
next
  case (outputs t os script t' os' wire)
  then show ?thesis using serviceOutput_ok(1) assms(2) by blast
qed (use assms(2) tcp_ok_wake(2) tcp_ok_clear tcp_ok_error tcp_run_exit_ok in simp_all)

lemma server_step_ok:
  assumes "server_step cap s s'" "0 < cap" "tcp_ok base s"
  shows "tcp_ok base s'"
  using assms(1)
proof cases
  case io_steps
  then show ?thesis by (rule io_step_ok [OF _ assms(3)])
next
  case (starts k t os ok)
  show ?thesis
  proof (cases "t_running t")
    case True
    then show ?thesis using starts assms(3) by (auto simp: tcp_start_def tcp_ok_error)
  next
    case False
    obtain t' os' where s': "s' = (t', os')" by fastforce
    show ?thesis
      using tcp_start_outcome [of base t os k] starts False assms(3) by (simp add: s' start_post_def)
  qed
next
  case (stop_finishes t os)
  then show ?thesis using tcp_stop_finish_ok(1) [of base t os "fst s'" "snd s'"] assms(3) by simp
next
  case (stop_requests t os)
  then show ?thesis
    using tcp_ok_wake(1) [OF _ assms(2), of base "t\<lparr>t_stop_requested := True\<rparr>" os] tcp_ok_counts(5) assms(3)
    by (simp add: tcp_stop_request_def)
qed (use assms(2,3) tcp_ok_wake(1) tcp_ok_counts tcp_ok_push
  in \<open>simp_all add: publish_count_def publish_discard_def publish_signal_def\<close>)

interpretation srv: inductive_invariant "tcp_new base" "server_step (Suc n)" "tcp_ok base" for base n
  by unfold_locales (rule tcp_new_ok, assumption, erule server_step_ok, simp_all)

lemma reachable_tcp_ok:
  assumes "tcp_new base s" "0 < cap" "(server_step cap)\<^sup>*\<^sup>* s s'"
  shows "tcp_ok base s'"
proof -
  obtain n where "cap = Suc n" using assms(2) by (cases cap) auto
  with assms show ?thesis using srv.reachable_inv by blast
qed

text \<open>
  A whole turn of the loop, and a whole \<open>publish\<close>, is such steps; the descriptors that \<open>accept\<close> returns in
  the turn are fresh when it is called.
\<close>

definition woken :: "io_turn \<Rightarrow> tcp_server \<Rightarrow> tcp_server" where
  "woken turn t = (case io_poll turn of Done (True, _, _) \<Rightarrow> t\<lparr>t_wake := wp_drain (t_wake t)\<rparr> | _ \<Rightarrow> t)"

definition events_served :: "io_turn \<Rightarrow> poll_event list \<Rightarrow> tcp_server \<Rightarrow> os \<Rightarrow> (tcp_server \<times> os) option" where
  "events_served turn revents t os =
     (if cs_valid (t_session (woken turn t)) then serviceClientEvents revents (io_recv turn) (woken turn t) os
      else Some (woken turn t, os))"

definition fresh_turn :: "io_turn \<Rightarrow> tcp_server \<Rightarrow> os \<Rightarrow> bool" where
  "fresh_turn turn t os \<longleftrightarrow> (case io_poll turn of
       Done (_, True, revents) \<Rightarrow>
         (case events_served turn revents t os of Some (_, os) \<Rightarrow> fresh_accepts os (io_accept turn) | None \<Rightarrow> True)
     | _ \<Rightarrow> True)"

lemma turn_cases:
  assumes "tcp_turn turn t os = Some (goes_on, t', os', wire)"
  obtains (interrupted) "io_poll turn = Fail EINTR" "goes_on" "t' = t" "os' = os" "wire = []"
  | (failed) e where "io_poll turn = Fail e" "\<not> goes_on" "t' = tcp_setError (net_describeErrno ''poll()'' e) t" "os' = os" "wire = []"
  | (served) wake_in listen_in revents t1 os1 t2 os2 where "io_poll turn = Done (wake_in, listen_in, revents)" "goes_on"
      "events_served turn revents t os = Some (t1, os1)"
      "(if listen_in then acceptClient (io_accept turn) t1 os1 else Some (t1, os1)) = Some (t2, os2)"
      "if cs_valid (t_session t2) then serviceOutput (io_send turn) t2 os2 = Some (t', os', wire)
       else t' = t2\<lparr>t_queue := clear (t_queue t2)\<rparr> \<and> os' = os2 \<and> wire = []"
proof (cases "io_poll turn")
  case (Fail e)
  then have "(e = EINTR \<and> goes_on \<and> t' = t \<and> os' = os \<and> wire = []) \<or>
      (\<not> goes_on \<and> t' = tcp_setError (net_describeErrno ''poll()'' e) t \<and> os' = os \<and> wire = [])"
    using assms by (cases e) (simp_all add: tcp_turn_def)
  with Fail show thesis using interrupted failed by blast
next
  case (Done p)
  obtain wake_in listen_in revents where p: "p = (wake_in, listen_in, revents)" by (cases p) auto
  have w: "(if wake_in then t\<lparr>t_wake := wp_drain (t_wake t)\<rparr> else t) = woken turn t" by (simp add: woken_def Done p)
  have turn: "Option.bind (events_served turn revents t os) (\<lambda>(t, os).
      Option.bind (if listen_in then acceptClient (io_accept turn) t os else Some (t, os)) (\<lambda>(t, os).
        if cs_valid (t_session t) then map_option (\<lambda>(t, os, wire). (True, t, os, wire)) (serviceOutput (io_send turn) t os)
        else Some (True, t\<lparr>t_queue := clear (t_queue t)\<rparr>, os, []))) = Some (goes_on, t', os', wire)"
    using assms unfolding tcp_turn_def Done p sys_result.case prod.case w Let_def events_served_def .
  then obtain t1 os1 where 1: "events_served turn revents t os = Some (t1, os1)" by (auto simp: bind_eq_Some_conv)
  with turn obtain t2 os2 where 2: "(if listen_in then acceptClient (io_accept turn) t1 os1 else Some (t1, os1)) = Some (t2, os2)"
    by (auto simp: bind_eq_Some_conv)
  show thesis
    by (rule served [OF Done [unfolded p] _ 1 2]) (use turn 1 2 in \<open>auto split: if_splits\<close>)
qed

lemma woken_step:
  "t_worker t = Running \<Longrightarrow> io_step\<^sup>*\<^sup>* (t, os) (woken turn t, os)"
  "t_worker (woken turn t) = t_worker t"
  by (auto simp: woken_def split: sys_result.splits bool.splits intro!: r_into_rtranclp drains)

lemma events_step:
  assumes "events_served turn revents t os = Some (t', os')" "t_worker t = Running"
  shows "io_step\<^sup>*\<^sup>* (t, os) (t', os')" "t_worker t' = Running"
proof -
  show "io_step\<^sup>*\<^sup>* (t, os) (t', os')"
  proof (cases "cs_valid (t_session (woken turn t))")
    case True
    then have e: "serviceClientEvents revents (io_recv turn) (woken turn t) os = Some (t', os')"
      using assms(1) by (simp add: events_served_def)
    have "io_step (woken turn t, os) (t', os')"
      by (rule client_events [OF _ True e]) (simp add: woken_step assms(2))
    then show ?thesis using woken_step(1) [OF assms(2)] by (metis rtranclp.rtrancl_into_rtrancl)
  next
    case False
    then show ?thesis using assms woken_step(1) [OF assms(2), of os turn] by (auto simp: events_served_def)
  qed
  show "t_worker t' = Running"
    using assms endSession_fields(2) woken_step(2) [of turn t]
    by (auto simp: events_served_def serviceClientEvents_def split: if_splits option.splits)
qed

text \<open>A turn that breaks the loop is taken with the exit that follows it.\<close>

lemma turn_steps:
  assumes "tcp_turn turn t os = Some (goes_on, t', os', wire)" "t_worker t = Running" "fresh_turn turn t os" "tcp_ok base (t, os)"
  shows "io_step\<^sup>*\<^sup>* (t, os) (if goes_on then (t', os') else tcp_run_exit t' os')"
  using assms(1)
proof (cases rule: turn_cases)
  case interrupted
  then show ?thesis by simp
next
  case (failed e)
  then show ?thesis using breaks [OF assms(2), of os e] by auto
next
  case (served wake_in listen_in revents t1 os1 t2 os2)
  note e = events_step [OF served(3) assms(2)]
  have ok1: "tcp_ok base (t1, os1)"
    using e(1) assms(4) by (induction rule: rtranclp_induct) (auto intro: io_step_ok)
  have "io_step\<^sup>*\<^sup>* (t1, os1) (t2, os2) \<and> t_worker t2 = Running"
  proof (cases listen_in)
    case True
    then have a: "acceptClient (io_accept turn) t1 os1 = Some (t2, os2)" using served(4) by simp
    have f: "fresh_accepts os1 (io_accept turn)" using assms(3) served(1,3) True by (simp add: fresh_turn_def)
    show ?thesis using accepts [OF e(2) f a] acceptClient_ok(2) [OF ok1 e(2) f a] by blast
  next
    case False
    then show ?thesis using served(4) e(2) by simp
  qed
  moreover have "io_step (t2, os2) (t', os')" if "t_worker t2 = Running"
  proof (cases "cs_valid (t_session t2)")
    case True
    then show ?thesis using served(5) outputs [OF that True] by simp
  next
    case False
    then show ?thesis using served(5) idles [OF that False] by simp
  qed
  ultimately have "io_step\<^sup>*\<^sup>* (t, os) (t', os')" using e(1) by (meson rtranclp.rtrancl_into_rtrancl rtranclp_trans)
  with served(2) show ?thesis by simp
qed

lemma io_steps_server: "io_step\<^sup>*\<^sup>* s s' \<Longrightarrow> (server_step cap)\<^sup>*\<^sup>* s s'"
  by (rule rtranclp_mono [THEN predicate2D, of io_step]) (auto intro: io_steps)

lemma publishes_alone: "publishes cap frame (t, os) (publish cap frame t, os)"
  using no_client [of t os "publish_count t" os "publish_count t" os cap frame]
    not_running [of t os "publish_count t" os "publish_count t" os "publish_count t" os cap frame]
    queues [of t os "publish_count t" os "publish_count t" os "publish_count t" os frame "publish_push frame (publish_count t)" os cap]
  by (auto simp: publish_def nobody_listens_def Let_def)

lemma publishes_steps:
  assumes "publishes cap frame s s'"
  shows "(server_step cap)\<^sup>*\<^sup>* s s'"
  using assms
proof cases
  case (no_client t os t1 os1 t2 os2)
  then show ?thesis
    by (metis publish_counts publish_discards io_steps_server rtranclp_trans rtranclp.rtrancl_into_rtrancl r_into_rtranclp)
next
  case (not_running t os t1 os1 t2 os2 t3 os3)
  then have "io_step\<^sup>*\<^sup>* (publish_count t, os) (t3, os3)" by (meson rtranclp_trans)
  with not_running(1,2) show ?thesis
    by (metis publish_counts publish_discards io_steps_server rtranclp_trans rtranclp.rtrancl_into_rtrancl r_into_rtranclp)
next
  case (queues t os t1 os1 t2 os2 t3 os3 t4 os4)
  then have "io_step\<^sup>*\<^sup>* (publish_count t, os) (t3, os3)" by (meson rtranclp_trans)
  then have "(server_step cap)\<^sup>*\<^sup>* (t, os) (publish_push frame t3, os3)"
    by (metis publish_counts publish_pushes io_steps_server rtranclp_trans rtranclp.rtrancl_into_rtrancl r_into_rtranclp)
  with queues(1,2,8) show ?thesis
    by (metis publish_signals io_steps_server rtranclp_trans rtranclp.rtrancl_into_rtrancl)
qed

lemma publish_steps: "(server_step cap)\<^sup>*\<^sup>* (t, os) (publish cap frame t, os)"
  by (rule publishes_steps [OF publishes_alone])

end
