(* ===== verification/ServerStream.thy ===== *)
theory ServerStream
  imports ServerInterleaving
begin

text \<open>
  What a viewer is sent. The steps of the server during one session, with the frames published and the
  bytes written since it began; every step of the interleaving is one of them, or the accepting of
  another client, and so are a whole turn of the loop and a whole call of \<open>publish\<close>.
\<close>

section \<open>The steps of a session\<close>

definition attached :: "tcp_server \<Rightarrow> bool" where
  "attached t \<longleftrightarrow> cs_valid (t_session t) \<and> t_client_connected t \<and> t_running t"

text \<open>
  The server and the descriptor table with the frames pushed and the bytes the kernel accepted. The
  session is there before each step; it may be gone afterwards.
\<close>

type_synonym viewer = "tcp_server \<times> os \<times> scan_frame list \<times> bytes"

inductive viewer_step :: "nat \<Rightarrow> viewer \<Rightarrow> viewer \<Rightarrow> bool" for cap where
  v_push: "attached t \<Longrightarrow> viewer_step cap (t, os, fs, wire) (publish_push f t, os, fs @ [f], wire)"
| v_output: "attached t \<Longrightarrow> serviceOutput script t os = Some (t', os', w) \<Longrightarrow>
    viewer_step cap (t, os, fs, wire) (t', os', fs, wire @ w)"
| v_events: "attached t \<Longrightarrow> serviceClientEvents revents script t os = Some (t', os') \<Longrightarrow>
    viewer_step cap (t, os, fs, wire) (t', os', fs, wire)"
| v_exit: "attached t \<Longrightarrow> tcp_run_exit (tcp_setError e t) os = (t', os') \<Longrightarrow> viewer_step cap (t, os, fs, wire) (t', os', fs, wire)"
| v_leave: "attached t \<Longrightarrow> tcp_run_exit t os = (t', os') \<Longrightarrow> viewer_step cap (t, os, fs, wire) (t', os', fs, wire)"
| v_drain: "attached t \<Longrightarrow> viewer_step cap (t, os, fs, wire) (t\<lparr>t_wake := wp_drain (t_wake t)\<rparr>, os, fs, wire)"
| v_signal: "attached t \<Longrightarrow> viewer_step cap (t, os, fs, wire) (publish_signal cap t, os, fs, wire)"
| v_count: "attached t \<Longrightarrow> viewer_step cap (t, os, fs, wire) (publish_count t, os, fs, wire)"
| v_discard: "attached t \<Longrightarrow> viewer_step cap (t, os, fs, wire) (publish_discard t, os, fs, wire)"
| v_stop: "attached t \<Longrightarrow> viewer_step cap (t, os, fs, wire) (tcp_stop_request cap t, os, fs, wire)"
| v_error: "attached t \<Longrightarrow> viewer_step cap (t, os, fs, wire) (tcp_setError e t, os, fs, wire)"

text \<open>Nothing else happens to a server with a client than these steps, and another client.\<close>

lemma attached_running: "tcp_ok base (t, os) \<Longrightarrow> attached t \<Longrightarrow> t_worker t = Running"
  by (simp add: tcp_ok_def thread_ok_def attached_def)

lemma io_step_viewer:
  assumes "io_step (t, os) (t', os')" "attached t"
  shows "(\<exists>wire'. viewer_step cap (t, os, fs, wire) (t', os', fs, wire')) \<or>
    (\<exists>script. fresh_accepts os script \<and> acceptClient script t os = Some (t', os'))"
  using assms(1)
proof cases
  case drains
  then show ?thesis using v_drain [OF assms(2)] by blast
next
  case (client_events revents script)
  then show ?thesis using v_events [OF assms(2)] by blast
next
  case (accepts script)
  then show ?thesis by blast
next
  case (outputs script w)
  then show ?thesis using v_output [OF assms(2)] by blast
next
  case idles
  then show ?thesis using assms(2) by (simp add: attached_def)
next
  case (breaks e)
  then show ?thesis using v_exit [OF assms(2) breaks(1) [symmetric]] by blast
next
  case leaves
  then show ?thesis using v_leave [OF assms(2) leaves(1) [symmetric]] by blast
qed

lemma server_step_viewer:
  assumes "server_step cap (t, os) (t', os')" "tcp_ok base (t, os)" "attached t"
  shows "(\<exists>fs' wire'. viewer_step cap (t, os, fs, wire) (t', os', fs', wire')) \<or>
    (\<exists>script. fresh_accepts os script \<and> acceptClient script t os = Some (t', os'))"
  using assms(1)
proof cases
  case io_steps
  from io_step_viewer [OF this assms(3), of cap fs wire] show ?thesis by blast
next
  case (starts k ok)
  then have "t' = tcp_setError ''start() called while already running'' t" "os' = os"
    using assms(3) by (simp_all add: tcp_start_def attached_def)
  then show ?thesis using v_error [OF assms(3)] by blast
next
  case stop_finishes
  then show ?thesis using attached_running [OF assms(2,3)] by simp
next
  case stop_requests
  then show ?thesis using v_stop [OF assms(3)] by blast
next
  case publish_counts
  then show ?thesis using v_count [OF assms(3)] by blast
next
  case publish_discards
  then show ?thesis using v_discard [OF assms(3)] by blast
next
  case (publish_pushes f)
  then show ?thesis using v_push [OF assms(3)] by blast
next
  case publish_signals
  then show ?thesis using v_signal [OF assms(3)] by blast
qed

section \<open>The stream\<close>

lemma serviceOutput_stream:
  assumes "serviceOutput script t os = Some (t', os', w)" "attached t" "streaming fs (t_queue t) (t_session t) wire"
  obtains q s where "streaming fs q s (wire @ w)"
    "cs_valid (t_session t') \<longrightarrow> t_queue t' = q \<and> t_session t' = s \<and> attached t'"
proof -
  obtain r where r: "pump script (t_queue t) (t_session t) no_progress [] = Some r"
    using assms(1) by (auto simp: serviceOutput_def split: option.splits)
  have p: "pumped [] (t_session t) (t_queue t) r" using pump_pumped [OF r] assms(2) by (simp add: attached_def)
  have valid: "cs_valid (p_session r)" using p assms(2) by (simp add: pumped_def attached_def cs_valid_def)
  have w: "w = p_wire r" using assms(1) by (auto simp: serviceOutput_def r Let_def split: if_splits prod.splits)
  have "cs_valid (t_session t') \<longrightarrow> t_queue t' = p_queue r \<and> t_session t' = p_session r \<and> attached t'"
  proof (cases "p_result r = Failed")
    case True
    then show ?thesis
      using assms(1) endSession_fields(1) by (auto simp: serviceOutput_def r Let_def split: if_splits prod.splits)
  next
    case False
    then show ?thesis
      using assms(1,2) valid by (auto simp: serviceOutput_def r Let_def attached_def split: if_splits)
  qed
  then show thesis using that [of "p_queue r" "p_session r"] streaming_pumped [OF assms(3) p] w by simp
qed

text \<open>As long as the session lasts, what is on the wire and what is owed is a stream of the frames pushed.\<close>

definition viewing :: "viewer \<Rightarrow> bool" where
  "viewing v \<longleftrightarrow> (case v of (t, os, fs, wire) \<Rightarrow>
     \<exists>gs q s. prefix gs fs \<and> streaming gs q s wire \<and>
       (cs_valid (t_session t) \<longrightarrow> attached t \<and> gs = fs \<and> q = t_queue t \<and> s = t_session t))"

lemma viewing_attached: "viewing (t, os, fs, wire) \<Longrightarrow> attached t \<Longrightarrow> streaming fs (t_queue t) (t_session t) wire"
  by (auto simp: viewing_def attached_def)

lemma viewing_same:
  assumes "streaming fs (t_queue t) (t_session t) wire" "attached t"
    and "t_queue t' = t_queue t" "t_session t' = t_session t" "t_client_connected t' = t_client_connected t" "t_running t' = t_running t"
  shows "viewing (t', os', fs, wire)"
  using assms by (auto simp: viewing_def attached_def)

lemma viewing_ended:
  "streaming fs q s wire \<Longrightarrow> \<not> cs_valid (t_session t') \<Longrightarrow> viewing (t', os', fs, wire)"
  by (auto simp: viewing_def)

lemma exit_ends: "tcp_run_exit t os = (t', os') \<Longrightarrow> \<not> cs_valid (t_session t')"
  using endSession_fields(1) by (auto simp: tcp_run_exit_def split: prod.splits)

lemma viewer_step_viewing:
  assumes "viewer_step cap v v'" "viewing v"
  shows "viewing v'"
  using assms
proof (induction rule: viewer_step.induct)
  case (v_push t os fs wire f)
  have "attached (publish_push f t)" "t_session (publish_push f t) = t_session t"
    "t_queue (publish_push f t) = fst (push f (t_queue t))"
    using v_push(1) by (auto simp: attached_def publish_push_def Let_def split_beta)
  then show ?case using streaming_push [OF viewing_attached [OF v_push(2,1)], of f] by (auto simp: viewing_def)
next
  case (v_output t script os t' os' w fs wire)
  from serviceOutput_stream [OF v_output(2,1) viewing_attached [OF v_output(3,1)]] obtain q s where
    "streaming fs q s (wire @ w)" "cs_valid (t_session t') \<longrightarrow> t_queue t' = q \<and> t_session t' = s \<and> attached t'" .
  then show ?case by (auto simp: viewing_def)
next
  case (v_events t revents script os t' os' fs wire)
  have "t' = t \<or> \<not> cs_valid (t_session t')"
    using v_events(2) endSession_fields(1) by (auto simp: serviceClientEvents_def split: if_splits option.splits)
  then show ?case using viewing_attached [OF v_events(3,1)] v_events(1) viewing_same [of fs t wire t'] viewing_ended by blast
next
  case (v_exit t e os t' os' fs wire)
  then show ?case using viewing_attached viewing_ended exit_ends by blast
next
  case (v_leave t os t' os' fs wire)
  then show ?case using viewing_attached viewing_ended exit_ends by blast
next
  case (v_error t os fs wire e)
  show ?case by (rule viewing_same [OF viewing_attached [OF v_error(2,1)] v_error(1)]) (simp_all add: tcp_setError_def)
qed (rule viewing_same [OF viewing_attached], assumption+,
  simp_all add: publish_signal_def publish_count_def publish_discard_def tcp_stop_request_def)+

lemma viewer_steps_viewing: "(viewer_step cap)\<^sup>*\<^sup>* v v' \<Longrightarrow> viewing v \<Longrightarrow> viewing v'"
  by (induction rule: rtranclp_induct) (auto intro: viewer_step_viewing)

text \<open>The beginning of a session, and what the peer has made of it at any later time.\<close>

lemma viewing_start:
  assumes "tcp_ok base (t0, os0)" "t_worker t0 = Running" "fresh_accepts os0 script" "acceptClient script t0 os0 = Some (t, os)"
    and "st_client_connects (t_stats t) \<noteq> st_client_connects (t_stats t0)"
  shows "attached t" "viewing (t, os, [], [])"
proof -
  note acc = acceptClient_ok [OF assms(1-4)]
  have new: "cs_valid (t_session t)" "t_session t = ClientSession (cs_socket (t_session t))" "fq_queue (t_queue t) = []"
    using acc(3) assms(5) by simp_all
  show att: "attached t" using acc(1) new(1) by (auto simp: attached_def tcp_ok_def session_accounted_def thread_ok_def)
  have "queue_ok (t_queue t)" using acc(1) by (simp add: tcp_ok_def)
  then have "streaming [] (t_queue t) (t_session t) []"
    using streaming_start [OF _ new(3)] new(2) by metis
  with att show "viewing (t, os, [], [])" by (auto simp: viewing_def)
qed

lemma viewing_received:
  assumes "viewing (t, os, fs, wire)" "concat chunks = wire"
  shows "\<exists>frames part. subseq frames fs \<and> receive_all decode_one chunks = (map truncate_frame frames, None, part) \<and>
    (cs_valid (t_session t) \<and> owed (t_session t) (t_queue t) = [] \<longrightarrow> part = [] \<and>
       (length fs \<le> fq_capacity (t_queue t) \<longrightarrow> frames = fs))"
proof -
  obtain gs q s where gs: "prefix gs fs" "streaming gs q s wire"
    "cs_valid (t_session t) \<longrightarrow> gs = fs \<and> q = t_queue t \<and> s = t_session t" using assms(1) by (auto simp: viewing_def)
  from streaming_received [OF gs(2) assms(2)] obtain frames part where
    f: "subseq frames gs" "receive_all decode_one chunks = (map truncate_frame frames, None, part)"
      "owed s q = [] \<longrightarrow> part = [] \<and> (length gs \<le> fq_capacity q \<longrightarrow> frames = gs)" by blast
  have "subseq frames fs" using f(1) prefix_imp_subseq [OF gs(1)] by (rule subseq_order.order_trans)
  then show ?thesis using f gs(3) by (intro exI [of _ frames] exI [of _ part]) auto
qed

section \<open>A call of publish in the middle of the stream\<close>

text \<open>
  The I/O thread's steps as the viewer sees them: those of the session, and, once it is over, those that
  do not begin another one.
\<close>

inductive viewer_io :: "nat \<Rightarrow> viewer \<Rightarrow> viewer \<Rightarrow> bool" for cap where
  session_step: "io_step (t, os) (t', os') \<Longrightarrow> viewer_step cap (t, os, fs, wire) (t', os', fs, wire') \<Longrightarrow>
    viewer_io cap (t, os, fs, wire) (t', os', fs, wire')"
| session_over: "io_step (t, os) (t', os') \<Longrightarrow> \<not> cs_valid (t_session t) \<Longrightarrow> \<not> cs_valid (t_session t') \<Longrightarrow>
    viewer_io cap (t, os, fs, wire) (t', os', fs, wire)"

text \<open>\<^const>\<open>publishes\<close> with the bytes written meanwhile; the frame counts as published when the call returns.\<close>

inductive viewed_publish :: "nat \<Rightarrow> scan_frame \<Rightarrow> viewer \<Rightarrow> viewer \<Rightarrow> bool" for cap frame where
  viewed_no_client: "(viewer_io cap)\<^sup>*\<^sup>* (publish_count t, os, fs, wire) (t1, os1, fs, wire1) \<Longrightarrow> \<not> t_client_connected t1 \<Longrightarrow>
    (viewer_io cap)\<^sup>*\<^sup>* (t1, os1, fs, wire1) (t2, os2, fs, wire2) \<Longrightarrow>
    viewed_publish cap frame (t, os, fs, wire) (publish_discard t2, os2, fs @ [frame], wire2)"
| viewed_not_running: "(viewer_io cap)\<^sup>*\<^sup>* (publish_count t, os, fs, wire) (t1, os1, fs, wire1) \<Longrightarrow> t_client_connected t1 \<Longrightarrow>
    (viewer_io cap)\<^sup>*\<^sup>* (t1, os1, fs, wire1) (t2, os2, fs, wire2) \<Longrightarrow> \<not> t_running t2 \<Longrightarrow>
    (viewer_io cap)\<^sup>*\<^sup>* (t2, os2, fs, wire2) (t3, os3, fs, wire3) \<Longrightarrow>
    viewed_publish cap frame (t, os, fs, wire) (publish_discard t3, os3, fs @ [frame], wire3)"
| viewed_queues: "(viewer_io cap)\<^sup>*\<^sup>* (publish_count t, os, fs, wire) (t1, os1, fs, wire1) \<Longrightarrow> t_client_connected t1 \<Longrightarrow>
    (viewer_io cap)\<^sup>*\<^sup>* (t1, os1, fs, wire1) (t2, os2, fs, wire2) \<Longrightarrow> t_running t2 \<Longrightarrow>
    (viewer_io cap)\<^sup>*\<^sup>* (t2, os2, fs, wire2) (t3, os3, fs, wire3) \<Longrightarrow>
    (viewer_io cap)\<^sup>*\<^sup>* (publish_push frame t3, os3, fs @ [frame], wire3) (t4, os4, fs @ [frame], wire4) \<Longrightarrow>
    viewed_publish cap frame (t, os, fs, wire) (publish_signal cap t4, os4, fs @ [frame], wire4)"

lemma viewer_io_steps:
  assumes "(viewer_io cap)\<^sup>*\<^sup>* v v'"
  shows "io_step\<^sup>*\<^sup>* (fst v, fst (snd v)) (fst v', fst (snd v'))"
  using assms by (induction rule: rtranclp_induct) (auto elim!: viewer_io.cases intro: rtranclp.rtrancl_into_rtrancl)

lemma viewed_publish_publishes:
  "viewed_publish cap f v v' \<Longrightarrow> publishes cap f (fst v, fst (snd v)) (fst v', fst (snd v'))"
  by (induction rule: viewed_publish.induct)
    (auto dest!: viewer_io_steps intro: no_client not_running queues)

lemma viewer_io_viewing: "viewer_io cap v v' \<Longrightarrow> viewing v \<Longrightarrow> viewing v'"
  by (induction rule: viewer_io.induct) (auto intro: viewer_step_viewing, auto simp: viewing_def)

lemma viewer_ios_viewing: "(viewer_io cap)\<^sup>*\<^sup>* v v' \<Longrightarrow> viewing v \<Longrightarrow> viewing v'"
  by (induction rule: rtranclp_induct) (auto intro: viewer_io_viewing)

lemma viewer_ios_over: "(viewer_io cap)\<^sup>*\<^sup>* v v' \<Longrightarrow> \<not> cs_valid (t_session (fst v)) \<Longrightarrow> \<not> cs_valid (t_session (fst v'))"
  by (induction rule: rtranclp_induct) (auto elim!: viewer_io.cases viewer_step.cases simp: attached_def)

lemma viewing_over: "viewing (t, os, fs, wire) \<Longrightarrow> \<not> attached t \<Longrightarrow> \<not> cs_valid (t_session t)"
  by (auto simp: viewing_def)

lemma viewing_after:
  "viewing (t, os, fs, wire) \<Longrightarrow> \<not> cs_valid (t_session t) \<Longrightarrow> \<not> cs_valid (t_session t') \<Longrightarrow> viewing (t', os', fs @ gs, wire)"
  unfolding viewing_def using prefix_prefix by fastforce

lemma piece_fields:
  "t_session (publish_count t) = t_session t" "t_session (publish_discard t) = t_session t"
  "t_session (publish_push f t) = t_session t" "t_session (publish_signal cap t) = t_session t"
  "attached (publish_count t) = attached t" "attached (publish_push f t) = attached t" "t_queue (publish_count t) = t_queue t"
  by (auto simp: attached_def publish_count_def publish_discard_def publish_push_def publish_signal_def split_beta Let_def)

lemma viewing_count: "viewing (publish_count t, os, fs, wire) = viewing (t, os, fs, wire)"
  by (simp add: viewing_def piece_fields)

lemma viewed_publish_viewing:
  assumes "viewed_publish cap f v v'" "viewing v"
  shows "viewing v'"
  using assms
proof (induction rule: viewed_publish.induct)
  case (viewed_no_client t os fs wire t1 os1 wire1 t2 os2 wire2)
  have "viewing (publish_count t, os, fs, wire)" using viewed_no_client(4) by (simp add: viewing_count)
  note v1 = viewer_ios_viewing [OF viewed_no_client(1) this]
  then have "\<not> cs_valid (t_session t1)" using viewed_no_client(2) viewing_over by (auto simp: attached_def)
  then have "\<not> cs_valid (t_session t2)" using viewer_ios_over [OF viewed_no_client(3)] by simp
  then show ?case using viewer_ios_viewing [OF viewed_no_client(3) v1] viewing_after by (simp add: piece_fields)
next
  case (viewed_not_running t os fs wire t1 os1 wire1 t2 os2 wire2 t3 os3 wire3)
  have "viewing (publish_count t, os, fs, wire)" using viewed_not_running(6) by (simp add: viewing_count)
  note v2 = viewer_ios_viewing [OF viewed_not_running(3) viewer_ios_viewing [OF viewed_not_running(1) this]]
  then have "\<not> cs_valid (t_session t2)" using viewed_not_running(4) viewing_over by (auto simp: attached_def)
  then have "\<not> cs_valid (t_session t3)" using viewer_ios_over [OF viewed_not_running(5)] by simp
  then show ?case using viewer_ios_viewing [OF viewed_not_running(5) v2] viewing_after by (simp add: piece_fields)
next
  case (viewed_queues t os fs wire t1 os1 wire1 t2 os2 wire2 t3 os3 wire3 t4 os4 wire4)
  have "viewing (publish_count t, os, fs, wire)" using viewed_queues(7) by (simp add: viewing_count)
  then have v3: "viewing (t3, os3, fs, wire3)"
    using viewed_queues(1,3,5) by (blast intro: viewer_ios_viewing)
  have "viewing (publish_push f t3, os3, fs @ [f], wire3)"
    using v3 viewer_step_viewing [OF v_push, of t3 os3 fs wire3 f] viewing_over viewing_after by (cases "attached t3") (auto simp: piece_fields)
  note v4 = viewer_ios_viewing [OF viewed_queues(6) this]
  show ?case
    using v4 viewer_step_viewing [OF v_signal v4, of cap] viewing_over [OF v4] viewing_after [OF v4, of _ os4 "[]"]
    by (cases "attached t4") (auto simp: piece_fields)
qed

text \<open>Nothing else can happen to a viewer during a call of \<open>publish\<close> than this, and another client.\<close>

definition accepts_within :: "nat \<Rightarrow> tcp_server \<times> os \<Rightarrow> bool" where
  "accepts_within cap s \<longleftrightarrow> (\<exists>t os script r. (server_step cap)\<^sup>*\<^sup>* s (t, os) \<and> fresh_accepts os script \<and> acceptClient script t os = Some r)"

lemma accepts_later: "(server_step cap)\<^sup>*\<^sup>* s s' \<Longrightarrow> accepts_within cap s' \<Longrightarrow> accepts_within cap s"
  unfolding accepts_within_def by (meson rtranclp_trans)

lemma io_step_viewed:
  assumes "io_step (t, os) (t', os')" "tcp_ok base (t, os)"
  shows "(\<exists>wire'. viewer_io cap (t, os, fs, wire) (t', os', fs, wire')) \<or> accepts_within cap (t, os)"
proof (cases "cs_valid (t_session t)")
  case True
  then have "attached t" using assms(2) by (auto simp: attached_def tcp_ok_def session_accounted_def thread_ok_def)
  from io_step_viewer [OF assms(1) this, of cap fs wire] session_step [OF assms(1)] show ?thesis
    unfolding accepts_within_def by blast
next
  case False
  show ?thesis
  proof (cases "cs_valid (t_session t')")
    case True
    from assms(1) have "accepts_within cap (t, os)"
    proof cases
      case (accepts script)
      then show ?thesis unfolding accepts_within_def by blast
    qed (use False True endSession_fields(1) in \<open>auto simp: tcp_setError_fields tcp_run_exit_def split: prod.splits\<close>)
    then show ?thesis ..
  next
    case now: False
    show ?thesis using session_over [OF assms(1) False now, of cap fs wire] by blast
  qed
qed

lemma io_steps_viewed:
  assumes "io_step\<^sup>*\<^sup>* s s'" "tcp_ok base s"
  shows "(\<exists>wire'. (viewer_io cap)\<^sup>*\<^sup>* (fst s, snd s, fs, wire) (fst s', snd s', fs, wire')) \<or> accepts_within cap s"
  using assms(1)
proof (induction rule: rtranclp_induct)
  case base
  then show ?case by blast
next
  case (step s1 s2)
  have "tcp_ok base s1" using step.hyps(1) assms(2) by (induction rule: rtranclp_induct) (auto intro: io_step_ok)
  with step io_step_viewed [of "fst s1" "snd s1" "fst s2" "snd s2" base cap] show ?case
    using accepts_later [OF io_steps_server [OF step.hyps(1)]] by (fastforce intro: rtranclp.rtrancl_into_rtrancl)
qed

text \<open>Three stretches of steps that begin no other session, with \<open>publish\<close>'s pieces between them.\<close>

lemma stretch_viewed:
  assumes "\<not> accepts_within cap s0" "(server_step cap)\<^sup>*\<^sup>* s0 (t, os)" "tcp_ok base s0" "0 < cap" "io_step\<^sup>*\<^sup>* (t, os) (t', os')"
  shows "(server_step cap)\<^sup>*\<^sup>* s0 (t', os') \<and> (\<exists>wire'. (viewer_io cap)\<^sup>*\<^sup>* (t, os, fs, wire) (t', os', fs, wire'))"
proof -
  have "tcp_ok base (t, os)" using assms(2,3) by (induction rule: rtranclp_induct) (auto intro: server_step_ok [OF _ assms(4)])
  from io_steps_viewed [OF assms(5) this, of cap fs wire] accepts_later [OF assms(2)] assms(1)
  show ?thesis using assms(2) io_steps_server [OF assms(5)] by (auto intro: rtranclp_trans)
qed

lemma publishes_viewed:
  assumes "publishes cap f (t, os) (t', os')" "tcp_ok base (t, os)" "0 < cap"
  shows "(\<exists>wire'. viewed_publish cap f (t, os, fs, wire) (t', os', fs @ [f], wire')) \<or> accepts_within cap (t, os)"
proof (rule disjCI)
  assume not: "\<not> accepts_within cap (t, os)"
  note go = stretch_viewed [OF not _ assms(2,3)]
  have 0: "(server_step cap)\<^sup>*\<^sup>* (t, os) (publish_count t, os)" by (intro r_into_rtranclp publish_counts)
  from assms(1) show "\<exists>wire'. viewed_publish cap f (t, os, fs, wire) (t', os', fs @ [f], wire')"
  proof cases
    case (no_client t1 os1 t2)
    obtain w1 where 1: "(server_step cap)\<^sup>*\<^sup>* (t, os) (t1, os1)" "(viewer_io cap)\<^sup>*\<^sup>* (publish_count t, os, fs, wire) (t1, os1, fs, w1)"
      using go [OF 0 no_client(2)] by blast
    obtain w2 where 2: "(viewer_io cap)\<^sup>*\<^sup>* (t1, os1, fs, w1) (t2, os', fs, w2)" using go [OF 1(1) no_client(4)] by blast
    show ?thesis using viewed_no_client [OF 1(2) no_client(3) 2] no_client(1) by blast
  next
    case (not_running t1 os1 t2 os2 t3)
    obtain w1 where 1: "(server_step cap)\<^sup>*\<^sup>* (t, os) (t1, os1)" "(viewer_io cap)\<^sup>*\<^sup>* (publish_count t, os, fs, wire) (t1, os1, fs, w1)"
      using go [OF 0 not_running(2)] by blast
    obtain w2 where 2: "(server_step cap)\<^sup>*\<^sup>* (t, os) (t2, os2)" "(viewer_io cap)\<^sup>*\<^sup>* (t1, os1, fs, w1) (t2, os2, fs, w2)"
      using go [OF 1(1) not_running(4)] by blast
    obtain w3 where 3: "(viewer_io cap)\<^sup>*\<^sup>* (t2, os2, fs, w2) (t3, os', fs, w3)" using go [OF 2(1) not_running(6)] by blast
    show ?thesis using viewed_not_running [OF 1(2) not_running(3) 2(2) not_running(5) 3] not_running(1) by blast
  next
    case (queues t1 os1 t2 os2 t3 os3 t4)
    obtain w1 where 1: "(server_step cap)\<^sup>*\<^sup>* (t, os) (t1, os1)" "(viewer_io cap)\<^sup>*\<^sup>* (publish_count t, os, fs, wire) (t1, os1, fs, w1)"
      using go [OF 0 queues(2)] by blast
    obtain w2 where 2: "(server_step cap)\<^sup>*\<^sup>* (t, os) (t2, os2)" "(viewer_io cap)\<^sup>*\<^sup>* (t1, os1, fs, w1) (t2, os2, fs, w2)"
      using go [OF 1(1) queues(4)] by blast
    obtain w3 where 3: "(server_step cap)\<^sup>*\<^sup>* (t, os) (t3, os3)" "(viewer_io cap)\<^sup>*\<^sup>* (t2, os2, fs, w2) (t3, os3, fs, w3)"
      using go [OF 2(1) queues(6)] by blast
    have 4: "(server_step cap)\<^sup>*\<^sup>* (t, os) (publish_push f t3, os3)"
      by (rule rtranclp.rtrancl_into_rtrancl [OF 3(1) publish_pushes])
    obtain w4 where 5: "(viewer_io cap)\<^sup>*\<^sup>* (publish_push f t3, os3, fs @ [f], w3) (t4, os', fs @ [f], w4)"
      using go [OF 4 queues(7)] by blast
    show ?thesis using viewed_queues [OF 1(2) queues(3) 2(2) queues(5) 3(2) 5] queues(1) by blast
  qed
qed

section \<open>The code takes these steps\<close>

lemma publish_viewer:
  assumes "attached t"
  shows "(viewer_step cap)\<^sup>*\<^sup>* (t, os, fs, wire) (publish cap f t, os, fs @ [f], wire)"
proof -
  have a: "attached (publish_count t)" "attached (publish_push f (publish_count t))" "\<not> nobody_listens (publish_count t)"
    using assms by (auto simp: attached_def publish_count_def publish_push_def nobody_listens_def Let_def split_beta)
  note cons = converse_rtranclp_into_rtranclp [where r = "viewer_step cap"]
  have "(viewer_step cap)\<^sup>*\<^sup>* (t, os, fs, wire) (publish_signal cap (publish_push f (publish_count t)), os, fs @ [f], wire)"
    by (rule cons [OF v_count [OF assms] cons [OF v_push [OF a(1)] r_into_rtranclp [where r = "viewer_step cap", OF v_signal [OF a(2)]]]])
  then show ?thesis using a(3) by (simp add: publish_def Let_def)
qed

lemma viewed_publish_alone:
  "attached t \<Longrightarrow> viewed_publish cap f (t, os, fs, wire) (publish cap f t, os, fs @ [f], wire)"
  using viewed_queues [of cap t os fs wire "publish_count t" os wire "publish_count t" os wire "publish_count t" os wire f
      "publish_push f (publish_count t)" os wire]
  by (auto simp: publish_def nobody_listens_def Let_def) (auto simp: attached_def publish_count_def)

lemma turn_viewer:
  assumes "tcp_turn turn t os = Some (goes_on, t', os', w)" "attached t"
    and "case io_poll turn of Done (_, listen_in, _) \<Rightarrow> \<not> listen_in | Fail _ \<Rightarrow> True"
    and "cs_valid (t_session t')"
  shows "(viewer_step cap)\<^sup>*\<^sup>* (t, os, fs, wire) (t', os', fs, wire @ w)"
  using assms(1)
proof (cases rule: turn_cases)
  case interrupted
  then show ?thesis by simp
next
  case (failed e)
  then show ?thesis using v_error [OF assms(2)] by auto
next
  case (served wake_in listen_in revents t1 os1 t2 os2)
  note cons = converse_rtranclp_into_rtranclp [where r = "viewer_step cap"]
  have "\<not> listen_in" using assms(3) served(1) by simp
  then have t2: "t2 = t1" "os2 = os1" using served(4) by simp_all
  have w: "attached (woken turn t)" "(viewer_step cap)\<^sup>*\<^sup>* (t, os, fs, wire) (woken turn t, os, fs, wire)"
    using assms(2) v_drain [OF assms(2)] by (auto simp: woken_def attached_def split: sys_result.splits bool.splits)
  have ev: "serviceClientEvents revents (io_recv turn) (woken turn t) os = Some (t1, os1)"
    using served(3) w(1) by (simp add: events_served_def attached_def)
  have valid: "cs_valid (t_session t1)" using served(5) assms(4) t2 by (auto split: if_splits)
  then have out: "serviceOutput (io_send turn) t1 os1 = Some (t', os', w)" using served(5) t2 by simp
  have "t1 = woken turn t" using ev valid endSession_fields(1)
    by (auto simp: serviceClientEvents_def split: if_splits option.splits)
  then have "attached t1" using w(1) by simp
  then show ?thesis
    using w(2) cons [OF v_events [OF w(1) ev] r_into_rtranclp [where r = "viewer_step cap", OF v_output [OF _ out]]] by (meson rtranclp_trans)
qed

end
