(* ===== verification/ServerProperties.thy ===== *)
theory ServerProperties
  imports ServerStream
begin

text \<open>
  What the streaming server promises: the stream a viewer receives, its descriptors and counters,
  \<open>publish\<close>, \<open>start\<close>, and that everything owed is eventually sent; with a concrete run.
\<close>

section \<open>Properties\<close>

text \<open>
  C9: What a viewer sees. From the moment a connection is accepted until it ends, in any interleaving of
  the I/O thread with the pieces of \<open>publish\<close> and with \<open>stop\<close>, however often the queue overflows, and
  however the socket splits, delays, interrupts or refuses the writes: if the peer has received the bytes
  the kernel accepted, in any chunks, its decoder has produced without an error exactly some of the
  frames pushed since the connection, whole and in their order, and holds the beginning of at most one
  more packet. Once nothing is owed to the connection there is no such beginning; and if the frames
  pushed fit the queue, it has then received every one of them.
\<close>
theorem viewer_stream:
  assumes "tcp_new base s0" "0 < cap" "(server_step cap)\<^sup>*\<^sup>* s0 (t0, os0)" "t_worker t0 = Running"
    and "fresh_accepts os0 script" "acceptClient script t0 os0 = Some (t, os)"
    and "st_client_connects (t_stats t) \<noteq> st_client_connects (t_stats t0)"
    and "(viewer_step cap)\<^sup>*\<^sup>* (t, os, [], []) (t', os', fs, wire)" "concat chunks = wire"
  shows "\<exists>frames part. subseq frames fs \<and>
    receive_all decode_one chunks = (map truncate_frame frames, None, part) \<and>
    (cs_valid (t_session t') \<and> owed (t_session t') (t_queue t') = [] \<longrightarrow> part = [] \<and>
       (length fs \<le> fq_capacity (t_queue t') \<longrightarrow> frames = fs))"
proof (rule viewing_received [OF _ assms(9)])
  show "viewing (t', os', fs, wire)"
    by (rule viewer_steps_viewing [OF assms(8)], rule viewing_start(2) [OF reachable_tcp_ok [OF assms(1-3)] assms(4-7)])
qed

text \<open>
  C24: The server's books balance. In every interleaving of the I/O thread, \<open>start\<close> and \<open>stop\<close> with the
  calls of \<open>publish\<close>: nothing is closed twice; the open descriptors are those of the rest of the
  process and exactly the valid ones among the listening socket, the two pipe ends and the client
  socket, all different; after \<open>stop\<close> none of them is left. The flag and the statistic tell truly
  whether a client is connected, connections minus disconnections is the number of clients, there is
  a client only while the thread runs, and the queue never exceeds the configured capacity.
\<close>
theorem server_resources:
  assumes "tcp_new base s0" "0 < cap" "(server_step cap)\<^sup>*\<^sup>* s0 (t, os)"
  shows "\<not> bad_close os \<and> open_fds os = base \<union> {fd \<in> set (tcp_fds t). 0 \<le> fd} \<and> base \<inter> {fd \<in> set (tcp_fds t). 0 \<le> fd} = {} \<and>
    distinct (filter fd_valid (tcp_fds t)) \<and> (t_worker t = Detached \<longrightarrow> open_fds os = base) \<and>
    (hasClient t \<longleftrightarrow> cs_valid (t_session t)) \<and> (st_client_connected (t_stats t) \<longleftrightarrow> hasClient t) \<and>
    st_client_connects (t_stats t) - st_client_disconnects (t_stats t) = (if hasClient t then 1 else 0) \<and>
    (isRunning t \<longleftrightarrow> t_worker t = Running) \<and> (hasClient t \<longrightarrow> isRunning t) \<and>
    length (fq_queue (t_queue t)) \<le> max 1 (queue_capacity (t_config t))"
proof -
  have ok: "tcp_ok base (t, os)" by (rule reachable_tcp_ok [OF assms])
  have valid: "set (filter fd_valid (tcp_fds t)) = {fd \<in> set (tcp_fds t). 0 \<le> fd}" by (auto simp: fd_valid_def)
  have "t_worker t = Detached \<longrightarrow> {fd \<in> set (tcp_fds t). 0 \<le> fd} = {}"
    using ok by (auto simp: tcp_ok_def thread_ok_def tcp_fds_def fd_valid_def cs_valid_def)
  moreover have "owns base (tcp_fds t) os" using ok by (simp add: tcp_ok_def)
  ultimately show ?thesis
    using ok unfolding owns_def valid
    by (auto simp: tcp_ok_def session_accounted_def thread_ok_def hasClient_def isRunning_def queue_ok_def)
qed

text \<open>
  C26: The input of a viewer. When \<open>poll\<close> reports data of a connected viewer and no error, the I/O thread
  reads until the viewer pauses. Let the answers of \<open>recv\<close> be any endless sequence. If one of them is
  neither data nor an interruption, the first of these decides: the end of the stream closes the
  connection in good order, an empty buffer leaves everything as it is, anything else closes the
  connection as an error; what came before is thrown away and what comes later is not read. But if none
  is, no number of answers ends the turn: a viewer that keeps sending holds the I/O thread for as long as
  it does, and neither output, nor another viewer, nor a request to stop is served meanwhile.
\<close>
theorem viewer_input:
  assumes "io_poll turn = Done (wake, listen, revents)" "cs_valid (t_session t)"
    and "POLLIN \<in> set revents" "set revents \<inter> {POLLHUP, POLLERR, POLLNVAL} = {}"
  shows "((\<forall>k. recv_again (answers k)) \<longrightarrow>
      (\<forall>n. tcp_turn (turn\<lparr>io_recv := map answers [0..<n]\<rparr>) t os = None)) \<and>
    (\<forall>k n. \<not> recv_again (answers k) \<and> (\<forall>j<k. recv_again (answers j)) \<and> k < n \<longrightarrow>
      serviceClientEvents revents (map answers [0..<n]) t os =
        Some (if fst (answers k) = 0 then endSession False t os
              else if snd (answers k) = EAGAIN then (t, os) else endSession True t os))"
proof (intro conjI impI allI, goal_cases)
  case (1 n)
  then have "drain_input (map answers [0..<n]) = None" by (simp add: drain_input_None list_all_iff)
  with assms show ?case by (auto simp: tcp_turn_def serviceClientEvents_def drainInput_def Let_def)
next
  case (2 k n)
  obtain a e where k: "answers k = (a, e)" by fastforce
  have "[0..<n] = [0..<k] @ k # [Suc k..<n]" using 2 by (metis conj_commute upt_conv_Cons upt_add_eq_append le_add_diff_inverse less_imp_le_nat zero_le)
  then have "map answers [0..<n] = map answers [0..<k] @ (a, e) # map answers [Suc k..<n]" by (simp add: k)
  moreover have "list_all recv_again (map answers [0..<k])" using 2 by (simp add: list_all_iff)
  moreover have "\<not> recv_again (a, e)" using 2 by (simp add: k)
  ultimately have "drain_input (map answers [0..<n]) = Some (if a = 0 then Closed else if e = EAGAIN then Progressed else Failed)"
    using drain_input_decided by metis
  with assms show ?case by (auto simp: serviceClientEvents_def drainInput_def k)
qed

text \<open>
  A connection that cannot be accepted, say because the process has no descriptor left, stays in the
  backlog: the turn changes nothing but the message, and the next \<open>poll\<close> returns at once.
\<close>

lemma refused_connection_spins:
  assumes "io_poll turn = Done (False, True, revents)" "\<not> cs_valid (t_session t)"
    and "io_accept turn = (Fail (Errno what), nonblock) # rest"
  shows "tcp_turn turn t os = Some (True, t\<lparr>t_last_error := ''accept(): '' @ what, t_queue := clear (t_queue t)\<rparr>, os, []) \<and>
    poll_set (t\<lparr>t_last_error := ''accept(): '' @ what, t_queue := clear (t_queue t)\<rparr>) = poll_set t"
  using assms
  by (simp add: tcp_turn_def acceptClient_def tcp_setError_def net_describeErrno_def cs_valid_def empty_session_def fd_defs
      poll_set_def Let_def)

text \<open>
  C34: \<open>publish\<close> always succeeds for its caller. It changes nothing but the counters, the queue and the
  wake pipe. Without a client the frame is counted as dropped and nothing else happens; with one it
  becomes the newest queued frame, the oldest one leaves if the queue was full, and the I/O thread's
  \<open>poll\<close> has a byte to wake up for.
\<close>
theorem publish_total:
  assumes "tcp_new base s0" "0 < cap" "(server_step cap)\<^sup>*\<^sup>* s0 (t, os)"
  shows "(let t' = publish cap f t; full = length (fq_queue (t_queue t)) = fq_capacity (t_queue t) in
    t' = t\<lparr>t_queue := t_queue t', t_wake := t_wake t', t_stats := t_stats t'\<rparr> \<and>
    t_stats t' = (t_stats t)\<lparr>st_frames_published := st_frames_published (t_stats t) + 1,
      st_frames_dropped := st_frames_dropped (t_stats t) + (if \<not> hasClient t \<or> full then 1 else 0)\<rparr> \<and>
    (if hasClient t
     then fq_queue (t_queue t') = (if full then tl (fq_queue (t_queue t)) else fq_queue (t_queue t)) @ [f] \<and>
       in_pipe (t_wake t') = 1
     else t_queue t' = t_queue t \<and> t_wake t' = t_wake t))"
proof -
  have ok: "tcp_ok base (t, os)" by (rule reachable_tcp_ok [OF assms])
  have nobody: "nobody_listens t = (\<not> hasClient t)"
    using ok by (auto simp: nobody_listens_def hasClient_def tcp_ok_def session_accounted_def thread_ok_def)
  show ?thesis
  proof (cases "hasClient t")
    case False
    then show ?thesis using nobody by (simp add: publish_def publish_count_def publish_discard_def nobody_listens_def)
  next
    case True
    have wake: "wake_ok (t_wake t)" "fd_valid (write_end (t_wake t))"
      using ok True by (auto simp: tcp_ok_def session_accounted_def thread_ok_def hasClient_def wake_ready_def)
    have q: "length (fq_queue (t_queue t)) \<le> fq_capacity (t_queue t)" "1 \<le> fq_capacity (t_queue t)"
      using ok by (auto simp: tcp_ok_def queue_ok_def)
    define n where "n = Suc (length (fq_queue (t_queue t))) - fq_capacity (t_queue t)"
    have n: "n = (if length (fq_queue (t_queue t)) = fq_capacity (t_queue t) then 1 else 0)"
      using q by (auto simp: n_def)
    have d: "drop n (fq_queue (t_queue t)) =
        (if length (fq_queue (t_queue t)) = fq_capacity (t_queue t) then tl (fq_queue (t_queue t)) else fq_queue (t_queue t))"
      by (simp add: n drop_Suc)
    obtain q' k where p: "push f (t_queue t) = (q', k)" by fastforce
    have p': "fq_queue q' = drop n (fq_queue (t_queue t)) @ [f]" "k = n"
      using push_queue(1,2) [OF q(2), of f] by (simp_all add: p n_def)
    have "nobody_listens (publish_count t) = nobody_listens t" by (simp add: nobody_listens_def publish_count_def)
    then show ?thesis
      using True nobody wp_signal_wakes [OF wake(1) assms(2) wake(2)] p'
      by (simp add: publish_def publish_count_def publish_push_def publish_signal_def Let_def p d) (simp add: n)
  qed
qed

text \<open>
  C33: \<open>start\<close> is all or nothing. While the server runs it is refused. From a server that was never
  started or was stopped, it succeeds exactly if the pipe, the socket, its options, the bind address,
  \<open>bind\<close>, \<open>listen\<close> and the thread do; otherwise no descriptor is left open and the error text says why.
  But after the I/O thread has ended by itself, which a failing \<open>poll\<close> makes it do, a \<open>start\<close> for which
  everything succeeds ends the process.
\<close>
theorem server_start:
  assumes "tcp_new base s0" "0 < cap" "(server_step cap)\<^sup>*\<^sup>* s0 (t, os)" "fresh_start k t os"
  shows "(isRunning t \<longrightarrow> tcp_start k t os = Some (False, t\<lparr>t_last_error := ''start() called while already running''\<rparr>, os)) \<and>
    (t_worker t = Detached \<longrightarrow> (\<exists>t' os'. tcp_start k t os = Some (starts_up k t, t', os') \<and>
       (if starts_up k t then isRunning t' \<and> lk_socket (sk_listen k) = Done (t_listen_fd t')
        else \<not> isRunning t' \<and> open_fds os' = open_fds os \<and> t_last_error t' \<noteq> []))) \<and>
    (t_worker t = Returned \<longrightarrow> (tcp_start k t os = None \<longleftrightarrow> starts_up k t))"
proof -
  have ok: "tcp_ok base (t, os)" by (rule reachable_tcp_ok [OF assms(1-3)])
  have closed: "open_fds os = base" if "t_worker t = Detached" "tcp_ok base (t, os)" for t os
    using that by (auto simp: tcp_ok_def thread_ok_def tcp_fds_def owns_def cs_valid_def)
  show ?thesis
  proof (cases "t_running t")
    case True
    then have "t_worker t = Running" using ok by (simp add: tcp_ok_def thread_ok_def)
    with True show ?thesis by (simp add: tcp_start_def isRunning_def tcp_setError_def)
  next
    case False
    note out = tcp_start_outcome [OF ok assms(4) False, unfolded start_post_def]
    show ?thesis
    proof (cases "tcp_start k t os")
      case None
      with out False show ?thesis by (auto simp: isRunning_def joinable_def)
    next
      case (Some r)
      obtain started t' os' where r: "r = (started, t', os')" by (cases r) auto
      have o: "tcp_ok base (t', os')" "started \<longleftrightarrow> starts_up k t" "started \<longrightarrow> \<not> joinable (t_worker t)"
        "started \<longrightarrow> t_running t' \<and> lk_socket (sk_listen k) = Done (t_listen_fd t')"
        "\<not> started \<longrightarrow> t_worker t' = t_worker t \<and> t_last_error t' \<noteq> []"
        using out by (simp_all add: Some r)
      have "\<not> started \<and> t_worker t = Detached \<longrightarrow> \<not> t_running t' \<and> open_fds os' = open_fds os"
        using o(1,5) closed [of t os] closed [of t' os'] ok by (auto simp: tcp_ok_def thread_ok_def)
      with o(2-5) False show ?thesis by (auto simp: Some r isRunning_def joinable_def)
    qed
  qed
qed

section \<open>A sample run\<close>

text \<open>A process with the three standard descriptors, in which every call succeeds.\<close>

definition sample_os :: os where
  "sample_os = \<lparr>open_fds = {0, 1, 2}, bad_close = False\<rparr>"

definition server_kernel :: start_kernel where
  "server_kernel = \<lparr>sk_pipe = Done (4, 5), sk_getfl = \<lambda>_. 0, sk_setfl = \<lambda>_ _. 0, sk_pipe_errno = EAGAIN,
     sk_listen = \<lparr>lk_socket = Done 3, lk_reuseaddr = None, lk_getfl = \<lambda>_. 0, lk_setfl = \<lambda>_ _. 0, lk_fcntl_errno = EAGAIN,
       lk_inet_pton = \<lambda>_. Some 0, lk_bind = \<lambda>_ _. None, lk_listen = \<lambda>_. None\<rparr>,
     sk_spawn_error = None\<rparr>"

definition sample_server :: tcp_server where
  "sample_server = (TcpServer default_tcp_config)\<lparr>t_wake := WakePipe\<lparr>read_end := 4, write_end := 5\<rparr>,
     t_listen_fd := 3, t_running := True, t_worker := Running\<rparr>"

definition sample_server_os :: os where
  "sample_server_os = \<lparr>open_fds = {0, 1, 2, 3, 4, 5}, bad_close = False\<rparr>"

lemma sample_new: "tcp_new {0, 1, 2} (TcpServer default_tcp_config, sample_os)"
  by (auto simp: tcp_new_def sample_os_def)

lemma sample_started_at:
  assumes "3 \<notin> open_fds os" "4 \<notin> open_fds os" "5 \<notin> open_fds os"
  shows "fresh_start server_kernel (TcpServer default_tcp_config) os"
    "tcp_start server_kernel (TcpServer default_tcp_config) os =
       Some (True, sample_server, os\<lparr>open_fds := {3, 4, 5} \<union> open_fds os\<rparr>)"
proof -
  have o: "wp_open (sk_pipe server_kernel) (sk_getfl server_kernel) (sk_setfl server_kernel) WakePipe os =
     (True, WakePipe\<lparr>read_end := 4, write_end := 5\<rparr>, os\<lparr>open_fds := {5, 4} \<union> open_fds os\<rparr>)"
    by (simp add: wp_open_def server_kernel_def WakePipe_def fd_defs setNonBlocking_def os_open_def)
  have m: "makeListenSocket (sk_listen server_kernel) default_tcp_config [] (os\<lparr>open_fds := {5, 4} \<union> open_fds os\<rparr>) =
      (3, [], os\<lparr>open_fds := {3, 4, 5} \<union> open_fds os\<rparr>)"
    by (simp add: makeListenSocket_def server_kernel_def fd_defs setNonBlocking_def os_open_def insert_commute)
  show "fresh_start server_kernel (TcpServer default_tcp_config) os"
    using o assms by (simp add: fresh_start_def TcpServer_def) (simp add: fresh_pair_def server_kernel_def fresh_fd_def)
  show "tcp_start server_kernel (TcpServer default_tcp_config) os =
       Some (True, sample_server, os\<lparr>open_fds := {3, 4, 5} \<union> open_fds os\<rparr>)"
    using o m
    by (simp add: tcp_start_def TcpServer_def fd_defs joinable_def sample_server_def WakePipe_def)
      (simp add: server_kernel_def joinable_def)
qed

lemma sample_fresh: "fresh_start server_kernel (TcpServer default_tcp_config) sample_os"
  by (rule sample_started_at(1)) (simp_all add: sample_os_def)

lemma sample_started:
  "tcp_start server_kernel (TcpServer default_tcp_config) sample_os = Some (True, sample_server, sample_server_os)"
proof -
  have "sample_os\<lparr>open_fds := {3, 4, 5} \<union> open_fds sample_os\<rparr> = sample_server_os"
    by (auto simp: sample_os_def sample_server_os_def)
  then show ?thesis using sample_started_at(2) [of sample_os] by (simp add: sample_os_def)
qed

lemma sample_reached: "(server_step 1)\<^sup>*\<^sup>* (TcpServer default_tcp_config, sample_os) (sample_server, sample_server_os)"
  by (rule r_into_rtranclp [where r = "server_step 1"], rule starts [OF sample_fresh sample_started])

text \<open>The port is taken: nothing stays open.\<close>

theorem server_start_witness:
  "\<exists>t' os'. tcp_start (server_kernel\<lparr>sk_listen := (sk_listen server_kernel)\<lparr>lk_bind := \<lambda>_ _. Some (Errno ''Address already in use'')\<rparr>\<rparr>)
     (TcpServer default_tcp_config) sample_os = Some (False, t', os') \<and> open_fds os' = {0, 1, 2} \<and> t_last_error t' \<noteq> []"
proof -
  let ?k = "server_kernel\<lparr>sk_listen := (sk_listen server_kernel)\<lparr>lk_bind := \<lambda>_ _. Some (Errno ''Address already in use'')\<rparr>\<rparr>"
  have "fresh_start ?k (TcpServer default_tcp_config) sample_os" using sample_fresh by (simp add: fresh_start_def)
  moreover have "\<not> starts_up ?k (TcpServer default_tcp_config)" by (simp add: starts_up_def)
  moreover have "t_worker (TcpServer default_tcp_config) = Detached" by (simp add: TcpServer_def)
  ultimately show ?thesis
    using server_start [OF sample_new zero_less_one rtranclp.rtrancl_refl, of ?k] by (auto simp: sample_os_def)
qed

text \<open>Once started, the descriptors are as counted.\<close>

theorem server_resources_witness:
  "open_fds sample_server_os = {0, 1, 2} \<union> {fd \<in> set (tcp_fds sample_server). 0 \<le> fd} \<and> isRunning sample_server"
  using server_resources [OF sample_new zero_less_one sample_reached]
  by (auto simp: sample_server_def isRunning_def)


text \<open>A viewer connects and gets descriptor 6.\<close>

definition sample_client :: tcp_server where
  "sample_client = sample_server\<lparr>t_session := ClientSession 6, t_client_connected := True,
     t_stats := zero_tcp_stats\<lparr>st_client_connects := 1, st_client_connected := True\<rparr>\<rparr>"

definition sample_client_os :: os where
  "sample_client_os = \<lparr>open_fds = {0, 1, 2, 3, 4, 5, 6}, bad_close = False\<rparr>"

lemma sample_accept_at: "acceptClient [(Done 6, None)] sample_server os = Some (sample_client, os\<lparr>open_fds := insert 6 (open_fds os)\<rparr>)"
proof -
  have "clear (FrameQueue 16) = FrameQueue 16" by (simp add: clear.simps FrameQueue_def)
  then show ?thesis
    by (auto simp: acceptClient_def sample_server_def TcpServer_def ClientSession_def empty_session_def
        cs_valid_def fd_defs os_open_def tcp_setError_def sample_client_def default_tcp_config_def Let_def)
      (simp add: zero_tcp_stats_def)
qed

lemma sample_accept: "acceptClient [(Done 6, None)] sample_server sample_server_os = Some (sample_client, sample_client_os)"
  using sample_accept_at [of sample_server_os] by (auto simp: sample_server_os_def sample_client_os_def insert_commute)

lemma sample_counted: "st_client_connects (t_stats sample_client) \<noteq> st_client_connects (t_stats sample_server)"
  by (simp add: sample_client_def sample_server_def TcpServer_def zero_tcp_stats_def)

lemma sample_fresh_accept: "fresh_accepts sample_server_os [(Done 6, None)]"
  by (auto simp: fresh_accepts_def fresh_fd_def sample_server_os_def)

lemma sample_connected: "(server_step 1)\<^sup>*\<^sup>* (TcpServer default_tcp_config, sample_os) (sample_client, sample_client_os)"
proof -
  have "server_step 1 (sample_server, sample_server_os) (sample_client, sample_client_os)"
    by (rule io_steps, rule accepts [OF _ sample_fresh_accept sample_accept]) (simp add: sample_server_def)
  with sample_reached show ?thesis by (rule rtranclp.rtrancl_into_rtrancl)
qed

theorem publish_total_witness:
  "hasClient sample_client \<and> fq_queue (t_queue (publish 1 sample_frame sample_client)) = [sample_frame]"
proof -
  have "hasClient sample_client" by (simp add: sample_client_def hasClient_def)
  moreover have "fq_queue (t_queue sample_client) = []"
    by (simp add: sample_client_def sample_server_def TcpServer_def FrameQueue_def)
  ultimately show ?thesis
    using publish_total [OF sample_new zero_less_one sample_connected, of sample_frame] by (auto simp: Let_def)
qed

text \<open>A viewer that never stops sending: the turn does not end, whatever the number of answers.\<close>

theorem viewer_input_witness:
  "(\<forall>n. tcp_turn \<lparr>io_poll = Done (False, False, [POLLIN]), io_recv = map (\<lambda>_. (256, EAGAIN)) [0..<n], io_accept = [],
       io_send = []\<rparr> sample_client sample_client_os = None) \<and>
   serviceClientEvents [POLLIN] (map (\<lambda>k. (if k < 3 then 256 else - 1, EAGAIN)) [0..<5]) sample_client sample_client_os =
     Some (sample_client, sample_client_os)"
proof -
  have valid: "cs_valid (t_session sample_client)" by (simp add: sample_client_def cs_valid_def ClientSession_def empty_session_def fd_valid_def)
  have turn: "io_poll (\<lparr>io_poll = Done (False, False, [POLLIN]), io_recv = [], io_accept = [], io_send = []\<rparr> :: io_turn) =
      Done (False, False, [POLLIN])" by simp
  note input = viewer_input [OF turn valid, where os = sample_client_os, simplified]
  from conjunct1 [OF input, of "\<lambda>_. (256, EAGAIN)"] conjunct2 [OF input, of "\<lambda>k. (if k < 3 then 256 else - 1, EAGAIN)"]
  show ?thesis by (auto simp: recv_again_def dest: spec [of _ "3::nat"])
qed

text \<open>One frame, an interrupted write, a partial one, and the rest in the next turn.\<close>

definition sample_turn :: "(int \<times> errno) list \<Rightarrow> io_turn" where
  "sample_turn script = \<lparr>io_poll = Done (True, False, [POLLOUT]), io_recv = [], io_accept = [], io_send = script\<rparr>"

lemma sample_frame_length: "length (encode sample_frame) = 42"
  by (simp add: encode_length encodedSize_def sample_frame_def pointCount_eq kHeaderSizeV1_def kPointStrideV1_def)

lemma frame_copy: "default_frame\<lparr>sequence := sequence f, timestamp_us := timestamp_us f, points := points f\<rparr> = f"
  by (cases f) (simp add: default_frame_def)

lemma sample_owed:
  "cs_valid (t_session (publish 1 f sample_client))"
  "owed (t_session (publish 1 f sample_client)) (t_queue (publish 1 f sample_client)) = encode f"
  "fq_capacity (t_queue (publish 1 f sample_client)) = 16" "attached (publish 1 f sample_client)"
  by (simp_all add: sample_client_def sample_server_def TcpServer_def default_tcp_config_def FrameQueue_def
      publish_def publish_count_def nobody_listens_def publish_push_def publish_signal_def push_def evict.simps acquireLocked_def
      cs_valid_def ClientSession_def empty_session_def fd_valid_def owed_def frame_copy attached_def Let_def)

lemma sample_served:
  "\<exists>t1 t2. tcp_turn (sample_turn [(- 1, EINTR), (10, EAGAIN), (- 1, EAGAIN)]) (publish 1 sample_frame sample_client) sample_client_os =
       Some (True, t1, sample_client_os, take 10 (encode sample_frame)) \<and> attached t1 \<and>
     tcp_turn (sample_turn [(32, EAGAIN)]) t1 sample_client_os = Some (True, t2, sample_client_os, drop 10 (encode sample_frame)) \<and>
     cs_valid (t_session t2) \<and> owed (t_session t2) (t_queue t2) = [] \<and> fq_capacity (t_queue t2) = 16"
  by (simp add: sample_turn_def sample_client_def sample_server_def TcpServer_def default_tcp_config_def
      publish_def publish_count_def nobody_listens_def publish_push_def publish_signal_def tcp_turn_def serviceClientEvents_def
      serviceOutput_def FrameQueue_def push_def evict.simps acquireLocked_def pump_def cs_valid_def no_progress_def
      ClientSession_def empty_session_def fd_valid_def pump_loop.simps refill_def pop_def recycleLocked_def sent_def
      sample_frame_length frame_copy encode_nonempty Let_def owed_def kPoolSlack_def attached_def)

lemma sample_viewed:
  "\<exists>t. (viewer_step 1)\<^sup>*\<^sup>* (sample_client, sample_client_os, [], []) (t, sample_client_os, [sample_frame], encode sample_frame) \<and>
     cs_valid (t_session t) \<and> owed (t_session t) (t_queue t) = [] \<and> fq_capacity (t_queue t) = 16"
proof -
  let ?t0 = "publish 1 sample_frame sample_client"
  obtain t1 t2 where t: "tcp_turn (sample_turn [(- 1, EINTR), (10, EAGAIN), (- 1, EAGAIN)]) ?t0 sample_client_os =
      Some (True, t1, sample_client_os, take 10 (encode sample_frame))" "attached t1"
    "tcp_turn (sample_turn [(32, EAGAIN)]) t1 sample_client_os = Some (True, t2, sample_client_os, drop 10 (encode sample_frame))"
    "cs_valid (t_session t2)" "owed (t_session t2) (t_queue t2) = []" "fq_capacity (t_queue t2) = 16"
    using sample_served by blast
  have att: "attached sample_client" "attached ?t0" "cs_valid (t_session t1)"
    using t(2) by (auto simp: attached_def sample_client_def sample_server_def TcpServer_def publish_def publish_count_def
        nobody_listens_def publish_push_def publish_signal_def cs_valid_def ClientSession_def empty_session_def fd_valid_def
        Let_def split_beta)
  have quiet: "case io_poll (sample_turn script) of Done (_, listen_in, _) \<Rightarrow> \<not> listen_in | Fail _ \<Rightarrow> True" for script
    by (simp add: sample_turn_def)
  have "(viewer_step 1)\<^sup>*\<^sup>* (sample_client, sample_client_os, [], []) (?t0, sample_client_os, [sample_frame], [])"
    using publish_viewer [OF att(1), of 1 sample_client_os "[]" "[]" sample_frame] by simp
  moreover note turn_viewer [OF t(1) att(2) quiet att(3), of 1 "[sample_frame]" "[]", unfolded append_Nil]
  moreover note turn_viewer [OF t(3,2) quiet t(4), of 1 "[sample_frame]" "take 10 (encode sample_frame)", unfolded append_take_drop_id]
  ultimately have "(viewer_step 1)\<^sup>*\<^sup>* (sample_client, sample_client_os, [], []) (t2, sample_client_os, [sample_frame], encode sample_frame)"
    by (meson rtranclp_trans)
  with t(4-6) show ?thesis by blast
qed

theorem viewer_stream_witness:
  "\<exists>t. (viewer_step 1)\<^sup>*\<^sup>* (sample_client, sample_client_os, [], []) (t, sample_client_os, [sample_frame], encode sample_frame) \<and>
     fst (receive_all decode_one [take 3 (encode sample_frame), drop 3 (encode sample_frame)]) = [sample_frame]"
proof -
  obtain t where t: "(viewer_step 1)\<^sup>*\<^sup>* (sample_client, sample_client_os, [], []) (t, sample_client_os, [sample_frame], encode sample_frame)"
    "cs_valid (t_session t)" "owed (t_session t) (t_queue t) = []" "fq_capacity (t_queue t) = 16"
    using sample_viewed by blast
  have running: "t_worker sample_server = Running" by (simp add: sample_server_def)
  have "concat [take 3 (encode sample_frame), drop 3 (encode sample_frame)] = encode sample_frame" by simp
  from viewer_stream [OF sample_new zero_less_one sample_reached running sample_fresh_accept sample_accept sample_counted t(1) this] t(2-4)
  have "fst (receive_all decode_one [take 3 (encode sample_frame), drop 3 (encode sample_frame)]) =
      map truncate_frame [sample_frame]" by auto
  moreover have "truncate_frame sample_frame = sample_frame"
    by (rule truncate_frame_id) (simp add: sample_frame_def)
  ultimately show ?thesis using t(1) by auto
qed

lemma drains_owed:
  assumes "cs_valid (t_session t)" "taking script" "length (owed (t_session t) (t_queue t)) \<le> writes_in script"
  shows "\<exists>t'. serviceOutput script t os = Some (t', os, owed (t_session t) (t_queue t)) \<and>
    cs_valid (t_session t') \<and> owed (t_session t') (t_queue t') = [] \<and> fq_capacity (t_queue t') = fq_capacity (t_queue t)"
proof -
  obtain r where r: "pump script (t_queue t) (t_session t) no_progress [] = Some r" "p_result r = Progressed"
    "p_wire r = owed (t_session t) (t_queue t)"
    using pump_loop_delivers [OF assms(2,3), of no_progress "[]" "[]"] assms(1) by (auto simp: pump_def)
  have p: "pumped [] (t_session t) (t_queue t) r" by (rule pump_pumped [OF r(1) assms(1)])
  have "\<exists>t'. serviceOutput script t os = Some (t', os, owed (t_session t) (t_queue t)) \<and>
       t_session t' = p_session r \<and> t_queue t' = p_queue r"
    using r by (auto simp: serviceOutput_def Let_def)
  moreover have "cs_valid (p_session r)" "owed (p_session r) (p_queue r) = []" "fq_capacity (p_queue r) = fq_capacity (t_queue t)"
    using p r(2) assms(1) by (simp_all add: pumped_def cs_valid_def)
  ultimately show ?thesis by metis
qed

text \<open>
  C25: The stream drains. While anything is owed to the client, its socket is registered for writing, so
  a socket with room ends the \<open>poll\<close>; and however many writes the socket splits them into, once it has
  taken as many writes as there are bytes owed, the loop of \<open>pump\<close> has ended and every owed byte is sent.
\<close>
theorem server_drains:
  assumes "cs_valid (t_session t)" "owed (t_session t) (t_queue t) \<noteq> []"
    and "taking script" "length (owed (t_session t) (t_queue t)) \<le> writes_in script"
  shows "(\<exists>events. (cs_fd (t_session t), events) \<in> set (poll_set t) \<and> POLLOUT \<in> set events) \<and>
    (\<exists>t'. serviceOutput script t os = Some (t', os, owed (t_session t) (t_queue t)) \<and>
       cs_valid (t_session t') \<and> owed (t_session t') (t_queue t') = [])"
proof
  have "POLLOUT \<in> set (pollEvents (t_session t) (\<not> queue_empty (t_queue t)))"
    using assms(2) by (auto simp: pollEvents_def queue_empty_def owed_def)
  then show "\<exists>events. (cs_fd (t_session t), events) \<in> set (poll_set t) \<and> POLLOUT \<in> set events"
    using assms(1) by (auto simp: poll_set_def)
  show "\<exists>t'. serviceOutput script t os = Some (t', os, owed (t_session t) (t_queue t)) \<and>
       cs_valid (t_session t') \<and> owed (t_session t') (t_queue t') = []"
    using drains_owed [OF assms(1,3,4)] by blast
qed

theorem server_drains_witness:
  "\<exists>t'. serviceOutput (replicate 42 (7, EAGAIN)) (publish 1 sample_frame sample_client) sample_client_os =
     Some (t', sample_client_os, encode sample_frame)"
proof -
  let ?t = "publish 1 sample_frame sample_client"
  note t = sample_owed(1,2) [of sample_frame]
  have "taking (replicate 42 (7, EAGAIN))" "writes_in (replicate 42 (7, EAGAIN)) = 42"
    by (simp_all add: taking_def writes_in_def)
  with server_drains [OF t(1), of "replicate 42 (7, EAGAIN)" sample_client_os] t(2) show ?thesis
    by (auto simp: sample_frame_length encode_nonempty)
qed

end
