(* ===== verification/ServerHandover.thy ===== *)
theory ServerHandover
  imports ServerProperties
begin

text \<open>
  The server one access at a time: the statements of \<open>acceptClient\<close>, \<open>endSession\<close>, \<open>publish\<close> and of the
  \<open>poll\<close> loop in \<open>network/TcpServer.cpp\<close>, each a step of its own, so that publishers run between the store of
  \<open>client_connected\<close> and the clearing of the queue, between the two loads of \<open>publish\<close> and the push, and
  between the push, the count and the signal; the accesses of \<open>signal\<close> and \<open>drain\<close> are steps too.
  \<open>ServerInterleaving\<close> takes \<open>acceptClient\<close>, \<open>endSession\<close>, \<open>signal\<close> and \<open>drain\<close> as wholes; here is what that
  leaves out. A critical section under one mutex is a step; so are \<open>pump\<close>, which shares only its calls of
  \<open>pop\<close>, the system calls of one \<open>accept\<close>, and the reads of one \<open>drain\<close>.
\<close>

section \<open>The statements\<close>

definition closes_session :: "tcp_server \<Rightarrow> os \<Rightarrow> tcp_server \<times> os" where
  "closes_session t os = (case cs_close (t_session t) os of (s, os) \<Rightarrow> (t\<lparr>t_session := s\<rparr>, os))"

definition stores_client :: "bool \<Rightarrow> tcp_server \<Rightarrow> tcp_server" where
  "stores_client connected t = t\<lparr>t_client_connected := connected\<rparr>"

definition counts_end :: "bool \<Rightarrow> tcp_server \<Rightarrow> tcp_server" where
  "counts_end error_related t =
     (let st = (t_stats t)\<lparr>st_client_disconnects := st_client_disconnects (t_stats t) + 1\<rparr>;
          st = (if error_related then st\<lparr>st_send_errors := st_send_errors st + 1\<rparr> else st)
      in t\<lparr>t_stats := st\<lparr>st_client_connected := False\<rparr>\<rparr>)"

definition takes_over :: "client_session \<Rightarrow> tcp_server \<Rightarrow> os \<Rightarrow> tcp_server \<times> os" where
  "takes_over accepted t os =
     (case fd_move_assign (cs_socket (t_session t)) (cs_socket accepted) os of (fd, _, os) \<Rightarrow>
        (t\<lparr>t_session := accepted\<lparr>cs_socket := fd\<rparr>\<rparr>, os))"

definition clears_queue :: "tcp_server \<Rightarrow> tcp_server" where
  "clears_queue t = t\<lparr>t_queue := clear (t_queue t)\<rparr>"

definition counts_connect :: "tcp_server \<Rightarrow> tcp_server" where
  "counts_connect t =
     t\<lparr>t_stats := (t_stats t)\<lparr>st_client_connects := st_client_connects (t_stats t) + 1, st_client_connected := True\<rparr>\<rparr>"

text \<open>\<open>pump\<close> with the counters of \<open>serviceOutput\<close>; what \<open>serviceClientEvents\<close> decides: whether to end, and how.\<close>

definition pumps :: "(int \<times> errno) list \<Rightarrow> tcp_server \<Rightarrow> (pump_result \<times> tcp_server) option" where
  "pumps script t = map_option (\<lambda>r.
     let t = t\<lparr>t_queue := p_queue r, t_session := p_session r\<rparr>; progress = p_progress r
     in (r, if bytes_sent progress \<noteq> 0 \<or> frames_sent progress \<noteq> 0
            then t\<lparr>t_stats := (t_stats t)\<lparr>st_bytes_sent := st_bytes_sent (t_stats t) + bytes_sent progress,
                                        st_frames_sent := st_frames_sent (t_stats t) + frames_sent progress\<rparr>\<rparr>
            else t)) (pump script (t_queue t) (t_session t) no_progress [])"

definition decides_end :: "poll_event list \<Rightarrow> (int \<times> errno) list \<Rightarrow> tcp_server \<Rightarrow> bool option option" where
  "decides_end revents script t =
     (if POLLHUP \<in> set revents \<or> POLLERR \<in> set revents \<or> POLLNVAL \<in> set revents then Some (Some (POLLERR \<in> set revents))
      else if POLLIN \<notin> set revents then Some None
      else map_option (\<lambda>result. if result = Closed then Some False else if result = Failed then Some True else None)
        (drainInput script (t_session t)))"

definition pushes_frame :: "scan_frame \<Rightarrow> tcp_server \<Rightarrow> tcp_server \<times> nat" where
  "pushes_frame frame t = (case push frame (t_queue t) of (q, dropped) \<Rightarrow> (t\<lparr>t_queue := q\<rparr>, dropped))"

definition counts_dropped :: "nat \<Rightarrow> tcp_server \<Rightarrow> tcp_server" where
  "counts_dropped dropped t =
     (if dropped \<noteq> 0
      then t\<lparr>t_stats := (t_stats t)\<lparr>st_frames_dropped := st_frames_dropped (t_stats t) + word_of_nat dropped\<rparr>\<rparr>
      else t)"

definition stores_running :: "tcp_server \<Rightarrow> tcp_server" where
  "stores_running t = t\<lparr>t_running := False, t_worker := Returned\<rparr>"

text \<open>The two parts of \<open>drain\<close>.\<close>

definition reads_pipe :: "tcp_server \<Rightarrow> tcp_server" where
  "reads_pipe t = t\<lparr>t_wake := (t_wake t)\<lparr>in_pipe := drain_reads (in_pipe (t_wake t))\<rparr>\<rparr>"

definition stores_flag :: "tcp_server \<Rightarrow> tcp_server" where
  "stores_flag t = t\<lparr>t_wake := (t_wake t)\<lparr>pending := False\<rparr>\<rparr>"

text \<open>Undisturbed, the statements are the functions.\<close>

lemma endSession_statements:
  "endSession e t os = (if \<not> cs_valid (t_session t) then (t, os)
     else case closes_session t os of (t, os) \<Rightarrow> (counts_end e (stores_client False t), os))"
  by (auto simp: endSession_def closes_session_def stores_client_def counts_end_def Let_def split: prod.splits)

lemma acceptClient_statements:
  "acceptClient script t os = (case cs_accept script (t_config t) [] os of None \<Rightarrow> None
     | Some (accepted, opts, error, os) \<Rightarrow>
         if \<not> cs_valid accepted then Some (tcp_setError error t, os)
         else case endSession False (tcp_setError error t) os of (t, os) \<Rightarrow>
           (case takes_over accepted t os of (t, os) \<Rightarrow> Some (counts_connect (clears_queue (stores_client True t)), os)))"
  by (simp add: acceptClient_def takes_over_def counts_connect_def clears_queue_def stores_client_def endSession_def Let_def
      split: option.splits prod.splits)

lemma serviceOutput_statements:
  "serviceOutput script t os = map_option (\<lambda>(r, t). if p_result r = Failed
       then case endSession True (tcp_setError (p_error r) t) os of (t, os) \<Rightarrow> (t, os, p_wire r)
       else (t, os, p_wire r)) (pumps script t)"
  by (simp add: serviceOutput_def pumps_def Let_def split: option.splits prod.splits)

lemma serviceClientEvents_statements:
  "serviceClientEvents revents script t os =
     map_option (\<lambda>decision. case decision of None \<Rightarrow> (t, os) | Some e \<Rightarrow> endSession e t os) (decides_end revents script t)"
  by (simp add: serviceClientEvents_def decides_end_def split: option.splits)

lemma publish_push_statements:
  "publish_push frame t = (case pushes_frame frame t of (t, dropped) \<Rightarrow> counts_dropped dropped t)"
  by (simp add: publish_push_def pushes_frame_def counts_dropped_def Let_def split: prod.splits)

lemma tcp_run_exit_statements:
  "tcp_run_exit t os = (case endSession False t os of (t, os) \<Rightarrow> (stores_running (clears_queue t), os))"
  by (simp add: tcp_run_exit_def stores_running_def clears_queue_def split: prod.splits)

lemma wp_drain_statements: "t\<lparr>t_wake := wp_drain (t_wake t)\<rparr> = stores_flag (reads_pipe t)"
  by (simp add: wp_drain_def stores_flag_def reads_pipe_def)

section \<open>The machine\<close>

text \<open>
  Where the I/O thread is: the places of the loop in the order of the code, those inside \<open>endSession\<close> with
  what follows it, those inside \<open>acceptClient\<close>, and those after the loop. \<open>InPoll\<close> carries whether
  \<open>POLLOUT\<close> is among the requested events.
\<close>

datatype after_end = ToAccept bool | ToTakeOver client_session | ToTest | ToClear

datatype io_place =
  AtTest | InPoll bool | Draining bool "poll_event list" | StoringFlag bool "poll_event list" | AtEvents bool "poll_event list" | AtAccept bool | AtOutput
| ClearingFlag bool after_end | CountingEnd bool after_end
| TakingOver client_session | SettingFlag | Clearing | CountingConnect
| LastClear | LastStore | Gone

fun place_after :: "after_end \<Rightarrow> io_place" where
  "place_after (ToAccept listen_in) = AtAccept listen_in"
| "place_after (ToTakeOver accepted) = TakingOver accepted"
| "place_after ToTest = AtTest"
| "place_after ToClear = LastClear"

text \<open>
  Where a publisher is, with its frame and the number of connections accepted before its \<open>publish\<close> began;
  after the push, with the number of frames it evicted; then at the exchange of \<open>signal\<close>, its \<open>write\<close>, and
  the store after a failed one. The thread that calls \<open>stop\<close> is in the last three only.
\<close>

datatype publisher =
  Outside | Counted scan_frame nat | SawClient scan_frame nat | Committed scan_frame nat | Discarding
| Pushed nat | Signalling | WritingByte | TakingBack

inductive signal_access :: "nat \<Rightarrow> publisher \<times> wake_pipe \<Rightarrow> publisher \<times> wake_pipe \<Rightarrow> bool" for cap where
  no_pipe: "\<not> fd_valid (write_end w) \<Longrightarrow> signal_access cap (Signalling, w) (Outside, w)"
| was_pending: "fd_valid (write_end w) \<Longrightarrow> pending w \<Longrightarrow> signal_access cap (Signalling, w) (Outside, w)"
| exchanges_flag: "fd_valid (write_end w) \<Longrightarrow> \<not> pending w \<Longrightarrow> signal_access cap (Signalling, w) (WritingByte, w\<lparr>pending := True\<rparr>)"
| writes_byte: "in_pipe w < cap \<Longrightarrow> signal_access cap (WritingByte, w) (Outside, w\<lparr>in_pipe := in_pipe w + 1\<rparr>)"
| pipe_full: "\<not> in_pipe w < cap \<Longrightarrow> signal_access cap (WritingByte, w) (TakingBack, w)"
| takes_back: "signal_access cap (TakingBack, w) (Outside, w\<lparr>pending := False\<rparr>)"

lemma wp_signal_accesses: "(signal_access cap)\<^sup>*\<^sup>* (Signalling, w) (Outside, wp_signal cap w)"
proof -
  consider "\<not> fd_valid (write_end w) \<or> pending w" | "fd_valid (write_end w)" "\<not> pending w" "in_pipe w < cap"
    | "fd_valid (write_end w)" "\<not> pending w" "\<not> in_pipe w < cap" by blast
  then show ?thesis
  proof cases
    case 1
    then have "signal_access cap (Signalling, w) (Outside, wp_signal cap w)"
      using no_pipe was_pending by (cases "fd_valid (write_end w)") (auto simp: wp_signal_def)
    then show ?thesis by blast
  next
    case 2
    let ?w = "w\<lparr>pending := True\<rparr>"
    have "signal_access cap (Signalling, w) (WritingByte, ?w)" "signal_access cap (WritingByte, ?w) (Outside, wp_signal cap w)"
      using 2 exchanges_flag writes_byte [of ?w cap] by (simp_all add: wp_signal_def)
    then show ?thesis by (meson converse_rtranclp_into_rtranclp rtranclp.rtrancl_refl)
  next
    case 3
    let ?w = "w\<lparr>pending := True\<rparr>"
    have "signal_access cap (Signalling, w) (WritingByte, ?w)" "signal_access cap (WritingByte, ?w) (TakingBack, ?w)"
      "signal_access cap (TakingBack, ?w) (Outside, wp_signal cap w)"
      using 3 exchanges_flag pipe_full [of ?w cap] takes_back [of cap ?w] by (simp_all add: wp_signal_def)
    then show ?thesis by (meson converse_rtranclp_into_rtranclp rtranclp.rtrancl_refl)
  qed
qed

text \<open>
  The server, the table, the places, and a ledger: the connections accepted so far; for every frame in
  the queue, and for every frame taken from it for the present viewer, the number of connections accepted
  before its \<open>publish\<close> began; and how many frames have been taken for sending, and cleared.
\<close>

record handover =
  h_server :: tcp_server
  h_os :: os
  h_io :: io_place
  h_publisher :: "nat \<Rightarrow> publisher"
  h_stop :: publisher
  h_accepted :: nat
  h_queued :: "nat list"
  h_taken :: "nat list"
  h_sent :: nat
  h_cleared :: nat

definition asks_output :: "tcp_server \<Rightarrow> bool" where
  "asks_output t \<longleftrightarrow> cs_valid (t_session t) \<and> POLLOUT \<in> set (pollEvents (t_session t) (\<not> queue_empty (t_queue t)))"

definition ends_session :: "bool \<Rightarrow> after_end \<Rightarrow> handover \<Rightarrow> handover" where
  "ends_session e next h =
     (if \<not> cs_valid (t_session (h_server h)) then h\<lparr>h_io := place_after next\<rparr>
      else case closes_session (h_server h) (h_os h) of (t, os) \<Rightarrow>
        h\<lparr>h_server := t, h_os := os, h_io := ClearingFlag e next\<rparr>)"

definition clears :: "handover \<Rightarrow> handover" where
  "clears h = h\<lparr>h_server := clears_queue (h_server h), h_queued := [],
     h_cleared := h_cleared h + length (fq_queue (t_queue (h_server h)))\<rparr>"

definition goes_on :: "io_place \<Rightarrow> tcp_server \<Rightarrow> handover \<Rightarrow> handover" where
  "goes_on p t h = h\<lparr>h_server := t, h_io := p\<rparr>"

text \<open>What \<open>pump\<close> took from the queue.\<close>

definition takes :: "tcp_server \<Rightarrow> handover \<Rightarrow> handover" where
  "takes t h = (let n = length (fq_queue (t_queue (h_server h))) - length (fq_queue (t_queue t)) in
     h\<lparr>h_server := t, h_taken := h_taken h @ take n (h_queued h), h_queued := drop n (h_queued h), h_sent := h_sent h + n\<rparr>)"

definition publisher_moves :: "nat \<Rightarrow> publisher \<Rightarrow> tcp_server \<Rightarrow> handover \<Rightarrow> handover" where
  "publisher_moves i p t h = h\<lparr>h_server := t, h_publisher := (h_publisher h)(i := p)\<rparr>"

definition pushes :: "nat \<Rightarrow> scan_frame \<Rightarrow> nat \<Rightarrow> handover \<Rightarrow> handover" where
  "pushes i frame born h = (case pushes_frame frame (h_server h) of (t, dropped) \<Rightarrow>
     (publisher_moves i (Pushed dropped) t h)\<lparr>h_queued := drop dropped (h_queued h) @ [born]\<rparr>)"

text \<open>The I/O thread.\<close>

inductive io_access :: "handover \<Rightarrow> handover \<Rightarrow> bool" where
  leaves_loop: "h_io h = AtTest \<Longrightarrow> t_stop_requested (h_server h) \<Longrightarrow> io_access h (ends_session False ToClear h)"
| enters_poll: "h_io h = AtTest \<Longrightarrow> \<not> t_stop_requested (h_server h) \<Longrightarrow>
    io_access h (h\<lparr>h_io := InPoll (asks_output (h_server h))\<rparr>)"
| poll_interrupted: "h_io h = InPoll out \<Longrightarrow> io_access h (h\<lparr>h_io := AtTest\<rparr>)"
| poll_fails: "h_io h = InPoll out \<Longrightarrow>
    io_access h (ends_session False ToClear (h\<lparr>h_server := tcp_setError (net_describeErrno ''poll()'' e) (h_server h)\<rparr>))"
| poll_returns: "h_io h = InPoll out \<Longrightarrow>
    io_access h (h\<lparr>h_io := if wake_in then Draining listen_in revents else AtEvents listen_in revents\<rparr>)"
| drains_pipe: "h_io h = Draining listen_in revents \<Longrightarrow>
    io_access h (goes_on (StoringFlag listen_in revents) (reads_pipe (h_server h)) h)"
| drains_flag: "h_io h = StoringFlag listen_in revents \<Longrightarrow>
    io_access h (goes_on (AtEvents listen_in revents) (stores_flag (h_server h)) h)"
| no_events: "h_io h = AtEvents listen_in revents \<Longrightarrow>
    \<not> cs_valid (t_session (h_server h)) \<or> decides_end revents script (h_server h) = Some None \<Longrightarrow>
    io_access h (h\<lparr>h_io := AtAccept listen_in\<rparr>)"
| end_events: "h_io h = AtEvents listen_in revents \<Longrightarrow> cs_valid (t_session (h_server h)) \<Longrightarrow>
    decides_end revents script (h_server h) = Some (Some e) \<Longrightarrow> io_access h (ends_session e (ToAccept listen_in) h)"
| no_connection: "h_io h = AtAccept False \<Longrightarrow> io_access h (h\<lparr>h_io := AtOutput\<rparr>)"
| accept_fails: "h_io h = AtAccept True \<Longrightarrow>
    cs_accept script (t_config (h_server h)) [] (h_os h) = Some (accepted, opts, error, os) \<Longrightarrow> \<not> cs_valid accepted \<Longrightarrow>
    io_access h (goes_on AtOutput (tcp_setError error (h_server h)) (h\<lparr>h_os := os\<rparr>))"
| accepts_viewer: "h_io h = AtAccept True \<Longrightarrow>
    cs_accept script (t_config (h_server h)) [] (h_os h) = Some (accepted, opts, error, os) \<Longrightarrow> cs_valid accepted \<Longrightarrow>
    io_access h (ends_session False (ToTakeOver accepted)
      (h\<lparr>h_server := tcp_setError error (h_server h), h_os := os, h_accepted := h_accepted h + 1\<rparr>))"
| takes_session: "h_io h = TakingOver accepted \<Longrightarrow> takes_over accepted (h_server h) (h_os h) = (t, os) \<Longrightarrow>
    io_access h (goes_on SettingFlag t (h\<lparr>h_os := os\<rparr>))"
| sets_client: "h_io h = SettingFlag \<Longrightarrow> io_access h (goes_on Clearing (stores_client True (h_server h)) h)"
| clears_backlog: "h_io h = Clearing \<Longrightarrow> io_access h ((clears h)\<lparr>h_io := CountingConnect, h_taken := []\<rparr>)"
| counts_viewer: "h_io h = CountingConnect \<Longrightarrow> io_access h (goes_on AtOutput (counts_connect (h_server h)) h)"
| outputs_viewer: "h_io h = AtOutput \<Longrightarrow> cs_valid (t_session (h_server h)) \<Longrightarrow> pumps script (h_server h) = Some (r, t) \<Longrightarrow>
    p_result r \<noteq> Failed \<Longrightarrow> io_access h ((takes t h)\<lparr>h_io := AtTest\<rparr>)"
| output_fails: "h_io h = AtOutput \<Longrightarrow> cs_valid (t_session (h_server h)) \<Longrightarrow> pumps script (h_server h) = Some (r, t) \<Longrightarrow>
    p_result r = Failed \<Longrightarrow> io_access h (ends_session True ToTest ((takes t h)\<lparr>h_server := tcp_setError (p_error r) t\<rparr>))"
| no_viewer: "h_io h = AtOutput \<Longrightarrow> \<not> cs_valid (t_session (h_server h)) \<Longrightarrow> io_access h ((clears h)\<lparr>h_io := AtTest\<rparr>)"
| resets_client: "h_io h = ClearingFlag e next \<Longrightarrow>
    io_access h (goes_on (CountingEnd e next) (stores_client False (h_server h)) h)"
| counts_viewer_end: "h_io h = CountingEnd e next \<Longrightarrow>
    io_access h (goes_on (place_after next) (counts_end e (h_server h)) h)"
| clears_last: "h_io h = LastClear \<Longrightarrow> io_access h ((clears h)\<lparr>h_io := LastStore\<rparr>)"
| stores_last: "h_io h = LastStore \<Longrightarrow> io_access h (goes_on Gone (stores_running (h_server h)) h)"

text \<open>The publishers, of which there are \<open>n\<close>.\<close>

inductive publisher_access :: "nat \<Rightarrow> nat \<Rightarrow> handover \<Rightarrow> handover \<Rightarrow> bool" for cap n where
  publish_begins: "i < n \<Longrightarrow> h_publisher h i = Outside \<Longrightarrow>
    publisher_access cap n h (publisher_moves i (Counted frame (h_accepted h)) (publish_count (h_server h)) h)"
| loads_client: "i < n \<Longrightarrow> h_publisher h i = Counted frame born \<Longrightarrow> publisher_access cap n h (publisher_moves i
    (if t_client_connected (h_server h) then SawClient frame born else Discarding) (h_server h) h)"
| loads_running: "i < n \<Longrightarrow> h_publisher h i = SawClient frame born \<Longrightarrow> publisher_access cap n h (publisher_moves i
    (if t_running (h_server h) then Committed frame born else Discarding) (h_server h) h)"
| discards_frame: "i < n \<Longrightarrow> h_publisher h i = Discarding \<Longrightarrow>
    publisher_access cap n h (publisher_moves i Outside (publish_discard (h_server h)) h)"
| pushes_queue: "i < n \<Longrightarrow> h_publisher h i = Committed frame born \<Longrightarrow> publisher_access cap n h (pushes i frame born h)"
| counts_evicted: "i < n \<Longrightarrow> h_publisher h i = Pushed dropped \<Longrightarrow>
    publisher_access cap n h (publisher_moves i Signalling (counts_dropped dropped (h_server h)) h)"
| signals_io: "i < n \<Longrightarrow> signal_access cap (h_publisher h i, t_wake (h_server h)) (p, w) \<Longrightarrow>
    publisher_access cap n h (publisher_moves i p ((h_server h)\<lparr>t_wake := w\<rparr>) h)"

inductive handover_step :: "nat \<Rightarrow> nat \<Rightarrow> handover \<Rightarrow> handover \<Rightarrow> bool" for cap n where
  stop_requested: "h_stop h = Outside \<Longrightarrow>
    handover_step cap n h (h\<lparr>h_server := (h_server h)\<lparr>t_stop_requested := True\<rparr>, h_stop := Signalling\<rparr>)"
| stop_signals: "signal_access cap (h_stop h, t_wake (h_server h)) (p, w) \<Longrightarrow>
    handover_step cap n h (h\<lparr>h_server := (h_server h)\<lparr>t_wake := w\<rparr>, h_stop := p\<rparr>)"
| io_accesses: "io_access h h' \<Longrightarrow> handover_step cap n h h'"
| publisher_accesses: "publisher_access cap n h h' \<Longrightarrow> handover_step cap n h h'"

text \<open>The machine starts where \<open>start\<close> has returned \<^const>\<open>True\<close> on a new server.\<close>

definition handover_start :: "handover \<Rightarrow> bool" where
  "handover_start h \<longleftrightarrow> (\<exists>base config os0 k. tcp_new base (TcpServer config, os0) \<and> fresh_start k (TcpServer config) os0 \<and>
     tcp_start k (TcpServer config) os0 = Some (True, h_server h, h_os h)) \<and> h_io h = AtTest \<and>
     h_publisher h = (\<lambda>i. Outside) \<and> h_stop h = Outside \<and> h_accepted h = 0 \<and> h_queued h = [] \<and> h_taken h = [] \<and> h_sent h = 0 \<and> h_cleared h = 0"

section \<open>What each statement touches\<close>

lemma statement_fields [simp]:
  "t_queue (stores_client b t) = t_queue t" "t_session (stores_client b t) = t_session t" "t_running (stores_client b t) = t_running t"
  "t_wake (stores_client b t) = t_wake t" "t_stats (stores_client b t) = t_stats t" "t_client_connected (stores_client b t) = b"
  "t_queue (counts_end e t) = t_queue t" "t_session (counts_end e t) = t_session t" "t_running (counts_end e t) = t_running t"
  "t_wake (counts_end e t) = t_wake t" "t_client_connected (counts_end e t) = t_client_connected t"
  "st_frames_published (t_stats (counts_end e t)) = st_frames_published (t_stats t)"
  "st_frames_dropped (t_stats (counts_end e t)) = st_frames_dropped (t_stats t)"
  "t_queue (counts_connect t) = t_queue t" "t_session (counts_connect t) = t_session t" "t_running (counts_connect t) = t_running t"
  "t_wake (counts_connect t) = t_wake t" "t_client_connected (counts_connect t) = t_client_connected t"
  "st_frames_published (t_stats (counts_connect t)) = st_frames_published (t_stats t)"
  "st_frames_dropped (t_stats (counts_connect t)) = st_frames_dropped (t_stats t)"
  "t_session (clears_queue t) = t_session t" "t_running (clears_queue t) = t_running t" "t_wake (clears_queue t) = t_wake t"
  "t_stats (clears_queue t) = t_stats t" "t_client_connected (clears_queue t) = t_client_connected t"
  "fq_queue (t_queue (clears_queue t)) = []" "fq_capacity (t_queue (clears_queue t)) = fq_capacity (t_queue t)"
  "t_queue (stores_running t) = t_queue t" "t_session (stores_running t) = t_session t" "t_running (stores_running t) \<longleftrightarrow> False"
  "t_wake (stores_running t) = t_wake t" "t_stats (stores_running t) = t_stats t"
  "t_client_connected (stores_running t) = t_client_connected t"
  "t_queue (counts_dropped d t) = t_queue t" "t_session (counts_dropped d t) = t_session t" "t_running (counts_dropped d t) = t_running t"
  "t_wake (counts_dropped d t) = t_wake t" "t_client_connected (counts_dropped d t) = t_client_connected t"
  "st_frames_published (t_stats (counts_dropped d t)) = st_frames_published (t_stats t)"
  "st_frames_dropped (t_stats (counts_dropped d t)) = st_frames_dropped (t_stats t) + word_of_nat d"
  using clear_queue [of "t_queue t"]
  by (simp_all add: stores_client_def counts_end_def counts_connect_def clears_queue_def stores_running_def counts_dropped_def Let_def)

lemma publish_fields_of [simp]:
  "t_queue (publish_count t) = t_queue t" "t_session (publish_count t) = t_session t" "t_running (publish_count t) = t_running t"
  "t_wake (publish_count t) = t_wake t" "t_client_connected (publish_count t) = t_client_connected t"
  "st_frames_published (t_stats (publish_count t)) = st_frames_published (t_stats t) + 1"
  "st_frames_dropped (t_stats (publish_count t)) = st_frames_dropped (t_stats t)"
  "t_queue (publish_discard t) = t_queue t" "t_session (publish_discard t) = t_session t" "t_running (publish_discard t) = t_running t"
  "t_wake (publish_discard t) = t_wake t" "t_client_connected (publish_discard t) = t_client_connected t"
  "st_frames_published (t_stats (publish_discard t)) = st_frames_published (t_stats t)"
  "st_frames_dropped (t_stats (publish_discard t)) = st_frames_dropped (t_stats t) + 1"
  "t_queue (reads_pipe t) = t_queue t" "t_session (reads_pipe t) = t_session t" "t_running (reads_pipe t) = t_running t"
  "t_stats (reads_pipe t) = t_stats t" "t_client_connected (reads_pipe t) = t_client_connected t"
  "write_end (t_wake (reads_pipe t)) = write_end (t_wake t)"
  "t_queue (stores_flag t) = t_queue t" "t_session (stores_flag t) = t_session t" "t_running (stores_flag t) = t_running t"
  "t_stats (stores_flag t) = t_stats t" "t_client_connected (stores_flag t) = t_client_connected t"
  "write_end (t_wake (stores_flag t)) = write_end (t_wake t)" "pending (t_wake (stores_flag t)) \<longleftrightarrow> False"
  "t_queue (tcp_setError m t) = t_queue t" "t_session (tcp_setError m t) = t_session t" "t_running (tcp_setError m t) = t_running t"
  "t_stats (tcp_setError m t) = t_stats t" "t_client_connected (tcp_setError m t) = t_client_connected t"
  "t_wake (tcp_setError m t) = t_wake t"
  by (simp_all add: publish_count_def publish_discard_def reads_pipe_def stores_flag_def tcp_setError_def)

lemma closes_session_effect:
  assumes "closes_session t os = (t', os')"
  shows "\<not> cs_valid (t_session t')" "t' = t\<lparr>t_session := t_session t'\<rparr>"
  using assms by (auto simp: closes_session_def cs_close_def cs_valid_def fd_defs split: prod.splits if_splits)

lemma takes_over_effect:
  assumes "takes_over s t os = (t', os')"
  shows "t' = t\<lparr>t_session := s\<rparr>"
  using assms by (auto simp: takes_over_def fd_defs split: prod.splits if_splits)

lemma pushes_frame_effect:
  assumes "pushes_frame f t = (t', d)" "1 \<le> fq_capacity (t_queue t)"
  shows "t' = t\<lparr>t_queue := t_queue t'\<rparr>" "fq_queue (t_queue t') = drop d (fq_queue (t_queue t)) @ [f]"
    "d \<le> length (fq_queue (t_queue t))" "fq_capacity (t_queue t') = fq_capacity (t_queue t)"
  using assms push_queue [OF assms(2), of f] by (auto simp: pushes_frame_def split: prod.splits)

lemma pumps_effect:
  assumes "pumps script t = Some (r, t')" "cs_valid (t_session t)"
  shows "cs_valid (t_session t')" "t_running t' = t_running t" "t_client_connected t' = t_client_connected t" "t_wake t' = t_wake t"
    "st_frames_published (t_stats t') = st_frames_published (t_stats t)" "st_frames_dropped (t_stats t') = st_frames_dropped (t_stats t)"
    "fq_capacity (t_queue t') = fq_capacity (t_queue t)"
    "\<exists>fs. fq_queue (t_queue t) = fs @ fq_queue (t_queue t')"
proof -
  have p: "pump script (t_queue t) (t_session t) no_progress [] = Some r" "t_queue t' = p_queue r" "t_session t' = p_session r"
    using assms(1) by (auto simp: pumps_def Let_def split: if_splits)
  show "t_running t' = t_running t" "t_client_connected t' = t_client_connected t" "t_wake t' = t_wake t"
    "st_frames_published (t_stats t') = st_frames_published (t_stats t)" "st_frames_dropped (t_stats t') = st_frames_dropped (t_stats t)"
    using assms(1) by (auto simp: pumps_def Let_def split: if_splits)
  from pump_pumped [OF p(1) assms(2)] show "cs_valid (t_session t')" "fq_capacity (t_queue t') = fq_capacity (t_queue t)"
    "\<exists>fs. fq_queue (t_queue t) = fs @ fq_queue (t_queue t')"
    using assms(2) p(2,3) by (auto simp: pumped_def cs_valid_def)
qed

lemma ends_session_effect:
  "h_queued (ends_session e nxt h) = h_queued h" "h_taken (ends_session e nxt h) = h_taken h" "h_accepted (ends_session e nxt h) = h_accepted h"
  "h_sent (ends_session e nxt h) = h_sent h" "h_cleared (ends_session e nxt h) = h_cleared h" "h_publisher (ends_session e nxt h) = h_publisher h"
  "h_stop (ends_session e nxt h) = h_stop h"
  "t_queue (h_server (ends_session e nxt h)) = t_queue (h_server h)" "t_running (h_server (ends_session e nxt h)) = t_running (h_server h)"
  "t_client_connected (h_server (ends_session e nxt h)) = t_client_connected (h_server h)"
  "t_wake (h_server (ends_session e nxt h)) = t_wake (h_server h)" "t_stats (h_server (ends_session e nxt h)) = t_stats (h_server h)"
  "\<not> cs_valid (t_session (h_server (ends_session e nxt h)))"
  "h_io (ends_session e nxt h) = (if cs_valid (t_session (h_server h)) then ClearingFlag e nxt else place_after nxt)"
proof -
  obtain t os where c: "closes_session (h_server h) (h_os h) = (t, os)" by fastforce
  note e = closes_session_effect [OF c]
  have same: "t_queue t = t_queue (h_server h)" "t_running t = t_running (h_server h)" "t_client_connected t = t_client_connected (h_server h)"
    "t_wake t = t_wake (h_server h)" "t_stats t = t_stats (h_server h)"
    by (subst e(2), simp)+
  show "h_queued (ends_session e nxt h) = h_queued h" "h_taken (ends_session e nxt h) = h_taken h" "h_accepted (ends_session e nxt h) = h_accepted h"
    "h_sent (ends_session e nxt h) = h_sent h" "h_cleared (ends_session e nxt h) = h_cleared h" "h_publisher (ends_session e nxt h) = h_publisher h"
    "h_stop (ends_session e nxt h) = h_stop h"
    "t_queue (h_server (ends_session e nxt h)) = t_queue (h_server h)" "t_running (h_server (ends_session e nxt h)) = t_running (h_server h)"
    "t_client_connected (h_server (ends_session e nxt h)) = t_client_connected (h_server h)"
    "t_wake (h_server (ends_session e nxt h)) = t_wake (h_server h)" "t_stats (h_server (ends_session e nxt h)) = t_stats (h_server h)"
    "\<not> cs_valid (t_session (h_server (ends_session e nxt h)))"
    "h_io (ends_session e nxt h) = (if cs_valid (t_session (h_server h)) then ClearingFlag e nxt else place_after nxt)"
    using c same e(1) by (simp_all add: ends_session_def)
qed

section \<open>Invariants\<close>

subsection \<open>What publishers do\<close>

lemma signal_access_cases:
  assumes "signal_access cap (p, w) (p', w')"
  shows "p \<in> {Signalling, WritingByte, TakingBack}" "p' \<in> {Outside, WritingByte, TakingBack}" "write_end w' = write_end w"
    "in_pipe w \<le> in_pipe w'" "p' = WritingByte \<Longrightarrow> p = Signalling" "pending w' \<Longrightarrow> pending w \<or> p' = WritingByte"
    "fd_valid (write_end w) \<Longrightarrow> 0 < cap \<Longrightarrow> p = WritingByte \<Longrightarrow> 0 < in_pipe w'"
    "fd_valid (write_end w) \<Longrightarrow> p = Signalling \<Longrightarrow> p' = WritingByte \<or> pending w"
  using assms by (cases; simp)+

text \<open>A publisher that will yet signal; one whose \<open>publish\<close> began before the \<open>k\<close>-th connection and that has not pushed.\<close>

fun signals_soon :: "publisher \<Rightarrow> bool" where
  "signals_soon (Pushed d) = True"
| "signals_soon Signalling = True"
| "signals_soon WritingByte = True"
| "signals_soon _ = False"

fun older :: "nat \<Rightarrow> publisher \<Rightarrow> nat" where
  "older k (Counted f born) = of_bool (born < k)"
| "older k (SawClient f born) = of_bool (born < k)"
| "older k (Committed f born) = of_bool (born < k)"
| "older k _ = 0"

definition ledger_ok :: "handover \<Rightarrow> bool" where
  "ledger_ok h \<longleftrightarrow> length (h_queued h) = length (fq_queue (t_queue (h_server h))) \<and> 1 \<le> fq_capacity (t_queue (h_server h))"

lemma pushes_effect:
  assumes "ledger_ok h"
  shows "h_io (pushes i f b h) = h_io h" "t_session (h_server (pushes i f b h)) = t_session (h_server h)"
    "t_client_connected (h_server (pushes i f b h)) = t_client_connected (h_server h)"
    "t_running (h_server (pushes i f b h)) = t_running (h_server h)" "t_wake (h_server (pushes i f b h)) = t_wake (h_server h)"
    "t_stats (h_server (pushes i f b h)) = t_stats (h_server h)" "ledger_ok (pushes i f b h)"
    "h_accepted (pushes i f b h) = h_accepted h" "h_taken (pushes i f b h) = h_taken h" "h_sent (pushes i f b h) = h_sent h"
    "h_cleared (pushes i f b h) = h_cleared h"
    "\<exists>d \<le> length (h_queued h). h_publisher (pushes i f b h) = (h_publisher h)(i := Pushed d) \<and>
       h_queued (pushes i f b h) = drop d (h_queued h) @ [b]"
    "h_stop (pushes i f b h) = h_stop h"
proof -
  obtain t d where p: "pushes_frame f (h_server h) = (t, d)" by fastforce
  have "1 \<le> fq_capacity (t_queue (h_server h))" using assms by (simp add: ledger_ok_def)
  note e = pushes_frame_effect [OF p this]
  have same: "t_session t = t_session (h_server h)" "t_running t = t_running (h_server h)" "t_client_connected t = t_client_connected (h_server h)"
    "t_wake t = t_wake (h_server h)" "t_stats t = t_stats (h_server h)"
    by (subst e(1), simp)+
  show "h_io (pushes i f b h) = h_io h" "t_session (h_server (pushes i f b h)) = t_session (h_server h)"
    "t_client_connected (h_server (pushes i f b h)) = t_client_connected (h_server h)"
    "t_running (h_server (pushes i f b h)) = t_running (h_server h)" "t_wake (h_server (pushes i f b h)) = t_wake (h_server h)"
    "t_stats (h_server (pushes i f b h)) = t_stats (h_server h)" "ledger_ok (pushes i f b h)"
    "h_accepted (pushes i f b h) = h_accepted h" "h_taken (pushes i f b h) = h_taken h" "h_sent (pushes i f b h) = h_sent h"
    "h_cleared (pushes i f b h) = h_cleared h"
    "\<exists>d \<le> length (h_queued h). h_publisher (pushes i f b h) = (h_publisher h)(i := Pushed d) \<and>
       h_queued (pushes i f b h) = drop d (h_queued h) @ [b]"
    "h_stop (pushes i f b h) = h_stop h"
    using p same e(2-4) assms by (auto simp: pushes_def publisher_moves_def ledger_ok_def)
qed

text \<open>
  The steps of a publisher: those that leave the queue and the pipe alone and neither forget a signal nor
  make the publisher older; the push; and the signal.
\<close>

lemma publisher_cases:
  assumes "publisher_access cap n h h'"
  obtains (quiet) i p t where "i < n" "h' = publisher_moves i p t h" "t_queue t = t_queue (h_server h)"
      "t_session t = t_session (h_server h)" "t_client_connected t = t_client_connected (h_server h)"
      "t_running t = t_running (h_server h)" "t_wake t = t_wake (h_server h)"
      "\<not> signals_soon (h_publisher h i) \<or> signals_soon p" "h_publisher h i \<noteq> WritingByte" "older (h_accepted h) p \<le> older (h_accepted h) (h_publisher h i)"
  | (push) i f born where "i < n" "h_publisher h i = Committed f born" "h' = pushes i f born h"
  | (signal) i p w where "i < n" "signal_access cap (h_publisher h i, t_wake (h_server h)) (p, w)"
      "h' = publisher_moves i p ((h_server h)\<lparr>t_wake := w\<rparr>) h"
  using assms
proof cases
  case (publish_begins i frame)
  then show ?thesis by (intro quiet [OF publish_begins(2,1)]) simp_all
next
  case (loads_client i frame born)
  then show ?thesis by (intro quiet [OF loads_client(2,1)]) simp_all
next
  case (loads_running i frame born)
  then show ?thesis by (intro quiet [OF loads_running(2,1)]) simp_all
next
  case (discards_frame i)
  then show ?thesis by (intro quiet [OF discards_frame(2,1)]) simp_all
next
  case (counts_evicted i d)
  then show ?thesis by (intro quiet [OF counts_evicted(2,1)]) simp_all
qed (rule push signal; assumption)+

subsection \<open>The mirror of the session, the wake pipe\<close>

text \<open>\<open>client_connected\<close> differs from the validity of the session only inside the two functions.\<close>

fun next_ok :: "after_end \<Rightarrow> bool" where
  "next_ok (ToTakeOver accepted) \<longleftrightarrow> cs_valid accepted"
| "next_ok _ \<longleftrightarrow> True"

fun place_ok :: "io_place \<Rightarrow> tcp_server \<Rightarrow> bool" where
  "place_ok (ClearingFlag e next) t \<longleftrightarrow> \<not> cs_valid (t_session t) \<and> t_client_connected t \<and> next_ok next"
| "place_ok (CountingEnd e next) t \<longleftrightarrow> \<not> cs_valid (t_session t) \<and> \<not> t_client_connected t \<and> next_ok next"
| "place_ok (TakingOver accepted) t \<longleftrightarrow> \<not> cs_valid (t_session t) \<and> \<not> t_client_connected t \<and> cs_valid accepted"
| "place_ok SettingFlag t \<longleftrightarrow> cs_valid (t_session t) \<and> \<not> t_client_connected t"
| "place_ok Clearing t \<longleftrightarrow> cs_valid (t_session t) \<and> t_client_connected t"
| "place_ok CountingConnect t \<longleftrightarrow> cs_valid (t_session t) \<and> t_client_connected t"
| "place_ok LastClear t \<longleftrightarrow> \<not> cs_valid (t_session t) \<and> \<not> t_client_connected t"
| "place_ok LastStore t \<longleftrightarrow> \<not> cs_valid (t_session t) \<and> \<not> t_client_connected t"
| "place_ok Gone t \<longleftrightarrow> \<not> cs_valid (t_session t) \<and> \<not> t_client_connected t"
| "place_ok _ t \<longleftrightarrow> (t_client_connected t \<longleftrightarrow> cs_valid (t_session t))"

definition machine_ok :: "handover \<Rightarrow> bool" where
  "machine_ok h \<longleftrightarrow> place_ok (h_io h) (h_server h) \<and> (t_running (h_server h) \<longleftrightarrow> h_io h \<noteq> Gone) \<and>
     fd_valid (write_end (t_wake (h_server h)))"

lemma place_after_ok: "next_ok nxt \<Longrightarrow> \<not> cs_valid (t_session t) \<Longrightarrow> \<not> t_client_connected t \<Longrightarrow>
    place_ok (place_after nxt) t \<and> place_after nxt \<noteq> Gone"
  by (cases nxt) simp_all

lemma place_ok_cong:
  "t_session t' = t_session t \<Longrightarrow> t_client_connected t' = t_client_connected t \<Longrightarrow> place_ok p t' = place_ok p t"
  by (cases p) simp_all

lemma ended_ok:
  assumes "machine_ok h" "t_client_connected (h_server h) \<longleftrightarrow> cs_valid (t_session (h_server h))" "next_ok nxt" "h_io h \<noteq> Gone"
  shows "machine_ok (ends_session e nxt h)"
  using assms place_after_ok [OF assms(3), of "h_server (ends_session e nxt h)"]
  by (auto simp: machine_ok_def ends_session_effect)

text \<open>Steps that change neither the place nor what the invariant speaks of.\<close>

lemma machine_ok_cong:
  assumes "machine_ok h" "h_io h' = h_io h" "t_session (h_server h') = t_session (h_server h)"
    "t_client_connected (h_server h') = t_client_connected (h_server h)" "t_running (h_server h') = t_running (h_server h)"
    "write_end (t_wake (h_server h')) = write_end (t_wake (h_server h))"
  shows "machine_ok h'"
  using assms place_ok_cong [OF assms(3,4)] by (simp add: machine_ok_def)

lemma machine_io:
  assumes "io_access h h'" "machine_ok h"
  shows "machine_ok h'"
  using assms(1)
proof cases
  case (takes_session accepted t os)
  then show ?thesis using assms(2) takes_over_effect [OF takes_session(3)] by (auto simp: machine_ok_def goes_on_def)
next
  case (outputs_viewer script r t)
  then show ?thesis using assms(2) pumps_effect [OF outputs_viewer(4,3)] by (auto simp: machine_ok_def takes_def Let_def)
next
  case (output_fails script r t)
  show ?thesis unfolding output_fails(1)
    by (rule ended_ok) (use output_fails assms(2) pumps_effect [OF output_fails(4,3)] in \<open>auto simp: machine_ok_def takes_def Let_def\<close>)
next
  case (counts_viewer_end e nxt)
  then show ?thesis using assms(2) place_after_ok [of nxt "counts_end e (h_server h)"] by (auto simp: machine_ok_def goes_on_def)
next
  case (poll_returns out listen_in revents wake_in)
  then show ?thesis using assms(2) by (cases wake_in) (auto simp: machine_ok_def)
next
  case (poll_fails out e)
  show ?thesis unfolding poll_fails(1) by (rule ended_ok) (use poll_fails assms(2) in \<open>auto simp: machine_ok_def\<close>)
next
  case (accepts_viewer script accepted opts error os)
  show ?thesis unfolding accepts_viewer(1) by (rule ended_ok) (use accepts_viewer assms(2) in \<open>auto simp: machine_ok_def\<close>)
next
  case leaves_loop
  show ?thesis unfolding leaves_loop(1) by (rule ended_ok) (use leaves_loop assms(2) in \<open>auto simp: machine_ok_def\<close>)
next
  case (end_events listen_in revents script e)
  show ?thesis unfolding end_events(1) by (rule ended_ok) (use end_events assms(2) in \<open>auto simp: machine_ok_def\<close>)
qed (use assms(2) in \<open>auto simp: machine_ok_def goes_on_def clears_def\<close>)

lemma machine_publisher:
  assumes "publisher_access cap n h h'" "ledger_ok h" "machine_ok h"
  shows "machine_ok h'"
  using assms(1)
proof (cases rule: publisher_cases)
  case (quiet i p t)
  show ?thesis by (rule machine_ok_cong [OF assms(3)]) (use quiet(2-7) assms(3) in \<open>simp_all add: publisher_moves_def machine_ok_def\<close>)
next
  case (push i f born)
  show ?thesis by (rule machine_ok_cong [OF assms(3)]) (use assms(3) pushes_effect [OF assms(2)] in \<open>simp_all add: push machine_ok_def\<close>)
next
  case (signal i p w)
  show ?thesis by (rule machine_ok_cong [OF assms(3)])
      (use assms(3) signal_access_cases(3) [OF signal(2)] in \<open>simp_all add: signal(3) publisher_moves_def machine_ok_def\<close>)
qed

lemma ledger_io:
  assumes "io_access h h'" "ledger_ok h"
  shows "ledger_ok h'"
  using assms(1)
proof cases
  case (takes_session accepted t os)
  then show ?thesis using assms(2) takes_over_effect [OF takes_session(3)] by (auto simp: ledger_ok_def goes_on_def)
next
  case (outputs_viewer script r t)
  then show ?thesis using assms(2) pumps_effect(7,8) [OF outputs_viewer(4,3)] by (auto simp: ledger_ok_def takes_def Let_def)
next
  case (output_fails script r t)
  then show ?thesis using assms(2) pumps_effect(7,8) [OF output_fails(4,3)]
    by (auto simp: ledger_ok_def takes_def ends_session_effect Let_def)
qed (use assms(2) in \<open>auto simp: ledger_ok_def goes_on_def clears_def ends_session_effect\<close>)

lemma ledger_publisher:
  assumes "publisher_access cap n h h'" "ledger_ok h"
  shows "ledger_ok h'"
  using assms(1)
proof (cases rule: publisher_cases)
  case (push i f born)
  then show ?thesis using pushes_effect(7) [OF assms(2)] by simp
qed (use assms(2) in \<open>simp_all add: ledger_ok_def publisher_moves_def\<close>)

subsection \<open>No frame waits without a wakeup\<close>

text \<open>Somebody is at the \<open>write\<close>; somebody will yet be.\<close>

definition writer :: "nat \<Rightarrow> handover \<Rightarrow> bool" where
  "writer n h \<longleftrightarrow> h_stop h = WritingByte \<or> (\<exists>i < n. h_publisher h i = WritingByte)"

definition signal_coming :: "nat \<Rightarrow> handover \<Rightarrow> bool" where
  "signal_coming n h \<longleftrightarrow> h_stop h = WritingByte \<or> (\<exists>i < n. signals_soon (h_publisher h i))"

text \<open>Except between the reads and the store of \<open>drain\<close>, a raised flag stands for a byte, or for one to come.\<close>

definition flag_ok :: "nat \<Rightarrow> handover \<Rightarrow> bool" where
  "flag_ok n h \<longleftrightarrow> pending (t_wake (h_server h)) \<and> (\<nexists>l r. h_io h = StoringFlag l r) \<longrightarrow>
     0 < in_pipe (t_wake (h_server h)) \<or> writer n h"

definition awake :: "nat \<Rightarrow> handover \<Rightarrow> bool" where
  "awake n h \<longleftrightarrow> (\<forall>out. h_io h = InPoll out \<longrightarrow> cs_valid (t_session (h_server h)) \<longrightarrow> h_queued h \<noteq> [] \<longrightarrow>
     out \<or> 0 < in_pipe (t_wake (h_server h)) \<or> signal_coming n h)"

lemma awakeI:
  assumes "\<And>out. h_io h = InPoll out \<Longrightarrow> cs_valid (t_session (h_server h)) \<Longrightarrow> h_queued h \<noteq> [] \<Longrightarrow>
     out \<or> 0 < in_pipe (t_wake (h_server h)) \<or> signal_coming n h"
  shows "awake n h"
  using assms by (auto simp: awake_def)

lemma awakeD: "awake n h \<Longrightarrow> h_io h = InPoll out \<Longrightarrow> cs_valid (t_session (h_server h)) \<Longrightarrow> h_queued h \<noteq> [] \<Longrightarrow>
    out \<or> 0 < in_pipe (t_wake (h_server h)) \<or> signal_coming n h"
  by (simp add: awake_def)

lemma writer_signals: "writer n h \<Longrightarrow> signal_coming n h"
  unfolding writer_def signal_coming_def by (metis signals_soon.simps(3))

lemma awake_io:
  assumes "io_access h h'" "ledger_ok h"
  shows "awake n h'"
  using assms(1)
proof cases
  case enters_poll
  then show ?thesis using assms(2)
    by (auto simp: awake_def asks_output_def pollEvents_def queue_empty_def ledger_ok_def)
next
  case (counts_viewer_end e nxt)
  then show ?thesis by (cases nxt) (simp_all add: awake_def goes_on_def)
qed (auto simp: awake_def goes_on_def clears_def takes_def ends_session_effect Let_def)

lemma flag_io:
  assumes "io_access h h'" "flag_ok n h"
  shows "flag_ok n h'"
  using assms(1)
proof cases
  case (takes_session accepted t os)
  then show ?thesis using assms(2) takes_over_effect [OF takes_session(3)] by (auto simp: flag_ok_def writer_def goes_on_def)
next
  case (outputs_viewer script r t)
  then show ?thesis using assms(2) pumps_effect(4) [OF outputs_viewer(4,3)] by (auto simp: flag_ok_def writer_def takes_def Let_def)
next
  case (output_fails script r t)
  then show ?thesis using assms(2) pumps_effect(4) [OF output_fails(4,3)]
    by (auto simp: flag_ok_def writer_def takes_def ends_session_effect Let_def)
qed (use assms(2) in \<open>auto simp: flag_ok_def writer_def goes_on_def clears_def ends_session_effect\<close>)

text \<open>
  A thread takes a step of \<open>signal\<close>: what holds of the flag and the pipe afterwards. \<open>mine\<close> is the thread's
  place, \<open>other\<close> that another thread is at its \<open>write\<close>.
\<close>

lemma signal_flag:
  assumes "signal_access cap (mine, w) (mine', w')" "0 < cap" "fd_valid (write_end w)" "0 < in_pipe w \<or> mine = WritingByte \<or> other \<or> \<not> pending w"
  shows "0 < in_pipe w' \<or> mine' = WritingByte \<or> other \<or> \<not> pending w'"
  using signal_access_cases [OF assms(1)] assms(2-4) by fastforce

lemma signal_awake:
  assumes "signal_access cap (mine, w) (mine', w')" "0 < cap" "fd_valid (write_end w)"
    and "0 < in_pipe w \<or> mine = WritingByte \<or> other \<or> \<not> pending w" "out \<or> 0 < in_pipe w \<or> signals_soon mine \<or> more_signals" "other \<longrightarrow> more_signals"
  shows "out \<or> 0 < in_pipe w' \<or> mine' = WritingByte \<or> more_signals"
  using signal_access_cases [OF assms(1)] assms(2-6) by (cases mine) fastforce+

lemma thread_apart:
  assumes "i < n"
  shows "(\<exists>j < n. P (f j)) \<longleftrightarrow> P (f i) \<or> (\<exists>j < n. j \<noteq> i \<and> P (f j))"
    "(\<exists>j < n. P ((f(i := x)) j)) \<longleftrightarrow> P x \<or> (\<exists>j < n. j \<noteq> i \<and> P (f j))"
  using assms by auto

lemma thread_moves:
  assumes "\<exists>j < n. P (f j)" "i < n" "P (f i) \<Longrightarrow> P x"
  shows "\<exists>j < n. P ((f(i := x)) j)"
  using assms by (metis fun_upd_other fun_upd_same)

lemma flag_publisher:
  assumes "publisher_access cap n h h'" "0 < cap" "ledger_ok h" "machine_ok h" "flag_ok n h"
  shows "flag_ok n h'"
  using assms(1)
proof (cases rule: publisher_cases)
  case (quiet i p t)
  have "writer n h \<Longrightarrow> writer n h'"
    using thread_moves [where P = "\<lambda>p. p = WritingByte" and f = "h_publisher h" and x = p, OF _ quiet(1)] quiet(9)
    by (simp add: writer_def quiet(2) publisher_moves_def del: fun_upd_apply) blast
  then show ?thesis using assms(5) quiet by (auto simp: flag_ok_def publisher_moves_def)
next
  case (push i f born)
  note e = pushes_effect [OF assms(3), of i f born, folded push(3)]
  obtain d where "h_publisher h' = (h_publisher h)(i := Pushed d)" using e(12) by blast
  then have "writer n h \<Longrightarrow> writer n h'"
    using thread_moves [where P = "\<lambda>p. p = WritingByte" and f = "h_publisher h" and x = "Pushed d", OF _ push(1)] push(2)
    by (simp add: writer_def e(13) del: fun_upd_apply) blast
  then show ?thesis using assms(5) e(1,5) by (auto simp: flag_ok_def)
next
  case (signal i p w)
  let ?other = "h_stop h = WritingByte \<or> (\<exists>j < n. j \<noteq> i \<and> h_publisher h j = WritingByte)"
  note apart = thread_apart [OF signal(1), where P = "\<lambda>p. p = WritingByte" and f = "h_publisher h"]
  have w: "writer n h \<longleftrightarrow> h_publisher h i = WritingByte \<or> ?other" "writer n h' \<longleftrightarrow> p = WritingByte \<or> ?other"
    using apart(1) apart(2) [of p] by (auto simp: writer_def signal(3) publisher_moves_def)
  have "fd_valid (write_end (t_wake (h_server h)))" using assms(4) by (simp add: machine_ok_def)
  note kept = signal_flag [OF signal(2) assms(2) this, of ?other]
  have "pending (t_wake (h_server h)) \<and> (\<nexists>l r. h_io h = StoringFlag l r) \<longrightarrow> 0 < in_pipe (t_wake (h_server h)) \<or> h_publisher h i = WritingByte \<or> ?other"
    using assms(5) unfolding flag_ok_def w(1) .
  then have "(\<nexists>l r. h_io h = StoringFlag l r) \<longrightarrow> 0 < in_pipe w \<or> p = WritingByte \<or> ?other \<or> \<not> pending w"
    using kept by blast
  then show ?thesis unfolding flag_ok_def w(2) by (simp add: signal(3) publisher_moves_def) blast
qed

lemma awake_publisher:
  assumes "publisher_access cap n h h'" "0 < cap" "ledger_ok h" "machine_ok h" "flag_ok n h" "awake n h"
  shows "awake n h'"
  using assms(1)
proof (cases rule: publisher_cases)
  case (quiet i p t)
  have "signal_coming n h \<Longrightarrow> signal_coming n h'"
    using thread_moves [where P = signals_soon and f = "h_publisher h" and x = p, OF _ quiet(1)] quiet(8)
    by (simp add: signal_coming_def quiet(2) publisher_moves_def del: fun_upd_apply) blast
  then show ?thesis using assms(6) quiet by (auto simp: awake_def publisher_moves_def)
next
  case (push i f born)
  obtain d where "h_publisher h' = (h_publisher h)(i := Pushed d)"
    using pushes_effect(12) [OF assms(3), of i f born] push(3) by auto
  then have "signals_soon (h_publisher h' i)" by simp
  with push(1) show ?thesis by (auto simp: awake_def signal_coming_def)
next
  case (signal i p w)
  let ?other = "h_stop h = WritingByte \<or> (\<exists>j < n. j \<noteq> i \<and> h_publisher h j = WritingByte)"
  let ?more = "h_stop h = WritingByte \<or> (\<exists>j < n. j \<noteq> i \<and> signals_soon (h_publisher h j))"
  have valid: "fd_valid (write_end (t_wake (h_server h)))" using assms(4) by (simp add: machine_ok_def)
  have "writer n h \<Longrightarrow> h_publisher h i = WritingByte \<or> ?other"
    using thread_apart(1) [OF signal(1), where P = "\<lambda>p. p = WritingByte" and f = "h_publisher h"] by (auto simp: writer_def)
  then have flag: "0 < in_pipe (t_wake (h_server h)) \<or> h_publisher h i = WritingByte \<or> ?other \<or> \<not> pending (t_wake (h_server h))"
    if "h_io h = InPoll out" for out using assms(5) that by (auto simp: flag_ok_def)
  have more: "?other \<longrightarrow> ?more" by (metis signals_soon.simps(3))
  have coming: "signal_coming n h \<Longrightarrow> signals_soon (h_publisher h i) \<or> ?more" "p = WritingByte \<or> ?more \<Longrightarrow> signal_coming n h'"
    using thread_apart [OF signal(1), where P = signals_soon and f = "h_publisher h"] by (auto simp: signal_coming_def signal(3) publisher_moves_def)
  show ?thesis
  proof (rule awakeI)
    fix out assume here: "h_io h' = InPoll out" "cs_valid (t_session (h_server h'))" "h_queued h' \<noteq> []"
    then have in_poll: "h_io h = InPoll out" "cs_valid (t_session (h_server h))" "h_queued h \<noteq> []"
      by (simp_all add: signal(3) publisher_moves_def)
    have "out \<or> 0 < in_pipe (t_wake (h_server h)) \<or> signals_soon (h_publisher h i) \<or> ?more"
      using awakeD [OF assms(6) in_poll] coming(1) by blast
    from signal_awake [OF signal(2) assms(2) valid flag [OF in_poll(1)] this more] coming(2)
    have "out \<or> 0 < in_pipe w \<or> signal_coming n h'" by blast
    then show "out \<or> 0 < in_pipe (t_wake (h_server h')) \<or> signal_coming n h'" by (simp add: signal(3) publisher_moves_def)
  qed
qed

text \<open>The thread that calls \<open>stop\<close>.\<close>

lemma stop_flag_awake:
  assumes "signal_access cap (h_stop h, t_wake (h_server h)) (p, w)" "0 < cap" "machine_ok h" "flag_ok n h" "awake n h"
  defines "h' \<equiv> h\<lparr>h_server := (h_server h)\<lparr>t_wake := w\<rparr>, h_stop := p\<rparr>"
  shows "flag_ok n h'" "awake n h'"
proof -
  let ?other = "\<exists>j < n. h_publisher h j = WritingByte" and ?more = "\<exists>j < n. signals_soon (h_publisher h j)"
  have valid: "fd_valid (write_end (t_wake (h_server h)))" using assms(3) by (simp add: machine_ok_def)
  note kept = signal_flag [OF assms(1,2) valid, of ?other]
  have "pending (t_wake (h_server h)) \<and> (\<nexists>l r. h_io h = StoringFlag l r) \<longrightarrow> 0 < in_pipe (t_wake (h_server h)) \<or> h_stop h = WritingByte \<or> ?other"
    using assms(4) unfolding flag_ok_def writer_def .
  then have "(\<nexists>l r. h_io h = StoringFlag l r) \<longrightarrow> 0 < in_pipe w \<or> p = WritingByte \<or> ?other \<or> \<not> pending w"
    using kept by blast
  then show "flag_ok n h'" unfolding flag_ok_def writer_def by (simp add: h'_def) blast
  have more: "?other \<longrightarrow> ?more" by (metis signals_soon.simps(3))
  show "awake n h'"
  proof (rule awakeI)
    fix out assume here: "h_io h' = InPoll out" "cs_valid (t_session (h_server h'))" "h_queued h' \<noteq> []"
    then have in_poll: "h_io h = InPoll out" "cs_valid (t_session (h_server h))" "h_queued h \<noteq> []" by (simp_all add: h'_def)
    have flag: "0 < in_pipe (t_wake (h_server h)) \<or> h_stop h = WritingByte \<or> ?other \<or> \<not> pending (t_wake (h_server h))"
      using assms(4) in_poll(1) by (auto simp: flag_ok_def writer_def)
    have "signal_coming n h \<Longrightarrow> signals_soon (h_stop h) \<or> ?more" by (auto simp: signal_coming_def)
    then have "out \<or> 0 < in_pipe (t_wake (h_server h)) \<or> signals_soon (h_stop h) \<or> ?more" using awakeD [OF assms(5) in_poll] by blast
    from signal_awake [OF assms(1,2) valid flag this more]
    show "out \<or> 0 < in_pipe (t_wake (h_server h')) \<or> signal_coming n h'" by (auto simp: signal_coming_def h'_def)
  qed
qed

subsection \<open>Frames older than the connection\<close>

fun accepting :: "io_place \<Rightarrow> bool" where
  "accepting (ClearingFlag e (ToTakeOver accepted)) = True"
| "accepting (CountingEnd e (ToTakeOver accepted)) = True"
| "accepting (TakingOver accepted) = True"
| "accepting SettingFlag = True"
| "accepting Clearing = True"
| "accepting _ = False"

definition stale :: "handover \<Rightarrow> nat" where
  "stale h = length (filter (\<lambda>born. born < h_accepted h) (h_taken h @ h_queued h))"

definition fresh_enough :: "nat \<Rightarrow> handover \<Rightarrow> bool" where
  "fresh_enough n h \<longleftrightarrow> (\<not> accepting (h_io h) \<longrightarrow> stale h + (\<Sum>i < n. older (h_accepted h) (h_publisher h i)) \<le> n)"

lemma sum_update:
  fixes w :: "'p \<Rightarrow> nat" and n :: nat
  assumes "i < n"
  shows "(\<Sum>j < n. w ((f(i := x)) j)) + w (f i) = (\<Sum>j < n. w (f j)) + w x"
proof -
  have split: "(\<Sum>j < n. w (g j)) = w (g i) + (\<Sum>j \<in> {..<n} - {i}. w (g j))" for g
    using assms by (intro sum.remove) simp_all
  have "(\<Sum>j \<in> {..<n} - {i}. w ((f(i := x)) j)) = (\<Sum>j \<in> {..<n} - {i}. w (f j))" by (rule sum.cong) simp_all
  then show ?thesis unfolding split [of f] split [of "f(i := x)"] by simp
qed

lemma older_bound: "(\<Sum>i < n. older k (f i)) \<le> n"
proof -
  have "older k p \<le> 1" for p by (cases p) simp_all
  then have "(\<Sum>i < n. older k (f i)) \<le> (\<Sum>i < n. 1)" by (intro sum_mono)
  then show ?thesis by simp
qed

lemma fresh_quiet:
  assumes "fresh_enough n h" "i < n" "older (h_accepted h) p \<le> older (h_accepted h) (h_publisher h i)"
  shows "fresh_enough n (publisher_moves i p t h)"
  using assms sum_update [OF assms(2), of "older (h_accepted h)" "h_publisher h" p]
  by (auto simp: fresh_enough_def stale_def publisher_moves_def)

lemma fresh_push:
  assumes "fresh_enough n h" "ledger_ok h" "i < n" "h_publisher h i = Committed f born"
  shows "fresh_enough n (pushes i f born h)"
proof -
  obtain d where d: "h_publisher (pushes i f born h) = (h_publisher h)(i := Pushed d)" "h_queued (pushes i f born h) = drop d (h_queued h) @ [born]"
    using pushes_effect(12) [OF assms(2)] by blast
  have "length (filter P (drop d xs)) \<le> length (filter P xs)" for P and xs :: "nat list"
    by (metis append_take_drop_id filter_append le_add2 length_append)
  then have "stale (pushes i f born h) \<le> stale h + of_bool (born < h_accepted h)"
    using pushes_effect [OF assms(2)] d by (auto simp: stale_def)
  then show ?thesis
    using assms(1,4) d sum_update [OF assms(3), of "older (h_accepted h)" "h_publisher h" "Pushed d"] pushes_effect [OF assms(2)]
    by (auto simp: fresh_enough_def)
qed

lemma fresh_io:
  assumes "io_access h h'" "fresh_enough n h"
  shows "fresh_enough n h'"
  using assms(1)
proof cases
  case clears_backlog
  then show ?thesis using older_bound by (simp add: fresh_enough_def clears_def stale_def)
next
  case (counts_viewer_end e nxt)
  then show ?thesis using assms(2) by (cases nxt) (simp_all add: fresh_enough_def goes_on_def stale_def)
next
  case (outputs_viewer script r t)
  then show ?thesis using assms(2)
    by (auto simp: fresh_enough_def stale_def takes_def Let_def filter_append [symmetric] simp del: filter_append)
next
  case (output_fails script r t)
  then show ?thesis using assms(2)
    by (auto simp: fresh_enough_def stale_def takes_def ends_session_effect Let_def filter_append [symmetric] simp del: filter_append)
next
  case (resets_client e nxt)
  then show ?thesis using assms(2) by (cases nxt) (simp_all add: fresh_enough_def goes_on_def stale_def)
qed (use assms(2) in \<open>auto simp: fresh_enough_def goes_on_def clears_def stale_def ends_session_effect\<close>)

lemma fresh_publisher:
  assumes "publisher_access cap n h h'" "ledger_ok h" "fresh_enough n h"
  shows "fresh_enough n h'"
  using assms(1)
proof (cases rule: publisher_cases)
  case (quiet i p t)
  then show ?thesis using fresh_quiet [OF assms(3)] by simp
next
  case (push i f born)
  then show ?thesis using fresh_push [OF assms(3,2)] by simp
next
  case (signal i p w)
  then show ?thesis using fresh_quiet [OF assms(3)] signal_access_cases(2) [OF signal(2)] by auto
qed

subsection \<open>Every published frame is somewhere\<close>

fun in_flight :: "publisher \<Rightarrow> nat" where
  "in_flight Outside = 0"
| "in_flight (Pushed d) = d"
| "in_flight Signalling = 0"
| "in_flight WritingByte = 0"
| "in_flight TakingBack = 0"
| "in_flight _ = 1"

definition accounted :: "nat \<Rightarrow> handover \<Rightarrow> bool" where
  "accounted n h \<longleftrightarrow> st_frames_published (t_stats (h_server h)) = st_frames_dropped (t_stats (h_server h)) +
     word_of_nat (h_sent h + h_cleared h + length (h_queued h) + (\<Sum>i < n. in_flight (h_publisher h i)))"

lemma accounted_moves:
  assumes "accounted n h" "i < n"
    and "st_frames_published (t_stats t) = st_frames_published (t_stats (h_server h)) + word_of_nat a"
    and "st_frames_dropped (t_stats t) = st_frames_dropped (t_stats (h_server h)) + word_of_nat b"
    and "a + in_flight (h_publisher h i) = b + in_flight p"
  shows "accounted n (publisher_moves i p t h)"
proof -
  let ?S = "\<Sum>i < n. in_flight (h_publisher h i)" and ?S' = "\<Sum>j < n. in_flight (((h_publisher h)(i := p)) j)"
  have "?S' + in_flight (h_publisher h i) = ?S + in_flight p" by (rule sum_update [OF assms(2)])
  with assms(5) have "b + ?S' = a + ?S" by linarith
  then have "(word_of_nat b :: u64) + word_of_nat ?S' = word_of_nat a + word_of_nat ?S" by (metis of_nat_add)
  then show ?thesis using assms(1,3,4) by (simp add: accounted_def publisher_moves_def algebra_simps)
qed

lemma accounted_push:
  assumes "accounted n h" "ledger_ok h" "i < n" "h_publisher h i = Committed f born"
  shows "accounted n (pushes i f born h)"
proof -
  obtain d where d: "d \<le> length (h_queued h)" "h_publisher (pushes i f born h) = (h_publisher h)(i := Pushed d)"
    "h_queued (pushes i f born h) = drop d (h_queued h) @ [born]" using pushes_effect(12) [OF assms(2)] by blast
  have "(\<Sum>j < n. in_flight (((h_publisher h)(i := Pushed d)) j)) + 1 = (\<Sum>j < n. in_flight (h_publisher h j)) + d"
    using sum_update [OF assms(3), of in_flight "h_publisher h" "Pushed d"] assms(4) by simp
  then have "length (h_queued (pushes i f born h)) + (\<Sum>j < n. in_flight (h_publisher (pushes i f born h) j)) =
      length (h_queued h) + (\<Sum>j < n. in_flight (h_publisher h j))" using d by simp
  then show ?thesis using assms(1) pushes_effect [OF assms(2)] by (simp add: accounted_def add.assoc)
qed

lemma accounted_takes:
  assumes "accounted n h" "ledger_ok h" "pumps script (h_server h) = Some (r, t)" "cs_valid (t_session (h_server h))"
  shows "accounted n (takes t h)"
proof -
  obtain fs where "fq_queue (t_queue (h_server h)) = fs @ fq_queue (t_queue t)" using pumps_effect(8) [OF assms(3,4)] by blast
  then show ?thesis using assms(1,2) pumps_effect(5,6) [OF assms(3,4)]
    by (simp add: accounted_def takes_def ledger_ok_def Let_def)
qed

lemma accounted_cong:
  "accounted n h \<Longrightarrow> t_stats (h_server h') = t_stats (h_server h) \<Longrightarrow> h_sent h' = h_sent h \<Longrightarrow> h_cleared h' = h_cleared h \<Longrightarrow>
   h_queued h' = h_queued h \<Longrightarrow> h_publisher h' = h_publisher h \<Longrightarrow> accounted n h'"
  by (simp add: accounted_def)

lemma accounted_publisher:
  assumes "publisher_access cap n h h'" "ledger_ok h" "accounted n h"
  shows "accounted n h'"
  using assms(1)
proof cases
  case (pushes_queue i frame born)
  then show ?thesis using accounted_push [OF assms(3,2)] by simp
next
  case (publish_begins i frame)
  then show ?thesis using accounted_moves [OF assms(3), of i _ 1 0] by simp
next
  case (loads_client i frame born)
  then show ?thesis using accounted_moves [OF assms(3), of i _ 0 0] by simp
next
  case (loads_running i frame born)
  then show ?thesis using accounted_moves [OF assms(3), of i _ 0 0] by simp
next
  case (discards_frame i)
  then show ?thesis using accounted_moves [OF assms(3), of i _ 0 1] by simp
next
  case (counts_evicted i d)
  then show ?thesis using accounted_moves [OF assms(3), of i _ 0 d] by simp
next
  case (signals_io i p w)
  have "in_flight (h_publisher h i) = 0" "in_flight p = 0" using signals_io(3) by (cases; simp)+
  then show ?thesis unfolding signals_io(1)
    by (intro accounted_moves [OF assms(3) signals_io(2), where a = 0 and b = 0]) simp_all
qed

lemma accounted_io:
  assumes "io_access h h'" "ledger_ok h" "accounted n h"
  shows "accounted n h'"
  using assms(1)
proof cases
  case (outputs_viewer script r t)
  then show ?thesis using accounted_takes [OF assms(3,2) outputs_viewer(4,3)] by (simp add: accounted_def)
next
  case (output_fails script r t)
  then show ?thesis using accounted_takes [OF assms(3,2) output_fails(4,3)]
    by (simp add: accounted_def ends_session_effect) (simp add: takes_def Let_def)
next
  case (takes_session accepted t os)
  then show ?thesis using assms(3) takes_over_effect [OF takes_session(3)] by (auto simp: accounted_def goes_on_def)
qed (use assms(2,3) in \<open>auto simp: accounted_def ledger_ok_def goes_on_def clears_def ends_session_effect add.commute\<close>)

section \<open>Reachable states\<close>

definition handover_ok :: "nat \<Rightarrow> handover \<Rightarrow> bool" where
  "handover_ok n h \<longleftrightarrow> ledger_ok h \<and> machine_ok h \<and> flag_ok n h \<and> awake n h \<and> fresh_enough n h \<and> accounted n h"

lemma handover_step_ok:
  assumes "handover_step cap n h h'" "0 < cap" "handover_ok n h"
  shows "handover_ok n h'"
  using assms(1)
proof cases
  case stop_requested
  then show ?thesis using assms(3) machine_ok_cong [of h h']
    by (simp add: handover_ok_def ledger_ok_def flag_ok_def writer_def awake_def signal_coming_def fresh_enough_def stale_def accounted_def)
next
  case (stop_signals p w)
  have "machine_ok h'" using assms(3) signal_access_cases(3) [OF stop_signals(2)]
    by (intro machine_ok_cong [of h h']) (simp_all add: stop_signals(1) handover_ok_def)
  moreover have "flag_ok n h'" "awake n h'"
    using stop_flag_awake [OF stop_signals(2) assms(2)] assms(3) by (simp_all add: stop_signals(1) handover_ok_def)
  ultimately show ?thesis using assms(3)
    by (simp add: stop_signals(1) handover_ok_def ledger_ok_def fresh_enough_def stale_def accounted_def)
next
  case io_accesses
  then show ?thesis using assms(3) machine_io ledger_io flag_io awake_io fresh_io accounted_io unfolding handover_ok_def by blast
next
  case publisher_accesses
  then have p: "publisher_access cap n h h'" .
  have h: "ledger_ok h" "machine_ok h" "flag_ok n h" "awake n h" "fresh_enough n h" "accounted n h"
    using assms(3) by (simp_all add: handover_ok_def)
  show ?thesis unfolding handover_ok_def
    using machine_publisher [OF p h(1,2)] ledger_publisher [OF p h(1)] flag_publisher [OF p assms(2) h(1-3)]
      awake_publisher [OF p assms(2) h(1-4)] fresh_publisher [OF p h(1,5)] accounted_publisher [OF p h(1,6)] by blast
qed

lemma tcp_start_fields:
  assumes "tcp_start k (TcpServer config) os = Some (True, t, os')"
  shows "t_queue t = FrameQueue (queue_capacity config)" "t_stats t = zero_tcp_stats" "t_client_connected t \<longleftrightarrow> False"
  using assms by (auto simp: tcp_start_def TcpServer_def Let_def split: prod.splits if_splits option.splits)

lemma handover_start_ok:
  assumes "handover_start h"
  shows "handover_ok n h"
proof -
  obtain base config os0 k where new: "tcp_new base (TcpServer config, os0)" "fresh_start k (TcpServer config) os0"
    and start: "tcp_start k (TcpServer config) os0 = Some (True, h_server h, h_os h)" and h: "h_io h = AtTest"
      "h_publisher h = (\<lambda>i. Outside)" "h_stop h = Outside" "h_accepted h = 0" "h_queued h = []" "h_taken h = []" "h_sent h = 0" "h_cleared h = 0"
    using assms by (auto simp: handover_start_def)
  have "\<not> t_running (TcpServer config)" by (simp add: TcpServer_def)
  from tcp_start_outcome [OF tcp_new_ok [OF new(1)] new(2) this] start
  have ok: "tcp_ok base (h_server h, h_os h)" "t_running (h_server h)" by (simp_all add: start_post_def)
  note same = tcp_start_fields [OF start]
  show ?thesis
    using ok same h
    by (auto simp: handover_ok_def ledger_ok_def machine_ok_def flag_ok_def awake_def fresh_enough_def wake_ok_def stale_def accounted_def FrameQueue_def zero_tcp_stats_def
        tcp_ok_def session_accounted_def thread_ok_def wake_ready_def)
qed

interpretation handing: inductive_invariant handover_start "handover_step (Suc c) n" "handover_ok n" for c n
  by unfold_locales (erule handover_start_ok, erule handover_step_ok, simp_all)

lemma handover_reachable: "handover_start h0 \<Longrightarrow> (handover_step cap n)\<^sup>*\<^sup>* h0 h \<Longrightarrow> 0 < cap \<Longrightarrow> handover_ok n h"
  using handing.reachable_inv by (metis gr0_implies_Suc)

end
