(* ===== verification/HandoverProperties.thy ===== *)
theory HandoverProperties
  imports ServerHandover
begin

text \<open>
  What holds between any two accesses of the server's threads: no frame waits without a wakeup, how old the
  frames of a new viewer can be, where every published frame is; and two places where frames are treated
  otherwise than documented. The examples are runs with one publisher.
\<close>

section \<open>Sample runs\<close>

definition sample_handover :: handover where
  "sample_handover = \<lparr>h_server = sample_server, h_os = sample_server_os, h_io = AtTest, h_publisher = \<lambda>i. Outside,
     h_stop = Outside, h_accepted = 0, h_queued = [], h_taken = [], h_sent = 0, h_cleared = 0\<rparr>"

lemma sample_handover_start: "handover_start sample_handover"
  unfolding handover_start_def
  by (intro conjI exI [of _ "{0, 1, 2}"] exI [of _ default_tcp_config] exI [of _ sample_os] exI [of _ server_kernel])
    (simp_all add: sample_handover_def sample_new sample_fresh sample_started)

lemma sample_handover_fields:
  "t_running sample_server" "\<not> t_client_connected sample_server" "\<not> cs_valid (t_session sample_server)" "\<not> t_stop_requested sample_server"
  "t_queue sample_server = FrameQueue (queue_capacity default_tcp_config)" "t_stats sample_server = zero_tcp_stats"
  by (simp_all add: sample_server_def TcpServer_def empty_session_def cs_valid_def empty_fd_def fd_valid_def)

text \<open>A viewer connects, up to the moment before the queue is cleared; publishers may be anywhere.\<close>

lemma viewer_connects:
  assumes "h_io h = AtTest" "\<not> t_stop_requested (h_server h)" "\<not> cs_valid (t_session (h_server h))"
  shows "\<exists>h'. (handover_step cap n)\<^sup>*\<^sup>* h h' \<and> h_io h' = Clearing \<and> t_client_connected (h_server h') \<and>
    t_session (h_server h') = ClientSession (FileDescriptor 6) \<and> t_running (h_server h') = t_running (h_server h) \<and>
    t_queue (h_server h') = t_queue (h_server h) \<and> t_stats (h_server h') = t_stats (h_server h) \<and>
    h_publisher h' = h_publisher h \<and> h_accepted h' = h_accepted h + 1 \<and> h_queued h' = h_queued h \<and>
    h_sent h' = h_sent h \<and> h_cleared h' = h_cleared h \<and> t_stop_requested (h_server h') = t_stop_requested (h_server h)"
proof -
  let ?s = "ClientSession (FileDescriptor 6)"
  define h1 where "h1 = h\<lparr>h_io := InPoll (asks_output (h_server h))\<rparr>"
  define h2 where "h2 = h1\<lparr>h_io := AtEvents True []\<rparr>"
  define h3 where "h3 = h2\<lparr>h_io := AtAccept True\<rparr>"
  define h4 where "h4 = h3\<lparr>h_os := os_open 6 (h_os h), h_accepted := h_accepted h + 1, h_io := TakingOver ?s\<rparr>"
  obtain t os where t: "takes_over ?s (h_server h4) (h_os h4) = (t, os)" by fastforce
  define h5 where "h5 = goes_on SettingFlag t (h4\<lparr>h_os := os\<rparr>)"
  define h6 where "h6 = goes_on Clearing (stores_client True t) h5"
  have 1: "handover_step cap n h h1" unfolding h1_def by (rule io_accesses [OF enters_poll]) (rule assms)+
  have 2: "handover_step cap n h1 h2"
    using io_accesses [OF poll_returns [of h1 "asks_output (h_server h)" False True "[]"]] by (simp add: h1_def h2_def goes_on_def)
  have 3: "handover_step cap n h2 h3" using io_accesses [OF no_events [of h2 True "[]"]] assms(3) by (simp add: h1_def h2_def h3_def)
  have acc: "cs_accept [(Done 6, None)] (t_config (h_server h3)) [] (h_os h3) =
      Some (?s, applySocketOptions (t_config (h_server h3)), [], os_open 6 (h_os h))" by (simp add: h1_def h2_def h3_def)
  have valid: "cs_valid ?s" by (simp add: ClientSession_def cs_valid_def FileDescriptor_def fd_valid_def)
  have 4: "handover_step cap n h3 h4"
    using io_accesses [OF accepts_viewer [OF _ acc valid]] assms(3)
    by (simp add: h1_def h2_def h3_def h4_def ends_session_def tcp_setError_def)
  have 5: "handover_step cap n h4 h5" unfolding h5_def by (rule io_accesses [OF takes_session [OF _ t]]) (simp add: h4_def)
  have t': "t = (h_server h)\<lparr>t_session := ?s\<rparr>" using takes_over_effect [OF t] by (simp add: h1_def h2_def h3_def h4_def)
  have 6: "handover_step cap n h5 h6" using io_accesses [OF sets_client [of h5]] by (simp add: h5_def h6_def goes_on_def)
  note cons = converse_rtranclp_into_rtranclp [where r = "handover_step cap n"]
  have "(handover_step cap n)\<^sup>*\<^sup>* h h6"
    by (rule cons [OF 1 cons [OF 2 cons [OF 3 cons [OF 4 cons [OF 5 r_into_rtranclp [where r = "handover_step cap n", OF 6]]]]]])
  then show ?thesis
    using valid by (intro exI [of _ h6]) (simp add: h1_def h2_def h3_def h4_def h5_def h6_def goes_on_def stores_client_def t')
qed

lemma publisher_commits:
  assumes "i < n" "h_publisher h i = Counted f born" "t_client_connected (h_server h)" "t_running (h_server h)"
  shows "(handover_step cap n)\<^sup>*\<^sup>* h (h\<lparr>h_publisher := (h_publisher h)(i := Committed f born)\<rparr>)"
proof -
  let ?h1 = "publisher_moves i (SawClient f born) (h_server h) h"
  have 1: "handover_step cap n h ?h1" using publisher_accesses [OF loads_client [OF assms(1,2)]] assms(3) by simp
  have "handover_step cap n ?h1 (publisher_moves i (Committed f born) (h_server ?h1) ?h1)"
    using publisher_accesses [OF loads_running [OF assms(1), of ?h1 f born]] assms(4) by (simp add: publisher_moves_def)
  with 1 show ?thesis by (simp add: publisher_moves_def)
qed

text \<open>A push that evicts nothing.\<close>

lemma publisher_pushes:
  assumes "i < n" "h_publisher h i = Committed f born" "length (fq_queue (t_queue (h_server h))) < fq_capacity (t_queue (h_server h))"
  shows "handover_step cap n h (pushes i f born h)" "h_publisher (pushes i f born h) = (h_publisher h)(i := Pushed 0)"
    "h_queued (pushes i f born h) = h_queued h @ [born]"
proof -
  show "handover_step cap n h (pushes i f born h)" by (rule publisher_accesses [OF pushes_queue [OF assms(1,2)]])
  have "1 \<le> fq_capacity (t_queue (h_server h))" using assms(3) by simp
  then have "snd (push f (t_queue (h_server h))) = 0" using push_queue(2) assms(3) by simp
  then obtain q where "push f (t_queue (h_server h)) = (q, 0)" by (metis prod.collapse)
  then show "h_publisher (pushes i f born h) = (h_publisher h)(i := Pushed 0)" "h_queued (pushes i f born h) = h_queued h @ [born]"
    by (simp_all add: pushes_def pushes_frame_def publisher_moves_def)
qed

lemma publisher_signals:
  assumes "(signal_access cap)\<^sup>*\<^sup>* (h_publisher h i, t_wake (h_server h)) (p, w)" "i < n"
  shows "(handover_step cap n)\<^sup>*\<^sup>* h (publisher_moves i p ((h_server h)\<lparr>t_wake := w\<rparr>) h)"
  using assms(1)
proof (induction rule: rtranclp_induct2)
  case refl
  have "publisher_moves i (h_publisher h i) ((h_server h)\<lparr>t_wake := t_wake (h_server h)\<rparr>) h = h"
    by (simp add: publisher_moves_def)
  then show ?case by simp
next
  case (step p' w' p w)
  let ?h = "publisher_moves i p' ((h_server h)\<lparr>t_wake := w'\<rparr>) h"
  have "signal_access cap (h_publisher ?h i, t_wake (h_server ?h)) (p, w)" using step(2) by (simp add: publisher_moves_def)
  from publisher_accesses [OF signals_io [OF assms(2) this]]
  have "handover_step cap n ?h (publisher_moves i p ((h_server h)\<lparr>t_wake := w\<rparr>) h)" by (simp add: publisher_moves_def)
  with step(3) show ?case by (rule rtranclp.rtrancl_into_rtrancl)
qed

text \<open>A whole \<open>publish\<close> that finds a viewer and room in the queue, while nothing else runs.\<close>

lemma publisher_publishes:
  assumes "i < n" "h_publisher h i = Outside" "t_client_connected (h_server h)" "t_running (h_server h)" "ledger_ok h"
    and room: "length (fq_queue (t_queue (h_server h))) < fq_capacity (t_queue (h_server h))"
  shows "\<exists>h'. (handover_step cap n)\<^sup>*\<^sup>* h h' \<and> h_io h' = h_io h \<and> h_publisher h' = h_publisher h \<and>
    t_client_connected (h_server h') \<and> t_session (h_server h') = t_session (h_server h) \<and> h_accepted h' = h_accepted h \<and>
    st_frames_published (t_stats (h_server h')) = st_frames_published (t_stats (h_server h)) + 1 \<and>
    st_frames_dropped (t_stats (h_server h')) = st_frames_dropped (t_stats (h_server h)) \<and>
    h_queued h' = h_queued h @ [h_accepted h] \<and> h_sent h' = h_sent h \<and> h_cleared h' = h_cleared h \<and> ledger_ok h'"
proof -
  define h1 where "h1 = publisher_moves i (Counted f (h_accepted h)) (publish_count (h_server h)) h"
  define h2 where "h2 = h1\<lparr>h_publisher := (h_publisher h1)(i := Committed f (h_accepted h))\<rparr>"
  define h3 where "h3 = pushes i f (h_accepted h) h2"
  define h4 where "h4 = publisher_moves i Signalling (counts_dropped 0 (h_server h3)) h3"
  define h5 where "h5 = publisher_moves i Outside (publish_signal cap (h_server h4)) h4"
  have 1: "handover_step cap n h h1" unfolding h1_def by (rule publisher_accesses [OF publish_begins [OF assms(1,2)]])
  have f1: "h_publisher h1 = (h_publisher h)(i := Counted f (h_accepted h))" "h_io h1 = h_io h" "ledger_ok h1" "h_queued h1 = h_queued h"
    "t_queue (h_server h1) = t_queue (h_server h)" "t_client_connected (h_server h1)" "t_running (h_server h1)"
    using assms by (simp_all add: h1_def publisher_moves_def ledger_ok_def)
  have 2: "(handover_step cap n)\<^sup>*\<^sup>* h1 h2" unfolding h2_def by (rule publisher_commits) (use assms(1) f1 in simp_all)
  have f2: "h_publisher h2 i = Committed f (h_accepted h)" "ledger_ok h2" "h_queued h2 = h_queued h"
    "length (fq_queue (t_queue (h_server h2))) < fq_capacity (t_queue (h_server h2))"
    using f1 room by (simp_all add: h2_def ledger_ok_def)
  note p = publisher_pushes [OF assms(1) f2(1,4), folded h3_def] and e = pushes_effect [OF f2(2), of i f "h_accepted h", folded h3_def]
  have "h_publisher h3 i = Pushed 0" using p(2) by simp
  then have 4: "handover_step cap n h3 h4" unfolding h4_def by (rule publisher_accesses [OF counts_evicted [OF assms(1)]])
  have "h_publisher h4 i = Signalling" by (simp add: h4_def publisher_moves_def)
  then have 5: "(handover_step cap n)\<^sup>*\<^sup>* h4 h5" unfolding h5_def publish_signal_def
    using publisher_signals [OF _ assms(1), where h = h4] wp_signal_accesses by simp
  have "(handover_step cap n)\<^sup>*\<^sup>* h h5"
    using 1 2 p(1) 4 5 by (meson converse_rtranclp_into_rtranclp rtranclp.rtrancl_into_rtrancl rtranclp_trans)
  moreover have "h_publisher h5 = h_publisher h"
    using p(2) assms(2) by (auto simp: h5_def h4_def h2_def h1_def publisher_moves_def)
  moreover have keeps: "h_io h2 = h_io h" "t_client_connected (h_server h2)" "t_session (h_server h2) = t_session (h_server h)"
    "st_frames_published (t_stats (h_server h2)) = st_frames_published (t_stats (h_server h)) + 1"
    "st_frames_dropped (t_stats (h_server h2)) = st_frames_dropped (t_stats (h_server h))"
    "h_accepted h2 = h_accepted h" "h_sent h2 = h_sent h" "h_cleared h2 = h_cleared h"
    using assms(3) by (simp_all add: h2_def h1_def publisher_moves_def)
  have "h_io h5 = h_io h3" "t_client_connected (h_server h5) = t_client_connected (h_server h3)" "t_session (h_server h5) = t_session (h_server h3)"
    "st_frames_published (t_stats (h_server h5)) = st_frames_published (t_stats (h_server h3))"
    "st_frames_dropped (t_stats (h_server h5)) = st_frames_dropped (t_stats (h_server h3))" "h_accepted h5 = h_accepted h3"
    "h_sent h5 = h_sent h3" "h_cleared h5 = h_cleared h3" "h_queued h5 = h_queued h3" "ledger_ok h5 = ledger_ok h3"
    by (simp_all add: h5_def h4_def publisher_moves_def ledger_ok_def publish_signal_def)
  then have "h_io h5 = h_io h" "t_client_connected (h_server h5)" "t_session (h_server h5) = t_session (h_server h)"
    "st_frames_published (t_stats (h_server h5)) = st_frames_published (t_stats (h_server h)) + 1"
    "st_frames_dropped (t_stats (h_server h5)) = st_frames_dropped (t_stats (h_server h))" "h_accepted h5 = h_accepted h"
    "h_sent h5 = h_sent h" "h_cleared h5 = h_cleared h" "h_queued h5 = h_queued h @ [h_accepted h]" "ledger_ok h5"
    using e(1-11) p(3) f2(3) keeps by simp_all
  ultimately show ?thesis by blast
qed

text \<open>A viewer in the middle of its connection, seen from the start of the sample.\<close>

lemma sample_room: "fq_queue (t_queue sample_server) = [] \<and> 0 < fq_capacity (t_queue sample_server)"
  by (simp add: sample_handover_fields FrameQueue_def)

lemma sample_connecting:
  assumes "h_server h0 = sample_server \<or> h_server h0 = publish_count sample_server" "h_io h0 = AtTest" "h_queued h0 = []"
  shows "\<exists>h. (handover_step 1 1)\<^sup>*\<^sup>* h0 h \<and> h_io h = Clearing \<and> t_client_connected (h_server h) \<and>
    t_session (h_server h) = ClientSession (FileDescriptor 6) \<and> t_running (h_server h) \<and> ledger_ok h \<and>
    length (fq_queue (t_queue (h_server h))) < fq_capacity (t_queue (h_server h)) \<and> h_queued h = [] \<and>
    h_publisher h = h_publisher h0 \<and> h_accepted h = h_accepted h0 + 1 \<and> h_sent h = h_sent h0 \<and> h_cleared h = h_cleared h0 \<and>
    t_stats (h_server h) = t_stats (h_server h0) \<and> \<not> t_stop_requested (h_server h)"
proof -
  have s: "t_queue (h_server h0) = t_queue sample_server" "t_running (h_server h0)" "\<not> t_stop_requested (h_server h0)"
    "\<not> cs_valid (t_session (h_server h0))"
    using assms(1) sample_handover_fields by (auto simp: publish_count_def)
  from viewer_connects [OF assms(2) s(3,4), of 1 1] obtain h where h: "(handover_step 1 1)\<^sup>*\<^sup>* h0 h" "h_io h = Clearing"
    "t_client_connected (h_server h)" "t_session (h_server h) = ClientSession (FileDescriptor 6)"
    "t_running (h_server h) = t_running (h_server h0)" "t_queue (h_server h) = t_queue (h_server h0)"
    "t_stats (h_server h) = t_stats (h_server h0)" "h_publisher h = h_publisher h0" "h_accepted h = h_accepted h0 + 1"
    "h_queued h = h_queued h0" "h_sent h = h_sent h0" "h_cleared h = h_cleared h0"
    "t_stop_requested (h_server h) = t_stop_requested (h_server h0)" by blast
  have "length (fq_queue (t_queue (h_server h))) < fq_capacity (t_queue (h_server h))" "ledger_ok h"
    using h(6,10) s(1) sample_room assms(3) by (simp_all add: ledger_ok_def)
  then show ?thesis using h s assms(3) by (intro exI [of _ h]) simp
qed

lemma sample_fields [simp]:
  "h_server sample_handover = sample_server" "h_io sample_handover = AtTest" "h_publisher sample_handover = (\<lambda>i. Outside)"
  "h_accepted sample_handover = 0" "h_queued sample_handover = []" "h_sent sample_handover = 0" "h_cleared sample_handover = 0"
  by (simp_all add: sample_handover_def)

text \<open>The viewer is connected, the backlog cleared; nothing has been published yet, or one frame that is lost.\<close>

lemma clears_and_counts:
  assumes "h_io h = Clearing" "t_session (h_server h) = ClientSession (FileDescriptor 6)" "t_client_connected (h_server h)"
  shows "\<exists>h'. (handover_step cap n)\<^sup>*\<^sup>* h h' \<and> h_io h' = AtOutput \<and> t_session (h_server h') = ClientSession (FileDescriptor 6) \<and>
    t_client_connected (h_server h') \<and> t_running (h_server h') = t_running (h_server h) \<and> fq_queue (t_queue (h_server h')) = [] \<and>
    fq_capacity (t_queue (h_server h')) = fq_capacity (t_queue (h_server h)) \<and> h_publisher h' = h_publisher h \<and>
    st_frames_published (t_stats (h_server h')) = st_frames_published (t_stats (h_server h)) \<and>
    st_frames_dropped (t_stats (h_server h')) = st_frames_dropped (t_stats (h_server h)) \<and> h_accepted h' = h_accepted h \<and>
    h_sent h' = h_sent h \<and> t_stop_requested (h_server h') = t_stop_requested (h_server h) \<and> h_queued h' = []"
proof -
  let ?h1 = "(clears h)\<lparr>h_io := CountingConnect, h_taken := []\<rparr>"
  have 1: "handover_step cap n h ?h1" by (rule io_accesses [OF clears_backlog [OF assms(1)]])
  have 2: "handover_step cap n ?h1 (goes_on AtOutput (counts_connect (h_server ?h1)) ?h1)" by (rule io_accesses [OF counts_viewer]) simp
  have "t_stop_requested (counts_connect (clears_queue t)) = t_stop_requested t" for t
    by (simp add: counts_connect_def clears_queue_def)
  with converse_rtranclp_into_rtranclp [where r = "handover_step cap n", OF 1 r_into_rtranclp [where r = "handover_step cap n", OF 2]]
  show ?thesis using assms by (intro exI [of _ "goes_on AtOutput (counts_connect (h_server ?h1)) ?h1"]) (simp add: goes_on_def clears_def)
qed

lemma sample_loses_frame:
  "\<exists>h1 h2. (handover_step 1 1)\<^sup>*\<^sup>* sample_handover h1 \<and> t_client_connected (h_server h1) \<and> h_publisher h1 = (\<lambda>i. Outside) \<and>
     st_frames_published (t_stats (h_server h1)) = 0 \<and> (handover_step 1 1)\<^sup>*\<^sup>* h1 h2 \<and> t_client_connected (h_server h2) \<and>
     h_publisher h2 = (\<lambda>i. Outside) \<and> st_frames_published (t_stats (h_server h2)) = 1 \<and>
     st_frames_dropped (t_stats (h_server h2)) = 0 \<and> h_sent h2 = 0 \<and> fq_queue (t_queue (h_server h2)) = []"
proof -
  obtain h1 where h1: "(handover_step 1 1)\<^sup>*\<^sup>* sample_handover h1" "h_io h1 = Clearing" "t_client_connected (h_server h1)"
    "t_session (h_server h1) = ClientSession (FileDescriptor 6)" "t_running (h_server h1)" "ledger_ok h1"
    "length (fq_queue (t_queue (h_server h1))) < fq_capacity (t_queue (h_server h1))" "h_publisher h1 = (\<lambda>i. Outside)"
    "t_stats (h_server h1) = zero_tcp_stats" "h_sent h1 = 0"
    using sample_connecting [of sample_handover] sample_handover_fields(6) by auto
  obtain h2 where h2: "(handover_step 1 1)\<^sup>*\<^sup>* h1 h2" "h_io h2 = Clearing" "h_publisher h2 = (\<lambda>i. Outside)" "t_client_connected (h_server h2)"
    "t_session (h_server h2) = ClientSession (FileDescriptor 6)" "st_frames_published (t_stats (h_server h2)) = 1"
    "st_frames_dropped (t_stats (h_server h2)) = 0" "h_sent h2 = 0"
    using publisher_publishes [of 0 1 h1 1, OF _ _ h1(3,5,6,7)] h1(2,4,8-10) by (auto simp: zero_tcp_stats_def)
  obtain h3 where "(handover_step 1 1)\<^sup>*\<^sup>* h2 h3" "t_client_connected (h_server h3)" "fq_queue (t_queue (h_server h3)) = []"
    "h_publisher h3 = (\<lambda>i. Outside)" "st_frames_published (t_stats (h_server h3)) = 1" "st_frames_dropped (t_stats (h_server h3)) = 0" "h_sent h3 = 0"
    using clears_and_counts [OF h2(2,5,4), of 1 1] h2(3,6-8) by auto
  with h1 h2 show ?thesis
    by (intro exI [of _ h1] exI [of _ h3]) (auto simp: zero_tcp_stats_def intro: rtranclp_trans)
qed

lemma sample_loses:
  "\<exists>h. (handover_step 1 1)\<^sup>*\<^sup>* sample_handover h \<and> fq_queue (t_queue (h_server h)) = [] \<and> h_publisher h = (\<lambda>i. Outside) \<and>
     st_frames_published (t_stats (h_server h)) = 1 \<and> st_frames_dropped (t_stats (h_server h)) = 0 \<and> h_sent h = 0"
proof -
  obtain h1 h2 where "(handover_step 1 1)\<^sup>*\<^sup>* sample_handover h1" "(handover_step 1 1)\<^sup>*\<^sup>* h1 h2"
    "fq_queue (t_queue (h_server h2)) = []" "h_publisher h2 = (\<lambda>i. Outside)" "st_frames_published (t_stats (h_server h2)) = 1"
    "st_frames_dropped (t_stats (h_server h2)) = 0" "h_sent h2 = 0" using sample_loses_frame by blast
  then show ?thesis by (meson rtranclp_trans)
qed

section \<open>A failed \<open>send\<close> leaves the backlog\<close>

text \<open>
  The \<open>else\<close> branch that clears the queue without a viewer is not taken in the turn in which the session
  ends inside \<open>serviceOutput\<close>. The frames that were still queued stay; the next \<open>poll\<close> waits for the wake pipe
  and the listening socket only, and \<open>publish\<close>, which finds no client, neither clears the queue nor signals.
\<close>

lemma failed_send_keeps_backlog:
  assumes "cs_valid (t_session t)" "io_poll turn = Done (wake_in, False, [])"
    and "pump (io_send turn) (t_queue t) (t_session t) no_progress [] = Some r" "p_result r = Failed"
  shows "\<exists>t' os' wire. tcp_turn turn t os = Some (True, t', os', wire) \<and> \<not> cs_valid (t_session t') \<and> t_queue t' = p_queue r \<and>
    length (poll_set t') = 2 \<and> t_queue (publish cap f t') = p_queue r \<and> t_wake (publish cap f t') = t_wake t'"
proof -
  let ?t = "if wake_in then t\<lparr>t_wake := wp_drain (t_wake t)\<rparr> else t"
  have same: "t_queue ?t = t_queue t" "t_session ?t = t_session t" by simp_all
  obtain t1 where p: "pumps (io_send turn) ?t = Some (r, t1)" using assms(3) by (cases wake_in) (simp_all add: pumps_def Let_def)
  have q: "t_queue t1 = p_queue r" using p by (auto simp: pumps_def Let_def split: if_splits)
  have valid: "cs_valid (t_session t1)" using pumps_effect(1) [OF p] assms(1) by simp
  obtain t' os' where e: "endSession True (tcp_setError (p_error r) t1) os = (t', os')" by fastforce
  have "tcp_turn turn t os = Some (True, t', os', p_wire r)"
    using assms(1,2,4) p e by (simp add: tcp_turn_def serviceClientEvents_def serviceOutput_statements same Let_def)
  moreover have "t_queue t' = p_queue r" "\<not> cs_valid (t_session t')" using endSession_fields(1,3) [OF e] q by simp_all
  moreover have "\<not> t_client_connected t'"
    using e valid by (auto simp: endSession_def Let_def split: prod.splits if_splits)
  ultimately show ?thesis
    by (intro exI [of _ t'] exI [of _ os'] exI [of _ "p_wire r"])
      (simp add: poll_set_def publish_def nobody_listens_def)
qed

text \<open>Two frames queued, and the viewer is gone.\<close>

lemma failed_send_witness:
  "\<exists>t' os' wire. tcp_turn (\<lparr>io_poll = Done (True, False, []), io_recv = [], io_accept = [], io_send = [(- 1, Errno ''Broken pipe'')]\<rparr>)
     (publish 1 sample_frame (publish 1 sample_frame sample_client)) sample_client_os = Some (True, t', os', wire) \<and>
     \<not> cs_valid (t_session t') \<and> fq_queue (t_queue t') = [sample_frame]"
proof -
  let ?t = "publish 1 sample_frame (publish 1 sample_frame sample_client)"
  let ?turn = "\<lparr>io_poll = Done (True, False, []), io_recv = [], io_accept = [], io_send = [(- 1, Errno ''Broken pipe'')]\<rparr>"
  have t: "t_session ?t = ClientSession 6" "fq_queue (t_queue ?t) = [sample_frame, sample_frame]"
    by (simp_all add: sample_client_def sample_server_def TcpServer_def default_tcp_config_def FrameQueue_def
      publish_def publish_count_def nobody_listens_def publish_push_def publish_signal_def push_def evict.simps acquireLocked_def
      frame_copy Let_def)
  have valid: "cs_valid (t_session ?t)" using t(1) by (simp add: ClientSession_def cs_valid_def fd_valid_def)
  obtain r where r: "pump (io_send ?turn) (t_queue ?t) (t_session ?t) no_progress [] = Some r" "p_result r = Failed"
    "fq_queue (p_queue r) = [sample_frame]"
    using valid t
    by (auto simp: pump_def pump_loop.simps [of "_ # _"] refill_def pop_def ClientSession_def empty_session_def encode_nonempty Let_def)
  from failed_send_keeps_backlog [OF valid _ r(1,2), of True sample_client_os 1 sample_frame] r(3) show ?thesis by auto
qed

section \<open>Properties\<close>

text \<open>
  C20: No frame waits without a wakeup. Whatever the publishers do, however their steps fall between
  those of the I/O thread and of a thread that calls \<open>stop\<close>: while the I/O thread is in \<open>poll\<close> with a viewer
  attached and a frame in the queue, it asked for \<open>POLLOUT\<close>, or a byte is in the wake pipe, or a publisher is
  on its way through \<open>signal\<close>, or the stopping thread is about to write its byte. In particular a signal
  that a raised \<open>pending\<close> flag swallows, between the reads and the store of \<open>drain\<close>, is not lost.
\<close>
theorem frame_never_waits:
  assumes "handover_start h0" "0 < cap" "(handover_step cap n)\<^sup>*\<^sup>* h0 h"
    and "h_io h = InPoll out" "cs_valid (t_session (h_server h))" "fq_queue (t_queue (h_server h)) \<noteq> []"
  shows "out \<or> 0 < in_pipe (t_wake (h_server h)) \<or> h_stop h = WritingByte \<or> (\<exists>i < n. signals_soon (h_publisher h i))"
proof -
  have "ledger_ok h" "awake n h" using handover_reachable [OF assms(1,3,2)] by (simp_all add: handover_ok_def)
  then show ?thesis using assms(4-6) by (auto simp: awake_def signal_coming_def ledger_ok_def)
qed

text \<open>A viewer is attached, nothing to send; then a publisher pushes.\<close>

theorem frame_never_waits_witness:
  "\<exists>h. (handover_step 1 1)\<^sup>*\<^sup>* sample_handover h \<and> h_io h = InPoll False \<and> cs_valid (t_session (h_server h)) \<and>
     fq_queue (t_queue (h_server h)) \<noteq> [] \<and> (0 < in_pipe (t_wake (h_server h)) \<or> h_stop h = WritingByte \<or> signals_soon (h_publisher h 0))"
proof -
  have valid: "cs_valid (ClientSession (FileDescriptor 6))"
    by (simp add: ClientSession_def cs_valid_def FileDescriptor_def fd_valid_def)
  obtain h1 where h1: "(handover_step 1 1)\<^sup>*\<^sup>* sample_handover h1" "h_io h1 = Clearing" "t_client_connected (h_server h1)"
    "t_session (h_server h1) = ClientSession (FileDescriptor 6)" "t_running (h_server h1)" "\<not> t_stop_requested (h_server h1)"
    "length (fq_queue (t_queue (h_server h1))) < fq_capacity (t_queue (h_server h1))" "h_publisher h1 = (\<lambda>i. Outside)"
    using sample_connecting [of sample_handover] by auto
  obtain h2 where h2: "(handover_step 1 1)\<^sup>*\<^sup>* h1 h2" "h_io h2 = AtOutput" "t_session (h_server h2) = ClientSession (FileDescriptor 6)"
    "t_client_connected (h_server h2)" "t_running (h_server h2)" "fq_queue (t_queue (h_server h2)) = []"
    "0 < fq_capacity (t_queue (h_server h2))" "h_publisher h2 = (\<lambda>i. Outside)" "\<not> t_stop_requested (h_server h2)" "h_queued h2 = []"
    using clears_and_counts [OF h1(2,4,3), of 1 1] h1(5-8) by auto
  obtain r t where p: "pumps [] (h_server h2) = Some (r, t)" "p_result r \<noteq> Failed" "t_session t = ClientSession (FileDescriptor 6)"
    "t_client_connected t" "t_running t" "t_queue t = t_queue (h_server h2)" "\<not> t_stop_requested t"
    using h2(3-6,9) valid
    by (auto simp: pumps_def pump_def pump_loop.simps [of "[]"] refill_def pop_def no_progress_def ClientSession_def empty_session_def Let_def)
  define h3 where "h3 = (takes t h2)\<lparr>h_io := AtTest\<rparr>"
  have 3: "handover_step 1 1 h2 h3" unfolding h3_def
    by (rule io_accesses [OF outputs_viewer [OF h2(2) _ p(1,2)]]) (simp add: h2(3) valid)
  define h4 where "h4 = h3\<lparr>h_io := InPoll (asks_output t)\<rparr>"
  have 4: "handover_step 1 1 h3 h4" using io_accesses [OF enters_poll [of h3]] p(7) by (simp add: h3_def h4_def takes_def Let_def)
  have quiet: "\<not> asks_output t"
    using p(3,6) h2(6) by (simp add: asks_output_def pollEvents_def ClientSession_def empty_session_def queue_empty_def)
  have h4: "h_publisher h4 0 = Outside" "t_client_connected (h_server h4)" "t_running (h_server h4)" "ledger_ok h4"
    "length (fq_queue (t_queue (h_server h4))) < fq_capacity (t_queue (h_server h4))" "h_io h4 = InPoll False"
    "t_session (h_server h4) = ClientSession (FileDescriptor 6)"
    using p(3-6) h2(6-8,10) quiet by (simp_all add: h3_def h4_def takes_def ledger_ok_def Let_def)
  obtain h5 where h5: "(handover_step 1 1)\<^sup>*\<^sup>* h4 h5" "h_io h5 = InPoll False" "t_session (h_server h5) = ClientSession (FileDescriptor 6)"
    "h_queued h5 \<noteq> []" "ledger_ok h5"
    using publisher_publishes [of 0 1 h4 1, OF _ h4(1-5)] h4(6,7) by auto
  have reach: "(handover_step 1 1)\<^sup>*\<^sup>* sample_handover h5"
    using h1(1) h2(1) 3 4 h5(1) by (meson rtranclp.rtrancl_into_rtrancl rtranclp_trans)
  have "fq_queue (t_queue (h_server h5)) \<noteq> []" using h5(4,5) by (auto simp: ledger_ok_def)
  with frame_never_waits [OF sample_handover_start _ reach h5(2)] reach h5(2,3) valid show ?thesis by fastforce
qed

text \<open>
  C21: How old a viewer's frames can be. Of the frames sent to the viewer, being sent or queued for it,
  at most one for each publishing thread comes from a \<open>publish\<close> that had begun before the viewer's
  connection was accepted: one in all in this program, where only the acquisition thread publishes.
\<close>
theorem viewer_freshness:
  assumes "handover_start h0" "0 < cap" "(handover_step cap n)\<^sup>*\<^sup>* h0 h" "\<not> accepting (h_io h)"
  shows "length (filter (\<lambda>born. born < h_accepted h) (h_taken h @ h_queued h)) \<le> n \<and>
    length (h_queued h) = length (fq_queue (t_queue (h_server h)))"
  using handover_reachable [OF assms(1,3,2)] assms(4) by (simp add: handover_ok_def fresh_enough_def ledger_ok_def stale_def)

text \<open>The bound is attained: a \<open>publish\<close> that began before the viewer came finds it connected, and pushes after the clearing.\<close>

theorem viewer_freshness_witness:
  "\<exists>h. (handover_step 1 1)\<^sup>*\<^sup>* sample_handover h \<and> h_accepted h = 1 \<and> h_queued h = [0] \<and> length (fq_queue (t_queue (h_server h))) = 1 \<and>
     length (filter (\<lambda>born. born < h_accepted h) (h_taken h @ h_queued h)) = 1"
proof -
  let ?h0 = "publisher_moves 0 (Counted default_frame 0) (publish_count sample_server) sample_handover"
  have 0: "handover_step 1 1 sample_handover ?h0"
    using publisher_accesses [OF publish_begins [where i = 0 and n = 1 and h = sample_handover and frame = default_frame and cap = 1]] by simp
  have "h_server ?h0 = publish_count sample_server" "h_io ?h0 = AtTest" "h_queued ?h0 = []" "h_accepted ?h0 = 0"
    "h_publisher ?h0 = (\<lambda>i. Outside)(0 := Counted default_frame 0)" by (simp_all add: publisher_moves_def)
  then obtain h1 where h1: "(handover_step 1 1)\<^sup>*\<^sup>* ?h0 h1" "h_io h1 = Clearing" "t_client_connected (h_server h1)"
    "t_session (h_server h1) = ClientSession (FileDescriptor 6)" "t_running (h_server h1)" "h_accepted h1 = 1"
    "h_publisher h1 = (\<lambda>i. Outside)(0 := Counted default_frame 0)"
    "length (fq_queue (t_queue (h_server h1))) < fq_capacity (t_queue (h_server h1))"
    using sample_connecting [of ?h0] by auto
  define h2 where "h2 = h1\<lparr>h_publisher := (h_publisher h1)(0 := Committed default_frame 0)\<rparr>"
  have 2: "(handover_step 1 1)\<^sup>*\<^sup>* h1 h2" unfolding h2_def by (rule publisher_commits) (use h1 in simp_all)
  obtain h3 where h3: "(handover_step 1 1)\<^sup>*\<^sup>* h2 h3" "h_io h3 = AtOutput" "fq_queue (t_queue (h_server h3)) = []"
    "fq_capacity (t_queue (h_server h3)) = fq_capacity (t_queue (h_server h1))" "h_publisher h3 0 = Committed default_frame 0"
    "h_accepted h3 = 1" "h_queued h3 = []"
    using clears_and_counts [of h2 1 1] h1(2-6) by (auto simp: h2_def)
  have room: "length (fq_queue (t_queue (h_server h3))) < fq_capacity (t_queue (h_server h3))" using h3(3,4) h1(8) by simp
  note push = publisher_pushes(1) [where n = 1 and cap = 1, OF _ h3(5) room] publisher_pushes(3) [where n = 1, OF _ h3(5) room]
  let ?h = "pushes 0 default_frame 0 h3"
  have "ledger_ok h3" using h3(3,7) room by (simp add: ledger_ok_def)
  note e = pushes_effect [OF this, of 0 default_frame 0]
  have reach: "(handover_step 1 1)\<^sup>*\<^sup>* sample_handover ?h"
    using 0 h1(1) 2 h3(1) push(1) by (meson converse_rtranclp_into_rtranclp rtranclp.rtrancl_into_rtrancl rtranclp_trans zero_less_one)
  have "\<not> accepting (h_io ?h)" using e(1) h3(2) by simp
  note bound = viewer_freshness [OF sample_handover_start _ reach this]
  have queued: "h_queued ?h = [0]" "h_accepted ?h = 1" using push(2) h3(6,7) e(8) by simp_all
  then have "1 \<le> length (filter (\<lambda>born. born < h_accepted ?h) (h_taken ?h @ h_queued ?h))" by simp
  with conjunct1 [OF bound] have "length (filter (\<lambda>born. born < h_accepted ?h) (h_taken ?h @ h_queued ?h)) = 1" by linarith
  moreover have "length (fq_queue (t_queue (h_server ?h))) = 1" using conjunct2 [OF bound] queued(1) by simp
  ultimately show ?thesis using reach queued by blast
qed

text \<open>
  C22: The counters at any moment, between any two accesses. A published frame is dropped and counted,
  or taken for sending, or cleared, or in the queue, or in the hands of its publisher; nothing else
  happens to it, and it is in one place only.
\<close>
theorem frames_accounted:
  assumes "handover_start h0" "0 < cap" "(handover_step cap n)\<^sup>*\<^sup>* h0 h"
  shows "st_frames_published (t_stats (h_server h)) = st_frames_dropped (t_stats (h_server h)) +
      word_of_nat (h_sent h + h_cleared h + length (fq_queue (t_queue (h_server h))) + (\<Sum>i < n. in_flight (h_publisher h i)))"
  using handover_reachable [OF assms(1,3,2)] by (simp add: handover_ok_def accounted_def ledger_ok_def)

text \<open>After one \<open>publish\<close> during the connection of a viewer, and the clearing that follows.\<close>

theorem frames_accounted_witness:
  "\<exists>h. (handover_step 1 1)\<^sup>*\<^sup>* sample_handover h \<and> st_frames_published (t_stats (h_server h)) = 1 \<and>
     st_frames_dropped (t_stats (h_server h)) = 0 \<and> h_sent h = 0 \<and> (word_of_nat (h_cleared h) :: u64) = 1"
proof -
  obtain h where h: "(handover_step 1 1)\<^sup>*\<^sup>* sample_handover h" "fq_queue (t_queue (h_server h)) = []"
    "h_publisher h = (\<lambda>i. Outside)" "st_frames_published (t_stats (h_server h)) = 1" "st_frames_dropped (t_stats (h_server h)) = 0" "h_sent h = 0"
    using sample_loses by blast
  from frames_accounted [OF sample_handover_start _ h(1)] have "(1 :: u64) = word_of_nat (h_cleared h)"
    using h(2-6) by simp
  with h show ?thesis by (intro exI [of _ h]) simp
qed

text \<open>
  C23: A frame can vanish at the handover. Between the store of \<open>client_connected\<close> and the clearing of the
  queue a publisher finds a viewer, pushes its frame into a queue with room and signals; the clearing then
  discards the frame, which was published after the viewer connected. No counter records it. The
  documentation of \<open>publish\<close> knows two reasons to discard a frame, no client and a full queue, both counted.
\<close>
theorem handover_loses_frame:
  "\<exists>h1 h2. (handover_step 1 1)\<^sup>*\<^sup>* sample_handover h1 \<and> hasClient (h_server h1) \<and> h_publisher h1 = (\<lambda>i. Outside) \<and>
     st_frames_published (t_stats (h_server h1)) = 0 \<and> (handover_step 1 1)\<^sup>*\<^sup>* h1 h2 \<and> hasClient (h_server h2) \<and>
     h_publisher h2 = (\<lambda>i. Outside) \<and> st_frames_published (t_stats (h_server h2)) = 1 \<and>
     st_frames_dropped (t_stats (h_server h2)) = 0 \<and> h_sent h2 = 0 \<and> fq_queue (t_queue (h_server h2)) = []"
  unfolding hasClient_def by (rule sample_loses_frame)

end
