(* ===== verification/SignalWaiter.thy ===== *)
theory SignalWaiter
  imports Posix "HOL-Library.Signed_Division"
begin

text \<open>
  Termination signals, \<open>app/SignalWaiter.cpp\<close>: the mask installed by the constructor, and \<open>waitFor\<close>,
  whose calls of \<open>sigtimedwait\<close> take their answers from a script; a positive answer is the number of a
  pending signal of the mask. The numbers are those of Linux. The width of \<open>long\<close> is an argument: the
  board the documentation names, a Raspberry Pi Zero W, has 32 bits, a development machine 64.
\<close>

section \<open>Code\<close>

definition SIGINT :: int where "SIGINT = 2"
definition SIGPIPE :: int where "SIGPIPE = 13"
definition SIGTERM :: int where "SIGTERM = 15"

definition kNanosPerMilli :: int where
  "kNanosPerMilli = 1000000"

definition kMillisPerSecond :: int where
  "kMillisPerSecond = 1000"

record signal_waiter =
  sw_mask :: "int set"
  sw_previous :: "int set"
  sw_installed :: bool

text \<open>The constructor: the object, and the signals the process blocks after it.\<close>

definition SignalWaiter :: "bool \<Rightarrow> int set \<Rightarrow> signal_waiter \<times> int set" where
  "SignalWaiter sigmask_ok blocked =
     (let mask = {SIGINT, SIGTERM, SIGPIPE}
      in (\<lparr>sw_mask = mask, sw_previous = (if sigmask_ok then blocked else {}), sw_installed = sigmask_ok\<rparr>,
          if sigmask_ok then blocked \<union> mask else blocked))"

text \<open>The destructor.\<close>

definition sw_destroy :: "signal_waiter \<Rightarrow> int set \<Rightarrow> int set" where
  "sw_destroy w blocked = (if sw_installed w then sw_previous w else blocked)"

definition sw_valid :: "signal_waiter \<Rightarrow> bool" where
  "sw_valid w \<longleftrightarrow> sw_installed w"

record timespec =
  tv_sec :: int
  tv_nsec :: int

text \<open>The conversion to \<open>long\<close> keeps the low bits; division and remainder round towards zero.\<close>

definition timespec_of :: "nat \<Rightarrow> int \<Rightarrow> timespec" where
  "timespec_of bits timeout =
     (let millis = signed_take_bit (bits - 1) (if timeout < 0 then 0 else timeout)
      in \<lparr>tv_sec = millis sdiv kMillisPerSecond, tv_nsec = (millis smod kMillisPerSecond) * kNanosPerMilli\<rparr>)"

text \<open>The loop: the result, and the timeout given to each call of \<open>sigtimedwait\<close>.\<close>

fun wait_loop :: "timespec \<Rightarrow> (int \<times> errno) list \<Rightarrow> (int \<times> timespec list) option" where
  "wait_loop ts [] = None"
| "wait_loop ts ((signal_number, err) # script) =
     (if 0 < signal_number
      then if signal_number = SIGPIPE then map_option (\<lambda>(n, waits). (n, ts # waits)) (wait_loop ts script)
           else Some (signal_number, [ts])
      else if err = EINTR then map_option (\<lambda>(n, waits). (n, ts # waits)) (wait_loop ts script)
      else Some (0, [ts]))"

definition waitFor :: "nat \<Rightarrow> signal_waiter \<Rightarrow> int \<Rightarrow> (int \<times> errno) list \<Rightarrow> (int \<times> timespec list) option" where
  "waitFor bits w timeout script =
     (if \<not> sw_installed w then Some (0, []) else wait_loop (timespec_of bits timeout) script)"

section \<open>Properties\<close>

text \<open>The answers \<open>sigtimedwait\<close> can give for a mask.\<close>

definition from_mask :: "signal_waiter \<Rightarrow> (int \<times> errno) list \<Rightarrow> bool" where
  "from_mask w script \<longleftrightarrow> (\<forall>(n, err) \<in> set script. 0 < n \<longrightarrow> n \<in> sw_mask w)"

text \<open>An answer after which the loop goes round again.\<close>

definition absorbed :: "int \<times> errno \<Rightarrow> bool" where
  "absorbed a \<longleftrightarrow> fst a = SIGPIPE \<or> (fst a \<le> 0 \<and> snd a = EINTR)"

lemma wait_loop_skips:
  "\<forall>a \<in> set as. absorbed a \<Longrightarrow>
   wait_loop ts (as @ script) = map_option (\<lambda>(n, waits). (n, replicate (length as) ts @ waits)) (wait_loop ts script)"
  by (induction as) (auto simp: absorbed_def SIGPIPE_def option.map_comp comp_def split_def option.map_ident)

lemma wait_loop_ends:
  "\<not> absorbed a \<Longrightarrow> wait_loop ts (a # script) = Some (if 0 < fst a then fst a else 0, [ts])"
  by (cases a) (auto simp: absorbed_def SIGPIPE_def)

lemma timespec_of_exact:
  assumes "timeout < 2 ^ (bits - 1)"
  shows "0 \<le> tv_nsec (timespec_of bits timeout)" "tv_nsec (timespec_of bits timeout) < 1000000000"
    "tv_sec (timespec_of bits timeout) * 1000000000 + tv_nsec (timespec_of bits timeout) = max 0 timeout * 1000000"
proof -
  define m where "m = (if timeout < 0 then 0 else timeout)"
  have m: "0 \<le> m" "m < 2 ^ (bits - 1)" "m = max 0 timeout" using assms by (auto simp: m_def)
  then have "signed_take_bit (bits - 1) m = m" by (intro signed_take_bit_int_eq_self order_trans [OF _ m(1)]) simp_all
  then have ts: "timespec_of bits timeout = \<lparr>tv_sec = m sdiv 1000, tv_nsec = (m smod 1000) * 1000000\<rparr>"
    by (simp add: timespec_of_def m_def kMillisPerSecond_def kNanosPerMilli_def)
  have "m smod 1000 = m mod 1000" using m(1) by (cases "m = 0") (simp_all add: signed_modulo_int_def)
  then have r: "0 \<le> m smod 1000" "m smod 1000 < 1000" by simp_all
  moreover have "m sdiv 1000 * 1000000000 + m smod 1000 * 1000000 = m * 1000000"
    using sdiv_mult_smod_eq [of m 1000] by linarith
  ultimately show "0 \<le> tv_nsec (timespec_of bits timeout)" "tv_nsec (timespec_of bits timeout) < 1000000000"
    "tv_sec (timespec_of bits timeout) * 1000000000 + tv_nsec (timespec_of bits timeout) = max 0 timeout * 1000000"
    unfolding ts by (simp_all add: m(3) [symmetric])
qed

lemma timespec_of_wrapped:
  assumes "0 < bits" "2 ^ (bits - 1) \<le> timeout" "timeout < 2 ^ bits"
  shows "tv_sec (timespec_of bits timeout) < 0 \<or> tv_nsec (timespec_of bits timeout) < 0"
proof -
  obtain n where n: "bits = Suc n" using assms(1) by (cases bits) auto
  have t: "2 ^ n \<le> timeout" "timeout < 2 * 2 ^ n" "\<not> timeout < 0"
    using assms(2,3) zero_le_power [of "2 :: int" n] by (simp_all add: n)
  have "take_bit (Suc n) (timeout + 2 ^ n) = timeout - 2 ^ n"
    using t mod_pos_pos_trivial [of "timeout - 2 ^ n" "2 * 2 ^ n"] mod_add_self2 [of "timeout - 2 ^ n" "2 * 2 ^ n"]
    by (simp add: take_bit_eq_mod algebra_simps)
  then have m: "signed_take_bit n timeout = timeout - 2 * 2 ^ n" by (simp add: signed_take_bit_eq_take_bit_shift)
  define m where "m = timeout - 2 * 2 ^ n"
  have neg: "m < 0" using t(2) by (simp add: m_def)
  have ts: "timespec_of bits timeout = \<lparr>tv_sec = m sdiv 1000, tv_nsec = (m smod 1000) * 1000000\<rparr>"
    using t(3) m by (simp add: timespec_of_def n m_def kMillisPerSecond_def kNanosPerMilli_def Let_def)
  have "m sdiv 1000 < 0 \<or> m smod 1000 < 0" using sdiv_mult_smod_eq [of m 1000] neg by linarith
  then show ?thesis unfolding ts by auto
qed

text \<open>
  C37: Waiting for a signal. Whatever number of \<open>SIGPIPE\<close> signals and interruptions come first, each is
  absorbed and the next answer decides: a termination signal is returned, and the end of the timeout is 0,
  so a disconnecting viewer never ends the node. But each absorbed answer starts the whole timeout again:
  the wait is bounded only by the timeout times the number of answers. A timeout whose milliseconds fit
  \<open>long\<close> is split into a valid \<open>timespec\<close> without loss; one that needs the sign bit, from about 24.8 days on
  where \<open>long\<close> has 32 bits, becomes a negative time, which \<open>sigtimedwait\<close> refuses at once.
\<close>
theorem wait_outcome:
  assumes "sw_installed w" "w = fst (SignalWaiter ok blocked)" "\<forall>a \<in> set early. absorbed a" "\<not> absorbed decisive"
    and "from_mask w (early @ decisive # rest)" "0 < bits"
  shows "\<exists>n. waitFor bits w timeout (early @ decisive # rest) = Some (n, replicate (Suc (length early)) (timespec_of bits timeout)) \<and>
    n \<in> {0, SIGINT, SIGTERM} \<and> (n \<noteq> 0 \<longleftrightarrow> 0 < fst decisive) \<and> (n \<noteq> 0 \<longrightarrow> n = fst decisive) \<and>
    (timeout < 2 ^ (bits - 1) \<longrightarrow> 0 \<le> tv_nsec (timespec_of bits timeout) \<and> tv_nsec (timespec_of bits timeout) < 1000000000 \<and>
       tv_sec (timespec_of bits timeout) * 1000000000 + tv_nsec (timespec_of bits timeout) = max 0 timeout * 1000000) \<and>
    (2 ^ (bits - 1) \<le> timeout \<and> timeout < 2 ^ bits \<longrightarrow>
       tv_sec (timespec_of bits timeout) < 0 \<or> tv_nsec (timespec_of bits timeout) < 0)"
proof -
  let ?n = "if 0 < fst decisive then fst decisive else 0" and ?ts = "timespec_of bits timeout"
  have "waitFor bits w timeout (early @ decisive # rest) = Some (?n, replicate (length early) ?ts @ [?ts])"
    using assms(1,3,4) by (simp add: waitFor_def wait_loop_skips wait_loop_ends)
  moreover have "replicate (length early) ?ts @ [?ts] = replicate (Suc (length early)) ?ts"
    by (simp add: replicate_append_same)
  moreover have "?n \<in> {0, SIGINT, SIGTERM}"
    using assms(2,4,5) by (cases decisive) (auto simp: from_mask_def SignalWaiter_def absorbed_def Let_def)
  ultimately show ?thesis
    using timespec_of_exact [of timeout bits] timespec_of_wrapped [OF assms(6), of timeout] by (intro exI [of _ ?n]) simp
qed

text \<open>One and a half seconds, and the longest health interval of 32-bit milliseconds.\<close>

theorem wait_outcome_witness:
  "waitFor 32 (fst (SignalWaiter True {})) 1500 [(SIGPIPE, EAGAIN), (- 1, EINTR), (SIGTERM, EAGAIN)] =
     Some (SIGTERM, replicate 3 \<lparr>tv_sec = 1, tv_nsec = 500000000\<rparr>) \<and>
   (tv_sec (timespec_of 32 4294967000) < 0 \<or> tv_nsec (timespec_of 32 4294967000) < 0)"
proof -
  have "signed_take_bit 31 (1500 :: int) = 1500" by (rule signed_take_bit_int_eq_self) simp_all
  then have "timespec_of 32 1500 = \<lparr>tv_sec = 1, tv_nsec = 500000000\<rparr>"
    by (simp add: timespec_of_def kMillisPerSecond_def kNanosPerMilli_def signed_divide_int_def signed_modulo_int_def)
  with wait_outcome [of "fst (SignalWaiter True {})" True "{}" "[(SIGPIPE, EAGAIN), (- 1, EINTR)]" "(SIGTERM, EAGAIN)" "[]" 32 1500]
    wait_outcome [of "fst (SignalWaiter True {})" True "{}" "[]" "(SIGTERM, EAGAIN)" "[]" 32 4294967000]
  show ?thesis
    by (auto simp: absorbed_def SIGPIPE_def SIGTERM_def from_mask_def SignalWaiter_def Let_def numeral_3_eq_3)
qed

end
