(* ===== verification/Application.thy ===== *)
theory Application
  imports CommandLine Lidar CanBus TcpServer SignalWaiter
begin

text \<open>
  The composition root, \<open>app/Application.cpp\<close> and \<open>app/main.cpp\<close>: what the frame callback does with a
  revolution, the three \<open>start\<close> functions, the supervision loop one round at a time, the health report,
  and \<open>shutdown\<close>. The main thread is a function from its place in \<open>run\<close> to the next one; it may have to
  wait for a thread it joins. The console is the list of the lines written to the two standard streams.
\<close>

section \<open>What the callback can reach\<close>

text \<open>
  The streaming server, the frames handed to the CAN socket, the lines on standard output and standard
  error in their order, each without its line end, and whether undefined behaviour was met, after which
  nothing is claimed.
\<close>

datatype console_line = Cout string | Cerr string

record outlets =
  o_tcp :: tcp_server
  o_can_sent :: "can_frame list"
  o_console :: "console_line list"
  o_undefined :: bool

definition kBrakeCanId :: u32 where "kBrakeCanId = 0x080"
definition kBrakeDisengage :: u8 where "kBrakeDisengage = 1"
definition kBrakeEngage :: u8 where "kBrakeEngage = 2"

definition any_obstacle :: "detection_result \<Rightarrow> bool" where
  "any_obstacle result \<longleftrightarrow>
     obstacle_detected (left result) \<or> obstacle_detected (left_center result) \<or>
     obstacle_detected (center result) \<or> obstacle_detected (right_center result) \<or>
     obstacle_detected (right result)"

definition brake_message :: "bool \<Rightarrow> can_message" where
  "brake_message obstacle =
     (let msg = default_message\<lparr>msg_id := kBrakeCanId, msg_dlc := 1\<rparr>
      in msg\<lparr>msg_data := (msg_data msg)[0 := if obstacle then kBrakeEngage else kBrakeDisengage]\<rparr>)"

definition verdict_line :: "bool \<Rightarrow> detection_result \<Rightarrow> string" where
  "verdict_line obstacle result =
     (if obstacle then ''BRAKE  '' else ''clear  '') @ ''pts='' @ to_string (unat (total_points result)) @
     '' filt='' @ to_string (unat (quality_filtered_points result))"

text \<open>
  The callback given to \<open>Lidar::start\<close>; it throws nothing itself. After \<open>publish\<close>, between whose pieces
  the I/O thread may run, it touches nothing another thread does: the detector runs, the command goes out,
  the verdict is printed. The result of \<open>send\<close> is not used.
\<close>

definition decide :: "can_kernel \<Rightarrow> options \<Rightarrow> can_bus \<Rightarrow> scan_frame \<Rightarrow> outlets \<Rightarrow> outlets" where
  "decide k options can frame out =
     (case process (o_perception options) frame of
        None \<Rightarrow> out\<lparr>o_undefined := True\<rparr>
      | Some result \<Rightarrow>
          let obstacle = any_obstacle result;
              out = (if o_no_can options then out
                     else case can_send k can (brake_message obstacle) of
                       (Some f, _) \<Rightarrow> out\<lparr>o_can_sent := o_can_sent out @ [f]\<rparr>
                     | (None, _) \<Rightarrow> out)
          in out\<lparr>o_console := o_console out @ [Cout (verdict_line obstacle result)]\<rparr>)"

definition on_frame ::
  "nat \<Rightarrow> can_kernel \<Rightarrow> options \<Rightarrow> can_bus \<Rightarrow> scan_frame \<Rightarrow> outlets \<Rightarrow> bool \<times> outlets" where
  "on_frame cap k options can frame out =
     (if o_undefined out then (False, out)
      else (False, decide k options can frame (out\<lparr>o_tcp := publish cap frame (o_tcp out)\<rparr>)))"

section \<open>The object\<close>

text \<open>
  Where the main thread is: before one of the four steps of start-up, in the supervision loop, in
  \<open>shutdown\<close> with the exit code it will return, called by \<open>run\<close> after a failed start or after the
  supervision, or by the destructor; or done.
\<close>

datatype stage = StopLidar | JoinLidar | StopTcp | JoinTcp
datatype caller = FromStart | FromRun | FromDestructor
datatype phase = AtSignals | AtCan | AtTcp | AtLidar | Supervising | Shutting caller stage int | Exited int

text \<open>
  \<open>a_failures\<close> is the local counter of the acquisition thread; \<open>a_destroyed\<close> are the lidar objects whose
  destructor has run, as it left them.
\<close>

record application =
  a_options :: options
  a_can :: can_bus
  a_lidar :: "lidar option"
  a_failures :: u32
  a_destroyed :: "lidar list"
  a_reported :: u64
  a_waiter :: signal_waiter
  a_blocked :: "int set"
  a_out :: outlets
  a_phase :: phase

definition Application :: "options \<Rightarrow> application" where
  "Application options =
     \<lparr>a_options = options, a_can = CanBus (o_canbus options), a_lidar = None, a_failures = 0, a_destroyed = [],
      a_reported = 0, a_waiter = \<lparr>sw_mask = {}, sw_previous = {}, sw_installed = False\<rparr>, a_blocked = {},
      a_out = \<lparr>o_tcp = TcpServer (o_tcp_server options), o_can_sent = [], o_console = [], o_undefined = False\<rparr>,
      a_phase = AtSignals\<rparr>"

abbreviation a_tcp :: "application \<Rightarrow> tcp_server" where
  "a_tcp a \<equiv> o_tcp (a_out a)"

definition set_tcp :: "tcp_server \<Rightarrow> application \<Rightarrow> application" where
  "set_tcp t a = a\<lparr>a_out := (a_out a)\<lparr>o_tcp := t\<rparr>\<rparr>"

definition say :: "console_line \<Rightarrow> application \<Rightarrow> application" where
  "say line a = a\<lparr>a_out := (a_out a)\<lparr>o_console := o_console (a_out a) @ [line]\<rparr>\<rparr>"

definition kExitSuccess :: int where "kExitSuccess = 0"
definition kExitFailure :: int where "kExitFailure = 1"
definition kIdleTick :: int where "kIdleTick = 1000"

section \<open>The messages of the main thread\<close>

definition no_signals_line :: console_line where
  "no_signals_line = Cerr ''fatal: unable to install signal mask''"

definition viewer_only_line :: console_line where
  "viewer_only_line = Cout ''aeb_node: CAN disabled (--no-can), running in viewer-only mode''"

definition can_line :: "bool \<Rightarrow> application \<Rightarrow> console_line" where
  "can_line open_ok a =
     (if \<not> open_ok then Cerr (''fatal: CanBus::open failed: '' @ can_lastError (a_can a))
      else Cout (''aeb_node: CAN interface '' @ o_canbus (a_options a) @ '' open''))"

definition tcp_line :: "bool \<Rightarrow> application \<Rightarrow> console_line" where
  "tcp_line started a =
     (if \<not> started then Cerr (''fatal: TcpServer::start failed: '' @ tcp_lastError (a_tcp a))
      else Cout (''aeb_node: TCP visualisation server listening on port '' @
             to_string (unat (port (o_tcp_server (a_options a))))))"

definition lidar_line :: "bool \<Rightarrow> lidar \<Rightarrow> application \<Rightarrow> console_line" where
  "lidar_line started l a =
     (if \<not> started then Cerr (''fatal: Lidar::start failed: '' @ lidar_lastError l)
      else Cout (''aeb_node: acquiring from '' @ serial_port (o_lidar (a_options a)) @ '' @ '' @
             to_string (unat (baudrate (o_lidar (a_options a)))) @ '' baud''))"

definition int_to_string :: "int \<Rightarrow> string" where
  "int_to_string n = (if n < 0 then ''-'' @ to_string (nat (- n)) else to_string (nat n))"

definition signal_line :: "int \<Rightarrow> console_line" where
  "signal_line signal_number = Cout (''aeb_node: received signal '' @ int_to_string signal_number @ '', shutting down'')"

definition sensor_line :: "lidar \<Rightarrow> console_line" where
  "sensor_line l = Cerr (''fatal: acquisition stopped: '' @ lidar_lastError l)"

definition stopped_line :: console_line where
  "stopped_line = Cout ''aeb_node: stopped''"

section \<open>Start-up\<close>

definition startCanBus :: "can_kernel \<Rightarrow> application \<Rightarrow> os \<Rightarrow> bool \<times> application \<times> os" where
  "startCanBus k a os =
     (if o_no_can (a_options a)
      then (True, say viewer_only_line a, os)
      else case can_open k (a_can a) os of (ok, can, os) \<Rightarrow>
        let a = a\<lparr>a_can := can\<rparr> in (ok, say (can_line ok a) a, os))"

definition startTcpServer :: "start_kernel \<Rightarrow> application \<Rightarrow> os \<Rightarrow> (bool \<times> application \<times> os) option" where
  "startTcpServer k a os =
     map_option (\<lambda>(started, t, os). let a = set_tcp t a in (started, say (tcp_line started a) a, os))
       (tcp_start k (a_tcp a) os)"

text \<open>The destructor of \<open>Lidar\<close> is \<open>stop\<close>; a lidar that could not start has no thread to join.\<close>

definition startLidar :: "sdk \<Rightarrow> string option \<Rightarrow> application \<Rightarrow> (bool \<times> application) option" where
  "startLidar s spawn_error a =
     (case lidar_start s spawn_error True (Lidar (o_lidar (a_options a))) of
        None \<Rightarrow> None
      | Some (started, l) \<Rightarrow>
          if \<not> started
          then Some (False, say (lidar_line started l a)
                 (a\<lparr>a_lidar := None, a_destroyed := a_destroyed a @ [lidar_destroy l]\<rparr>))
          else Some (True, say (lidar_line started l a) (a\<lparr>a_lidar := Some l, a_failures := 0\<rparr>)))"

section \<open>Supervision\<close>

text \<open>The product is computed in \<open>unsigned\<close>, 32 bits wide, before it becomes milliseconds.\<close>

definition tick :: "options \<Rightarrow> int" where
  "tick options =
     (if 0 < o_health_interval_s options then uint (o_health_interval_s options * 1000) else kIdleTick)"

definition health_line :: "lidar \<Rightarrow> application \<Rightarrow> u64 \<Rightarrow> string" where
  "health_line l a new_errors =
     (let s = lidar_statistics l; tcp = tcp_statistics (a_tcp a) in
      ''health: frames='' @ to_string (unat (frames_delivered s)) @ '' errors='' @ to_string (unat (read_errors s)) @
      '' empty='' @ to_string (unat (empty_frames s)) @ '' connects='' @ to_string (unat (connects s)) @
      '' can='' @ (if o_no_can (a_options a) then ''disabled'' else if isOpen (a_can a) then ''open'' else ''closed'') @
      '' tcp_client='' @ (if st_client_connected tcp then ''connected'' else ''waiting'') @
      (if new_errors \<noteq> 0 \<and> lidar_lastError l \<noteq> []
       then [CHR 0x0A] @ ''  '' @ to_string (unat new_errors) @ '' new error(s), last: '' @ lidar_lastError l else []))"

definition reportHealth :: "lidar \<Rightarrow> application \<Rightarrow> application" where
  "reportHealth l a =
     (let s = lidar_statistics l; new_errors = read_errors s - a_reported a; a = a\<lparr>a_reported := read_errors s\<rparr>
      in say (Cout (health_line l a new_errors)) a)"

text \<open>One round of the loop, after \<open>waitFor\<close>: the exit code, if the loop ends, and the object.\<close>

definition supervise_round :: "int \<Rightarrow> lidar \<Rightarrow> application \<Rightarrow> int option \<times> application" where
  "supervise_round signal_number l a =
     (if signal_number \<noteq> 0
      then (Some kExitSuccess, say (signal_line signal_number) a)
      else if \<not> lidar_isRunning l then (Some kExitFailure, say (sensor_line l) a)
      else (None, if 0 < o_health_interval_s (a_options a) then reportHealth l a else a))"

section \<open>Shutdown\<close>

definition stop_lidar :: "application \<Rightarrow> application" where
  "stop_lidar a = a\<lparr>a_lidar := map_option stop_request (a_lidar a)\<rparr>"

text \<open>The rest of \<open>Lidar::stop\<close> after the join, and the destructor with its own \<open>stop\<close>.\<close>

definition release_lidar :: "application \<Rightarrow> application" where
  "release_lidar a = (case a_lidar a of
     None \<Rightarrow> a
   | Some l \<Rightarrow> a\<lparr>a_lidar := None, a_destroyed := a_destroyed a @ [lidar_destroy (stop_finish l)]\<rparr>)"

definition stop_tcp :: "nat \<Rightarrow> application \<Rightarrow> application" where
  "stop_tcp cap a = set_tcp (tcp_stop_request cap (a_tcp a)) a"

definition release_tcp_and_can :: "application \<Rightarrow> os \<Rightarrow> application \<times> os" where
  "release_tcp_and_can a os =
     (case tcp_stop_finish (a_tcp a) os of (t, os) \<Rightarrow>
        (case can_close (a_can a) os of (can, os) \<Rightarrow> ((set_tcp t a)\<lparr>a_can := can\<rparr>, os)))"

section \<open>The main thread\<close>

text \<open>What the environment answers to the main thread in one step of it; \<open>mi_long\<close> is the width of \<open>long\<close>.\<close>

record main_input =
  mi_sigmask :: bool
  mi_can :: can_kernel
  mi_tcp :: start_kernel
  mi_sdk :: sdk
  mi_spawn_error :: "string option"
  mi_wait :: "(int \<times> errno) list"
  mi_long :: nat

text \<open>
  One step: on to the next place, waiting (for the join of a thread that still runs, or in \<open>waitFor\<close>), or
  \<open>std::terminate\<close>.
\<close>

datatype main_result = Goes application os | Waits | Terminates

definition at :: "phase \<Rightarrow> application \<Rightarrow> application" where
  "at p a = a\<lparr>a_phase := p\<rparr>"

text \<open>Returning from \<open>run\<close> destroys the waiter; the destructor of the application follows.\<close>

definition leave_run :: "int \<Rightarrow> application \<Rightarrow> application" where
  "leave_run code a =
     at (Shutting FromDestructor StopLidar code) (a\<lparr>a_blocked := sw_destroy (a_waiter a) (a_blocked a)\<rparr>)"

text \<open>What follows a call of \<open>shutdown\<close>.\<close>

fun after_shutdown :: "caller \<Rightarrow> int \<Rightarrow> application \<Rightarrow> application" where
  "after_shutdown FromStart code a = leave_run code a"
| "after_shutdown FromRun code a = leave_run code (say stopped_line a)"
| "after_shutdown FromDestructor code a = at (Exited code) a"

fun main_step :: "nat \<Rightarrow> main_input \<Rightarrow> phase \<Rightarrow> application \<Rightarrow> os \<Rightarrow> main_result" where
  "main_step cap mi AtSignals a os =
     (case SignalWaiter (mi_sigmask mi) (a_blocked a) of (w, blocked) \<Rightarrow>
        let a = a\<lparr>a_waiter := w, a_blocked := blocked\<rparr> in
        Goes (if sw_valid w then at AtCan a
              else leave_run kExitFailure (say no_signals_line a)) os)"
| "main_step cap mi AtCan a os =
     (case startCanBus (mi_can mi) a os of (ok, a, os) \<Rightarrow>
        Goes (if ok then at AtTcp a else leave_run kExitFailure a) os)"
| "main_step cap mi AtTcp a os =
     (case startTcpServer (mi_tcp mi) a os of None \<Rightarrow> Terminates
      | Some (ok, a, os) \<Rightarrow> Goes (at (if ok then AtLidar else Shutting FromStart StopLidar kExitFailure) a) os)"
| "main_step cap mi AtLidar a os =
     (case startLidar (mi_sdk mi) (mi_spawn_error mi) a of None \<Rightarrow> Terminates
      | Some (ok, a) \<Rightarrow> Goes (at (if ok then Supervising else Shutting FromStart StopLidar kExitFailure) a) os)"
| "main_step cap mi Supervising a os =
     (case (waitFor (mi_long mi) (a_waiter a) (tick (a_options a)) (mi_wait mi), a_lidar a) of
        (Some (n, _), Some l) \<Rightarrow>
          (case supervise_round n l a of
             (Some code, a) \<Rightarrow> Goes (at (Shutting FromRun StopLidar code) a) os
           | (None, a) \<Rightarrow> Goes a os)
      | _ \<Rightarrow> Waits)"
| "main_step cap mi (Shutting c StopLidar code) a os =
     (let a = stop_lidar a
      in Goes (at (Shutting c (if a_lidar a = None then StopTcp else JoinLidar) code) a) os)"
| "main_step cap mi (Shutting c JoinLidar code) a os =
     (if (\<exists>l. a_lidar a = Some l \<and> l_worker l = Running) then Waits
      else Goes (at (Shutting c StopTcp code) (release_lidar a)) os)"
| "main_step cap mi (Shutting c StopTcp code) a os = Goes (at (Shutting c JoinTcp code) (stop_tcp cap a)) os"
| "main_step cap mi (Shutting c JoinTcp code) a os =
     (if t_worker (a_tcp a) = Running then Waits
      else case release_tcp_and_can a os of (a, os) \<Rightarrow>
        Goes (after_shutdown c code a) os)"
| "main_step cap mi (Exited code) a os = Waits"

text \<open>After the body of the destructor the members go, in the reverse of their order.\<close>

definition destroy_members :: "nat \<Rightarrow> application \<Rightarrow> os \<Rightarrow> application \<times> os" where
  "destroy_members cap a os =
     (a\<lparr>a_destroyed := a_destroyed a @ (case a_lidar a of None \<Rightarrow> [] | Some l \<Rightarrow> [lidar_destroy l])\<rparr>,
      can_destroy (a_can a) (tcp_destroy cap (a_tcp a) os))"

text \<open>
  \<open>main\<close>: the exit code and the text printed when the arguments do not start the node, or the object
  whose \<open>run\<close> decides the code.
\<close>

definition kExitUsage :: int where "kExitUsage = 2"
definition kExitHelp :: int where "kExitHelp = 0"

definition main :: "nat \<Rightarrow> string list \<Rightarrow> (int \<times> console_line list) + application" where
  "main bits argv = (case parse bits argv of
     (None, error, usage) \<Rightarrow>
       Inl (if error = [] then (kExitHelp, map Cout usage)
            else (kExitUsage, map Cout usage @ [Cerr (''error: '' @ error), Cerr ''Try --help'']))
   | (Some options, _, _) \<Rightarrow> Inr (Application options))"

end
