(* ===== verification/Node.thy ===== *)
theory Node
  imports Application SensorGeometry ServerInterleaving
begin

text \<open>
  The whole node: the main thread, the acquisition thread and the server's I/O thread interleaved over
  the application object and the descriptor table. The I/O thread takes one stage of its loop as a step,
  the main thread one step of \<open>run\<close>, and the acquisition thread one iteration of its loop, during whose
  call of \<open>publish\<close> the I/O thread runs on.
\<close>

section \<open>Interleavings\<close>

text \<open>What the kernel promises about the descriptors it returns, and \<open>sigtimedwait\<close> about signals.\<close>

definition fresh_main :: "main_input \<Rightarrow> application \<Rightarrow> os \<Rightarrow> bool" where
  "fresh_main mi a os \<longleftrightarrow>
     (a_phase a = AtCan \<longrightarrow> fresh_fd os (k_socket (mi_can mi))) \<and>
     (a_phase a = AtTcp \<longrightarrow> fresh_start (mi_tcp mi) (a_tcp a) os) \<and>
     (a_phase a = Supervising \<longrightarrow> from_mask (a_waiter a) (mi_wait mi))"

text \<open>A consumer that only records what it is given, and what the node's consumer makes of the record.\<close>

definition record_frame :: "scan_frame \<Rightarrow> scan_frame list \<Rightarrow> bool \<times> scan_frame list" where
  "record_frame f fs = (False, fs @ [f])"

inductive callbacks ::
  "nat \<Rightarrow> can_kernel \<Rightarrow> options \<Rightarrow> can_bus \<Rightarrow> scan_frame list \<Rightarrow> outlets \<times> os \<Rightarrow> outlets \<times> os \<Rightarrow> bool"
  for cap k options can where
  no_frame: "callbacks cap k options can [] s s"
| already_undefined: "o_undefined out \<Longrightarrow> callbacks cap k options can (f # frames) (out, os) (out, os)"
| frame: "\<not> o_undefined out \<Longrightarrow> publishes cap f (o_tcp out, os) (t, os1) \<Longrightarrow>
    callbacks cap k options can frames (decide k options can f (out\<lparr>o_tcp := t\<rparr>), os1) s' \<Longrightarrow>
    callbacks cap k options can (f # frames) (out, os) s'"

inductive_cases callbacks_nil: "callbacks cap k options can [] s s'"
inductive_cases callbacks_cons: "callbacks cap k options can (f # frames) s s'"

text \<open>A stop request can arrive while an iteration runs once the main thread is at the request.\<close>

definition stop_pending :: "application \<Rightarrow> bool" where
  "stop_pending a \<longleftrightarrow> (\<exists>c code. a_phase a = Shutting c StopLidar code)"

inductive node_step :: "nat \<Rightarrow> application \<times> os \<Rightarrow> application \<times> os \<Rightarrow> bool" for cap where
  main_steps: "main_step cap mi (a_phase a) a os = Goes a' os' \<Longrightarrow> fresh_main mi a os \<Longrightarrow>
    node_step cap (a, os) (a', os')"
| acquires: "a_lidar a = Some l \<Longrightarrow> l_worker l = Running \<Longrightarrow> \<not> l_stop_requested l \<Longrightarrow>
    it_stop it \<longrightarrow> stop_pending a \<Longrightarrow>
    lidar_run_body record_frame it (a_failures a) l [] = (go_on, f, l', frames) \<Longrightarrow>
    callbacks cap k (a_options a) (a_can a) frames (a_out a, os) (out, os') \<Longrightarrow>
    node_step cap (a, os)
      (a\<lparr>a_lidar := Some (if go_on then l' else lidar_run_exit l'), a_failures := f, a_out := out\<rparr>, os')"
| acquisition_leaves: "a_lidar a = Some l \<Longrightarrow> l_worker l = Running \<Longrightarrow> l_stop_requested l \<Longrightarrow>
    node_step cap (a, os) (a\<lparr>a_lidar := Some (lidar_run_exit l)\<rparr>, os)"
| serves: "io_step (a_tcp a, os) (t, os') \<Longrightarrow> node_step cap (a, os) (set_tcp t a, os')"

definition node_start :: "int set \<Rightarrow> application \<times> os \<Rightarrow> bool" where
  "node_start base s \<longleftrightarrow> (\<exists>options. fst s = Application options) \<and>
     open_fds (snd s) = base \<and> \<not> bad_close (snd s) \<and> (\<forall>fd \<in> base. 0 \<le> fd)"

section \<open>Consumers that do not throw\<close>

definition raw_frame :: "scan_frame \<Rightarrow> bool" where
  "raw_frame f \<longleftrightarrow> (\<exists>ns. points f = collect_points ns)"

lemma recorded: "fold (\<lambda>f c. snd (record_frame f c)) frames c = c @ frames"
  by (induction frames arbitrary: c) (simp_all add: record_frame_def)

lemma acquire_quiet:
  assumes "\<And>f c. \<not> fst (cb f c)" "acquireOnce cb s now l c = (ok, l', c')"
  shows "\<exists>frames. acquireOnce record_frame s now l fs = (ok, l', fs @ frames) \<and>
    c' = fold (\<lambda>f c. snd (cb f c)) frames c \<and> (\<forall>f \<in> set frames. raw_frame f) \<and> length frames \<le> 1"
proof (cases "dev_isOpen (l_device l)")
  case False
  then show ?thesis using assms(2) by (auto simp: acquireOnce_def intro!: exI [of _ "[]"])
next
  case True
  obtain grabbed pts error dev where g: "grabScan s (l_device l) (points (l_frame l)) = (grabbed, pts, error, dev)"
    by (metis prod_cases4)
  let ?l = "l\<lparr>l_device := dev, l_frame := (l_frame l)\<lparr>points := pts\<rparr>\<rparr>"
  let ?f = "(l_frame ?l)\<lparr>sequence := l_next_sequence l, timestamp_us := now\<rparr>"
  show ?thesis
  proof (cases "grabbed \<and> pts \<noteq> []")
    case False
    then show ?thesis using assms(2) True g
      by (auto simp: acquireOnce_def Let_def frame_empty_def intro!: exI [of _ "[]"] split: if_splits)
  next
    case ok: True
    have raw: "raw_frame ?f" using grabScan_result [OF g] ok by (auto simp: raw_frame_def collect_points_eq)
    have "deliverFrame cb now ?l c = (l', c')" "ok"
      using assms(2) True g ok by (auto simp: acquireOnce_def Let_def frame_empty_def)
    then have "deliverFrame record_frame now ?l fs = (l', fs @ [?f])" "c' = snd (cb ?f c)"
      using assms(1) [of ?f c] by (auto simp: deliverFrame_def record_frame_def Let_def split: prod.splits)
    with \<open>ok\<close> True g ok raw show ?thesis
      by (intro exI [of _ "[?f]"]) (auto simp: acquireOnce_def Let_def frame_empty_def)
  qed
qed

lemma run_body_quiet:
  assumes "\<And>f c. \<not> fst (cb f c)" "lidar_run_body cb it failures l c = (go_on, f', l', c')"
  shows "\<exists>frames. lidar_run_body record_frame it failures l fs = (go_on, f', l', fs @ frames) \<and>
    c' = fold (\<lambda>f c. snd (cb f c)) frames c \<and> (\<forall>f \<in> set frames. raw_frame f) \<and> length frames \<le> 1"
proof -
  obtain ok l1 c1 where a: "acquireOnce cb (it_grab it) (it_now it) l c = (ok, l1, c1)" by (metis prod_cases3)
  from acquire_quiet [OF assms(1) a, of fs] obtain frames where
    r: "acquireOnce record_frame (it_grab it) (it_now it) l fs = (ok, l1, fs @ frames)"
    and c: "c1 = fold (\<lambda>f c. snd (cb f c)) frames c" "\<forall>f \<in> set frames. raw_frame f" "length frames \<le> 1" by blast
  have "lidar_run_body record_frame it failures l fs = (go_on, f', l', fs @ frames) \<and> c' = c1"
    using assms(2) unfolding lidar_run_body_def a r prod.case Let_def by (auto split: if_splits prod.splits)
  with c show ?thesis by blast
qed

section \<open>The callback\<close>

lemma on_frame_quiet: "\<not> fst (on_frame cap k options can f out)"
  by (simp add: on_frame_def)

text \<open>Without steps of the I/O thread in between, the callback is the function.\<close>

lemma callbacks_alone:
  "callbacks cap k options can frames (out, os) (fold (\<lambda>f c. snd (on_frame cap k options can f c)) frames out, os)"
proof (induction frames arbitrary: out)
  case Nil
  then show ?case by (simp add: no_frame)
next
  case (Cons f frames)
  show ?case
  proof (cases "o_undefined out")
    case True
    have "fold (\<lambda>f c. snd (on_frame cap k options can f c)) fs out = out" for fs
      using True by (induction fs) (simp_all add: on_frame_def)
    then show ?thesis using already_undefined [OF True, of cap k options can f frames os] by metis
  next
    case False
    from frame [OF False publishes_alone Cons.IH] show ?thesis using False by (simp add: on_frame_def)
  qed
qed

lemma acquires_alone:
  assumes "a_lidar a = Some l" "l_worker l = Running" "\<not> l_stop_requested l" "it_stop it \<longrightarrow> stop_pending a"
    and "lidar_run_body (on_frame cap k (a_options a) (a_can a)) it (a_failures a) l (a_out a) = (go_on, f, l', out)"
  shows "node_step cap (a, os)
    (a\<lparr>a_lidar := Some (if go_on then l' else lidar_run_exit l'), a_failures := f, a_out := out\<rparr>, os)"
proof -
  from run_body_quiet [OF on_frame_quiet assms(5), of "[]"] obtain frames where
    rec: "lidar_run_body record_frame it (a_failures a) l [] = (go_on, f, l', frames)"
    and out: "out = fold (\<lambda>f c. snd (on_frame cap k (a_options a) (a_can a) f c)) frames (a_out a)" by auto
  from acquires [OF assms(1-4) rec callbacks_alone] show ?thesis by (simp add: out)
qed

text \<open>The CAN frame a revolution deserves.\<close>

definition brake_frame :: "perception_config \<Rightarrow> scan_frame \<Rightarrow> can_frame option" where
  "brake_frame cfg f =
     map_option (\<lambda>result. \<lparr>can_id = 0x080, can_dlc = 1,
        can_data = [if any_obstacle result then 2 else 1, 0, 0, 0, 0, 0, 0, 0]\<rparr>) (process cfg f)"

lemma frame_of_brake: "frame_of (brake_message obstacle) =
    \<lparr>can_id = 0x080, can_dlc = 1, can_data = [if obstacle then 2 else 1, 0, 0, 0, 0, 0, 0, 0]\<rparr>"
proof -
  have "replicate 8 0 = [0, 0, 0, 0, 0, 0, 0, 0 :: u8]" by (simp add: numeral_eq_Suc)
  then show ?thesis
    by (simp add: frame_of_def brake_message_def default_message_def kBrakeCanId_def kBrakeEngage_def
        kBrakeDisengage_def kCanMaxDlc_def Let_def)
qed

lemma can_send_open: "isOpen bus \<Longrightarrow> fst (can_send k bus msg) = Some (frame_of msg)"
  by (simp add: can_send_def isOpen_def Let_def)

text \<open>What one revolution does to the outlets.\<close>

lemma decide_effect:
  assumes "\<not> o_undefined out"
  shows "o_tcp (decide k options can f out) = o_tcp out"
    "o_undefined (decide k options can f out) \<longleftrightarrow> brake_frame (o_perception options) f = None"
    "o_no_can options \<or> isOpen can \<Longrightarrow> o_can_sent (decide k options can f out) = o_can_sent out @
       (case brake_frame (o_perception options) f of Some g \<Rightarrow> if o_no_can options then [] else [g] | None \<Rightarrow> [])"
proof -
  have *: "o_tcp (decide k options can f out) = o_tcp out \<and>
    (o_undefined (decide k options can f out) \<longleftrightarrow> brake_frame (o_perception options) f = None) \<and>
    (o_no_can options \<or> isOpen can \<longrightarrow> o_can_sent (decide k options can f out) = o_can_sent out @
       (case brake_frame (o_perception options) f of Some g \<Rightarrow> if o_no_can options then [] else [g] | None \<Rightarrow> []))"
  proof (cases "process (o_perception options) f")
    case None
    then show ?thesis by (simp add: decide_def brake_frame_def)
  next
    case (Some result)
    obtain sending ok where s: "can_send k can (brake_message (any_obstacle result)) = (sending, ok)" by fastforce
    have "isOpen can \<Longrightarrow> sending = Some (frame_of (brake_message (any_obstacle result)))"
      using can_send_open [of can k "brake_message (any_obstacle result)"] s by simp
    then show ?thesis
      using assms Some s by (auto simp: decide_def brake_frame_def frame_of_brake Let_def split: option.splits)
  qed
  then show "o_tcp (decide k options can f out) = o_tcp out"
    "o_undefined (decide k options can f out) \<longleftrightarrow> brake_frame (o_perception options) f = None"
    "o_no_can options \<or> isOpen can \<Longrightarrow> o_can_sent (decide k options can f out) = o_can_sent out @
       (case brake_frame (o_perception options) f of Some g \<Rightarrow> if o_no_can options then [] else [g] | None \<Rightarrow> [])" by blast+
qed

lemma on_frame_effect:
  assumes "\<not> o_undefined out" "snd (on_frame cap k options can f out) = out'"
  shows "o_tcp out' = publish cap f (o_tcp out)" "o_undefined out' \<longleftrightarrow> brake_frame (o_perception options) f = None"
    "o_no_can options \<or> isOpen can \<Longrightarrow> o_can_sent out' = o_can_sent out @
       (case brake_frame (o_perception options) f of Some g \<Rightarrow> if o_no_can options then [] else [g] | None \<Rightarrow> [])"
  using assms decide_effect [where out = "out\<lparr>o_tcp := publish cap f (o_tcp out)\<rparr>" and k = k and options = options and can = can and f = f]
  by (auto simp: on_frame_def)

text \<open>
  What the callbacks of an iteration do, wherever the I/O thread runs in between: something undefined stays
  so and stops everything; otherwise a property of the outlets that each decided frame keeps is kept.
\<close>

lemma callbacks_undefined:
  "callbacks cap k options can frames (out, os) (out', os') \<Longrightarrow> o_undefined out \<Longrightarrow> out' = out \<and> os' = os"
  by (cases frames) (auto elim: callbacks_nil callbacks_cons)

lemma callbacks_induct [consumes 1, case_names nil undefined cons]:
  assumes "callbacks cap k options can frames (out, os) (out', os')"
    and "\<And>out os. P [] out os out os"
    and "\<And>f frames out os. o_undefined out \<Longrightarrow> P (f # frames) out os out os"
    and "\<And>f frames out os t os1 out' os'. \<not> o_undefined out \<Longrightarrow> publishes cap f (o_tcp out, os) (t, os1) \<Longrightarrow>
      callbacks cap k options can frames (decide k options can f (out\<lparr>o_tcp := t\<rparr>), os1) (out', os') \<Longrightarrow>
      P frames (decide k options can f (out\<lparr>o_tcp := t\<rparr>)) os1 out' os' \<Longrightarrow> P (f # frames) out os out' os'"
  shows "P frames out os out' os'"
proof -
  have "case s of (out, os) \<Rightarrow> case s' of (out', os') \<Rightarrow> P frames out os out' os'"
    if "callbacks cap k options can frames s s'" for frames s s'
    using that by (induction rule: callbacks.induct) (auto simp: assms(2,3) intro: assms(4))
  from this [OF assms(1)] show ?thesis by simp
qed

section \<open>Invariant\<close>

definition can_fds :: "application \<Rightarrow> int set" where
  "can_fds a = (if isOpen (a_can a) then {can_fd (a_can a)} else {})"

definition can_ready :: "application \<Rightarrow> bool" where
  "can_ready a \<longleftrightarrow> o_no_can (a_options a) \<or> isOpen (a_can a)"

definition all_stopped :: "application \<Rightarrow> bool" where
  "all_stopped a \<longleftrightarrow> a_lidar a = None \<and> t_worker (a_tcp a) = Detached \<and> \<not> isOpen (a_can a)"

text \<open>What holds at each place of the main thread.\<close>

fun phase_ok :: "phase \<Rightarrow> application \<Rightarrow> bool" where
  "phase_ok AtSignals a \<longleftrightarrow> all_stopped a"
| "phase_ok AtCan a \<longleftrightarrow> all_stopped a"
| "phase_ok AtTcp a \<longleftrightarrow> a_lidar a = None \<and> t_worker (a_tcp a) = Detached \<and> can_ready a"
| "phase_ok AtLidar a \<longleftrightarrow> a_lidar a = None \<and> can_ready a"
| "phase_ok Supervising a \<longleftrightarrow> a_lidar a \<noteq> None \<and> can_ready a"
| "phase_ok (Shutting c st code) a \<longleftrightarrow> code \<in> {0, 1} \<and> (if c = FromDestructor then all_stopped a else can_ready a) \<and>
     (st \<in> {StopTcp, JoinTcp} \<longrightarrow> a_lidar a = None) \<and>
     (st = JoinLidar \<longrightarrow> (\<exists>l. a_lidar a = Some l \<and> l_stop_requested l)) \<and>
     (st = JoinTcp \<longrightarrow> t_stop_requested (a_tcp a))"
| "phase_ok (Exited code) a \<longleftrightarrow> code \<in> {0, 1} \<and> all_stopped a"

definition released :: "lidar \<Rightarrow> bool" where
  "released l \<longleftrightarrow> device_ok (l_device l) \<and> \<not> dev_isOpen (l_device l)"

definition node_ok :: "int set \<Rightarrow> application \<times> os \<Rightarrow> bool" where
  "node_ok base s \<longleftrightarrow> (case s of (a, os) \<Rightarrow>
     tcp_ok (base \<union> can_fds a) (a_tcp a, os) \<and> can_fd (a_can a) \<notin> base \<and> (\<forall>fd \<in> base. 0 \<le> fd) \<and>
     (\<forall>l. a_lidar a = Some l \<longrightarrow> lidar_ok (l, a_failures a, ())) \<and> (\<forall>l \<in> set (a_destroyed a). released l) \<and>
     phase_ok (a_phase a) a)"

text \<open>The objects the invariant speaks of, after each way of changing the application.\<close>

lemma app_simps [simp]:
  "a_tcp (set_tcp t a) = t" "a_can (set_tcp t a) = a_can a" "a_lidar (set_tcp t a) = a_lidar a"
  "a_failures (set_tcp t a) = a_failures a" "a_destroyed (set_tcp t a) = a_destroyed a"
  "a_phase (set_tcp t a) = a_phase a" "a_options (set_tcp t a) = a_options a"
  "a_waiter (set_tcp t a) = a_waiter a" "o_can_sent (a_out (set_tcp t a)) = o_can_sent (a_out a)"
  "o_undefined (a_out (set_tcp t a)) = o_undefined (a_out a)"
  "a_out (at p a) = a_out a" "a_can (at p a) = a_can a" "a_lidar (at p a) = a_lidar a"
  "a_failures (at p a) = a_failures a" "a_destroyed (at p a) = a_destroyed a" "a_phase (at p a) = p"
  "a_options (at p a) = a_options a" "a_waiter (at p a) = a_waiter a"
  "a_out (leave_run code a) = a_out a" "a_can (leave_run code a) = a_can a" "a_lidar (leave_run code a) = a_lidar a"
  "a_failures (leave_run code a) = a_failures a" "a_destroyed (leave_run code a) = a_destroyed a"
  "a_phase (leave_run code a) = Shutting FromDestructor StopLidar code" "a_options (leave_run code a) = a_options a"
  "a_tcp (say line a) = a_tcp a" "a_can (say line a) = a_can a" "a_lidar (say line a) = a_lidar a"
  "a_failures (say line a) = a_failures a" "a_destroyed (say line a) = a_destroyed a" "a_phase (say line a) = a_phase a"
  "a_options (say line a) = a_options a" "a_waiter (say line a) = a_waiter a" "a_reported (say line a) = a_reported a"
  "o_can_sent (a_out (say line a)) = o_can_sent (a_out a)" "o_undefined (a_out (say line a)) = o_undefined (a_out a)"
  by (simp_all add: set_tcp_def at_def leave_run_def say_def)

lemma after_shutdown_simps [simp]:
  "a_tcp (after_shutdown c code a) = a_tcp a" "a_can (after_shutdown c code a) = a_can a"
  "a_lidar (after_shutdown c code a) = a_lidar a" "a_failures (after_shutdown c code a) = a_failures a"
  "a_destroyed (after_shutdown c code a) = a_destroyed a" "a_options (after_shutdown c code a) = a_options a"
  "a_waiter (after_shutdown c code a) = a_waiter a" "a_reported (after_shutdown c code a) = a_reported a"
  "o_can_sent (a_out (after_shutdown c code a)) = o_can_sent (a_out a)"
  "o_undefined (a_out (after_shutdown c code a)) = o_undefined (a_out a)"
  "a_phase (after_shutdown c code a) = (if c = FromDestructor then Exited code else Shutting FromDestructor StopLidar code)"
  by (cases c; simp add: leave_run_def at_def)+

lemma exit_codes: "kExitFailure = 1" "kExitSuccess = 0"
  by (simp_all add: kExitFailure_def kExitSuccess_def)

lemma tcp_ok_rebase:
  assumes "tcp_ok base (t, os)" "t_worker t = Detached" "open_fds os' = base'" "\<not> bad_close os'"
  shows "tcp_ok base' (t, os')"
  using assms by (auto simp: tcp_ok_def thread_ok_def tcp_fds_def owns_def cs_valid_def)

lemma tcp_ok_detached:
  assumes "tcp_ok base (t, os)" "t_worker t = Detached"
  shows "open_fds os = base" "\<not> bad_close os"
  using assms by (auto simp: tcp_ok_def thread_ok_def tcp_fds_def owns_def cs_valid_def)

lemma publish_fields:
  "t_worker (publish cap f t) = t_worker t" "t_stop_requested (publish cap f t) = t_stop_requested t"
  by (simp_all add: publish_def publish_count_def publish_discard_def publish_push_def publish_signal_def split_beta Let_def)

lemma tcp_ok_publish: "tcp_ok base (t, os) \<Longrightarrow> 0 < cap \<Longrightarrow> tcp_ok base (publish cap f t, os)"
  using publish_steps [of cap t os f] by (induction rule: rtranclp_induct) (auto intro: server_step_ok)

lemma endSession_stop: "endSession e t os = (t', os') \<Longrightarrow> t_stop_requested t' = t_stop_requested t"
  by (auto simp: endSession_def cs_close_def fd_reset_def Let_def split: if_splits)

lemma io_step_fields:
  assumes "io_step (t, os) (t', os')"
  shows "t_worker t = Running" "t_stop_requested t' = t_stop_requested t"
  using assms
proof -
  have "t_worker t = Running \<and> t_stop_requested t' = t_stop_requested t"
    using assms
  proof cases
    case (client_events revents script)
    then show ?thesis using endSession_stop
      by (auto simp: serviceClientEvents_def split: if_splits option.splits)
  next
    case (accepts script)
    then show ?thesis
      by (auto simp: acceptClient_def tcp_setError_def Let_def split: option.splits prod.splits if_splits dest!: endSession_stop)
  next
    case (outputs script wire)
    then show ?thesis
      by (auto simp: serviceOutput_def tcp_setError_def Let_def split: option.splits prod.splits if_splits dest!: endSession_stop)
  next
    case (breaks e)
    then show ?thesis
      by (auto simp: tcp_run_exit_def tcp_setError_def split: prod.splits if_splits dest!: endSession_stop)
  next
    case leaves
    then show ?thesis
      by (auto simp: tcp_run_exit_def split: prod.splits dest!: endSession_stop)
  qed simp_all
  then show "t_worker t = Running" "t_stop_requested t' = t_stop_requested t" by simp_all
qed

text \<open>The CAN socket next to the server's descriptors.\<close>

lemma bus_and_tcp:
  assumes "bus_ok base can os" "\<forall>fd \<in> base. 0 \<le> fd" "tcp_ok base' (t, os')" "t_worker t = Detached"
  shows "tcp_ok (base \<union> (if isOpen can then {can_fd can} else {})) (t, os)"
  by (rule tcp_ok_rebase [OF assms(3,4)]) (use assms(1,2) in \<open>auto simp: bus_ok_def isOpen_def\<close>)

lemma lidar_started:
  assumes "lidar_start s e True (Lidar cfg) = Some (ok, l)"
  shows "ok \<Longrightarrow> lidar_ok (l, 0, ())" "\<not> ok \<Longrightarrow> released (stop_finish (stop_request l))"
proof -
  have "lidar_ok (Lidar cfg, 0, ())" by (rule lidar_new_ok) (simp add: lidar_new_def Lidar_def)
  from lidar_start_ok [OF assms this] have "lidar_ok (l, 0, ())" by (cases ok) simp_all
  then show "ok \<Longrightarrow> lidar_ok (l, 0, ())" "\<not> ok \<Longrightarrow> released (stop_finish (stop_request l))"
    by (simp_all add: lidar_ok_def released_def stop_finish_def stop_request_def closed_ok)
qed

lemma lidar_never_terminates: "lidar_start s e True (Lidar cfg) \<noteq> None"
  by (auto simp: lidar_start_def Lidar_def Let_def joinable_def openDevice_def split: prod.splits option.splits if_splits)

lemma released_finish: "device_ok (l_device l) \<Longrightarrow> released (stop_finish (stop_request (stop_finish l)))"
  by (simp add: released_def stop_finish_def stop_request_def closed_ok)

lemma boot_can_ok:
  assumes "node_ok base (a, os)" "main_step cap mi (a_phase a) a os = Goes a' os'" "fresh_main mi a os"
    and here: "a_phase a = AtCan"
  shows "node_ok base (a', os')"
proof -
  have ok: "tcp_ok (base \<union> can_fds a) (a_tcp a, os)" "can_fd (a_can a) \<notin> base" "\<forall>fd \<in> base. 0 \<le> fd"
    "\<forall>l \<in> set (a_destroyed a). released l" "phase_ok (a_phase a) a"
    using assms(1) by (simp_all add: node_ok_def)
  have stopped: "all_stopped a" using ok(5) here by simp
  then have det: "t_worker (a_tcp a) = Detached" and base: "can_fds a = {}" by (simp_all add: all_stopped_def can_fds_def)
  show ?thesis
  proof (cases "o_no_can (a_options a)")
    case True
    then show ?thesis using assms(1,2) here stopped
      by (auto simp: startCanBus_def node_ok_def can_fds_def all_stopped_def can_ready_def)
  next
    case False
    obtain opn can os1 where o: "can_open (mi_can mi) (a_can a) os = (opn, can, os1)" by (metis prod_cases3)
    have "bus_ok base (a_can a) os"
      using tcp_ok_detached [OF ok(1) det] ok(2) stopped by (simp add: bus_ok_def base all_stopped_def isOpen_def)
    moreover have "fresh_fd os (k_socket (mi_can mi))" using assms(3) here by (simp add: fresh_main_def)
    ultimately have bus: "bus_ok base can os1" "opn \<Longrightarrow> isOpen can" using can_open_ok [OF _ _ ok(3) o] by blast+
    have shut: "\<not> opn \<Longrightarrow> \<not> isOpen can"
      using o stopped by (auto simp: can_open_def open_failed_def isOpen_def all_stopped_def Let_def split: if_splits sys_result.splits)
    have tcp: "tcp_ok (base \<union> (if isOpen can then {can_fd can} else {})) (a_tcp a, os1)"
      by (rule bus_and_tcp [OF bus(1) ok(3,1) det])
    let ?a = "say (can_line opn (a\<lparr>a_can := can\<rparr>)) (a\<lparr>a_can := can\<rparr>)"
    have a': "a' = (if opn then at AtTcp ?a else leave_run kExitFailure ?a)" "os' = os1"
      using assms(2) here False o by (auto simp: startCanBus_def Let_def split: if_splits)
    have "can_fd can \<notin> base" using bus(1) by (simp add: bus_ok_def)
    then show ?thesis
      using tcp bus(2) shut ok stopped det
      by (auto simp: a' node_ok_def can_fds_def all_stopped_def can_ready_def exit_codes)
  qed
qed

lemma boot_tcp_ok:
  assumes "node_ok base (a, os)" "main_step cap mi (a_phase a) a os = Goes a' os'" "fresh_main mi a os"
    and here: "a_phase a = AtTcp"
  shows "node_ok base (a', os')"
proof -
  have ok: "tcp_ok (base \<union> can_fds a) (a_tcp a, os)" "can_fd (a_can a) \<notin> base" "\<forall>fd \<in> base. 0 \<le> fd"
    "\<forall>l \<in> set (a_destroyed a). released l" "phase_ok (a_phase a) a"
    using assms(1) by (simp_all add: node_ok_def)
  have det: "t_worker (a_tcp a) = Detached" using ok(5) here by simp
  then have idle: "\<not> t_running (a_tcp a)" using ok(1) by (simp add: tcp_ok_def thread_ok_def)
  have "fresh_start (mi_tcp mi) (a_tcp a) os" using assms(3) here by (simp add: fresh_main_def)
  note out = tcp_start_outcome [OF ok(1) this idle, unfolded start_post_def]
  obtain started t os1 where st: "tcp_start (mi_tcp mi) (a_tcp a) os = Some (started, t, os1)"
    using assms(2) here by (cases "tcp_start (mi_tcp mi) (a_tcp a) os") (auto simp: startTcpServer_def)
  have a': "a' = at (if started then AtLidar else Shutting FromStart StopLidar kExitFailure)
      (say (tcp_line started (set_tcp t a)) (set_tcp t a))" "os' = os1"
    using assms(2) here st by (auto simp: startTcpServer_def Let_def)
  show ?thesis using out ok assms(1) here
    by (auto simp: a' st node_ok_def can_fds_def can_ready_def exit_codes)
qed

lemma boot_lidar_ok:
  assumes "node_ok base (a, os)" "main_step cap mi (a_phase a) a os = Goes a' os'" "fresh_main mi a os"
    and here: "a_phase a = AtLidar"
  shows "node_ok base (a', os')"
proof -
  have ok: "tcp_ok (base \<union> can_fds a) (a_tcp a, os)" "can_fd (a_can a) \<notin> base" "\<forall>fd \<in> base. 0 \<le> fd"
    "\<forall>l \<in> set (a_destroyed a). released l" "phase_ok (a_phase a) a"
    using assms(1) by (simp_all add: node_ok_def)
  obtain started l where st: "lidar_start (mi_sdk mi) (mi_spawn_error mi) True (Lidar (o_lidar (a_options a))) = Some (started, l)"
    using lidar_never_terminates by fastforce
  note l = lidar_started [OF st]
  show ?thesis using assms(2) here st l ok
    by (auto simp: startLidar_def node_ok_def can_fds_def can_ready_def exit_codes split: if_splits)
qed

lemma boot_ok:
  assumes "node_ok base (a, os)" "main_step cap mi (a_phase a) a os = Goes a' os'" "fresh_main mi a os"
    and "a_phase a \<in> {AtSignals, AtCan, AtTcp, AtLidar}"
  shows "node_ok base (a', os')"
proof (cases "a_phase a = AtSignals")
  case True
  then show ?thesis using assms(1,2)
    by (auto simp: node_ok_def can_fds_def all_stopped_def exit_codes Let_def split: prod.splits if_splits)
next
  case False
  then show ?thesis using boot_can_ok [OF assms(1-3)] boot_tcp_ok [OF assms(1-3)] boot_lidar_ok [OF assms(1-3)] assms(4) by blast
qed

lemma supervise_ok:
  assumes "node_ok base (a, os)" "main_step cap mi (a_phase a) a os = Goes a' os'" "a_phase a = Supervising"
  shows "node_ok base (a', os')"
proof -
  obtain n waits l where w: "waitFor (mi_long mi) (a_waiter a) (tick (a_options a)) (mi_wait mi) = Some (n, waits)" "a_lidar a = Some l"
    using assms(2,3) by (auto split: option.splits)
  have "os' = os \<and> (\<exists>code a1. supervise_round n l a = (code, a1) \<and> code \<in> {None, Some 0, Some 1} \<and>
      a' = (case code of None \<Rightarrow> a1 | Some c \<Rightarrow> at (Shutting FromRun StopLidar c) a1))"
    using assms(2,3) w by (auto simp: supervise_round_def exit_codes split: if_splits)
  then obtain code a1 where a': "os' = os" "supervise_round n l a = (code, a1)" "code \<in> {None, Some 0, Some 1}"
    "a' = (case code of None \<Rightarrow> a1 | Some c \<Rightarrow> at (Shutting FromRun StopLidar c) a1)" by blast
  have same: "a_out a1 = a_out a \<or> a_tcp a1 = a_tcp a" "a_can a1 = a_can a" "a_lidar a1 = a_lidar a" "a_failures a1 = a_failures a"
    "a_destroyed a1 = a_destroyed a" "a_phase a1 = a_phase a" "a_options a1 = a_options a"
    using a'(2) by (auto simp: supervise_round_def reportHealth_def Let_def split: if_splits)
  then have "a_tcp a1 = a_tcp a" by auto
  with same a' assms(1,3) show ?thesis
    by (cases code) (auto simp: node_ok_def can_fds_def can_ready_def)
qed

lemma shutdown_ok:
  assumes "node_ok base (a, os)" "main_step cap mi (a_phase a) a os = Goes a' os'" "a_phase a = Shutting c st code" "0 < cap"
  shows "node_ok base (a', os')"
proof -
  have ok: "tcp_ok (base \<union> can_fds a) (a_tcp a, os)" "can_fd (a_can a) \<notin> base" "\<forall>fd \<in> base. 0 \<le> fd"
    "\<forall>l \<in> set (a_destroyed a). released l" "phase_ok (Shutting c st code) a"
    "\<forall>l. a_lidar a = Some l \<longrightarrow> lidar_ok (l, a_failures a, ())"
    using assms(1,3) by (simp_all add: node_ok_def)
  show ?thesis
  proof (cases st)
    case StopLidar
    have "lidar_ok (stop_request l, a_failures a, ())" if "a_lidar a = Some l" for l
      using ok(6) that by (auto simp: lidar_ok_def stop_request_def)
    then show ?thesis using assms(2,3) ok StopLidar
      by (auto simp: stop_lidar_def node_ok_def can_fds_def can_ready_def all_stopped_def stop_request_def Let_def split: if_splits)
  next
    case JoinLidar
    obtain l where l: "a_lidar a = Some l" using ok(5) JoinLidar by auto
    then have "released (stop_finish (stop_request (stop_finish l)))"
      using ok(6) by (intro released_finish) (simp add: lidar_ok_def)
    then show ?thesis using assms(2,3) ok JoinLidar l
      by (auto simp: release_lidar_def node_ok_def can_fds_def can_ready_def all_stopped_def split: if_splits)
  next
    case StopTcp
    have "tcp_ok (base \<union> can_fds a) (tcp_stop_request cap (a_tcp a), os)"
      using tcp_ok_wake(1) [OF _ assms(4), of "base \<union> can_fds a" "(a_tcp a)\<lparr>t_stop_requested := True\<rparr>" os] ok(1)
      by (simp add: tcp_stop_request_def tcp_ok_counts(5))
    then show ?thesis using assms(2,3) ok StopTcp
      by (auto simp: stop_tcp_def node_ok_def can_fds_def can_ready_def all_stopped_def tcp_stop_request_def split: if_splits)
  next
    case JoinTcp
    obtain t os1 where t: "tcp_stop_finish (a_tcp a) os = (t, os1)" by fastforce
    obtain can os2 where c2: "can_close (a_can a) os1 = (can, os2)" by fastforce
    have idle: "t_worker (a_tcp a) \<noteq> Running" using assms(2,3) JoinTcp by (auto split: if_splits)
    note fin = tcp_stop_finish_ok [OF ok(1) idle t]
    have "bus_ok base (a_can a) os1"
      using ok(2) fin(3) tcp_ok_detached(2) [OF fin(1,2)] by (auto simp: bus_ok_def can_fds_def isOpen_def)
    note bus = can_close_ok [OF this ok(3) c2]
    have tcp: "tcp_ok base (t, os2)" using bus_and_tcp [OF bus(1) ok(3) fin(1,2)] bus(2) by simp
    have "can_fd can \<notin> base" using bus(1) by (simp add: bus_ok_def)
    then show ?thesis using assms(2,3) ok JoinTcp idle t c2 tcp bus(2) fin(2)
      by (auto simp: release_tcp_and_can_def node_ok_def can_fds_def all_stopped_def split: if_splits)
  qed
qed

text \<open>The callbacks reach the server through the pieces of \<open>publish\<close> only.\<close>

lemma publishes_ok: "publishes cap f (t, os) (t', os') \<Longrightarrow> tcp_ok base (t, os) \<Longrightarrow> 0 < cap \<Longrightarrow> tcp_ok base (t', os')"
  using rtranclp_induct [OF publishes_steps, of cap f "(t, os)" "(t', os')" "tcp_ok base"] server_step_ok by metis

lemma callbacks_tcp_ok:
  assumes "callbacks cap k options can frames (out, os) (out', os')" "tcp_ok base (o_tcp out, os)" "0 < cap"
  shows "tcp_ok base (o_tcp out', os')"
  using assms(1,2)
proof (induction rule: callbacks_induct)
  case (cons f frames out os t os1 out' os')
  then show ?case using publishes_ok [OF cons(2)] assms(3) decide_effect(1) [of "out\<lparr>o_tcp := t\<rparr>"] by simp
qed

lemma phase_ok_acquires:
  assumes "phase_ok p a" "a_lidar a = Some l" "l_stop_requested l \<longrightarrow> l_stop_requested l'"
  shows "phase_ok p (a\<lparr>a_lidar := Some l', a_failures := f, a_out := out\<rparr>)"
  using assms by (cases p) (auto simp: all_stopped_def can_ready_def split: if_splits)

lemma acquires_ok:
  assumes "node_ok base (a, os)" "0 < cap" "a_lidar a = Some l" "l_worker l = Running" "\<not> l_stop_requested l"
    and rec: "lidar_run_body record_frame it (a_failures a) l [] = (go_on, f, l', frames)"
    and cb: "callbacks cap k (a_options a) (a_can a) frames (a_out a, os) (out, os')"
  shows "node_ok base (a\<lparr>a_lidar := Some (if go_on then l' else lidar_run_exit l'), a_failures := f, a_out := out\<rparr>, os')"
proof -
  have ok: "tcp_ok (base \<union> can_fds a) (a_tcp a, os)" "lidar_ok (l, a_failures a, ())" "phase_ok (a_phase a) a"
    using assms(1,3) by (simp_all add: node_ok_def)
  note tcp = callbacks_tcp_ok [OF cb ok(1) assms(2)]
  let ?l = "if go_on then l' else lidar_run_exit l'"
  have "lidar_step record_frame (l, a_failures a, []) (?l, f, frames)"
    using lidar_step.iterates [OF assms(4,5), of record_frame it "a_failures a" "[]" f l' frames]
      lidar_step.breaks [OF assms(4,5), of record_frame it "a_failures a" "[]" f l' frames] rec by auto
  then have "lidar_ok (?l, f, frames)"
    by (rule lidar_step_ok) (use ok(2) in \<open>simp add: lidar_ok_def\<close>)
  then have l: "lidar_ok (?l, f, ())" by (simp add: lidar_ok_def)
  have "phase_ok (a_phase a) (a\<lparr>a_lidar := Some ?l, a_failures := f, a_out := out\<rparr>)"
    by (rule phase_ok_acquires [OF ok(3) assms(3)]) (use assms(5) in simp)
  with l tcp assms(1) show ?thesis by (auto simp: node_ok_def can_fds_def)
qed

lemma node_step_ok:
  assumes "node_step cap s s'" "0 < cap" "node_ok base s"
  shows "node_ok base s'"
  using assms(1)
proof cases
  case (main_steps mi a os a' os')
  consider "a_phase a \<in> {AtSignals, AtCan, AtTcp, AtLidar}" | "a_phase a = Supervising"
    | c st code where "a_phase a = Shutting c st code" | code where "a_phase a = Exited code"
    by (cases "a_phase a") auto
  then show ?thesis
  proof cases
    case 1
    then show ?thesis using boot_ok main_steps assms(3) by blast
  next
    case 2
    then show ?thesis using supervise_ok main_steps assms(3) by blast
  next
    case 3
    then show ?thesis using shutdown_ok main_steps assms(2,3) by blast
  next
    case 4
    then show ?thesis using main_steps(3) by simp
  qed
next
  case (acquires a l it go_on f l' frames k os out os')
  then show ?thesis using acquires_ok [OF _ assms(2) acquires(3-5,7,8)] assms(3) by simp
next
  case (acquisition_leaves a l os)
  have "lidar_ok (lidar_run_exit l, a_failures a, ())"
    using assms(3) acquisition_leaves by (auto simp: node_ok_def lidar_ok_def lidar_run_exit_def closed_ok)
  moreover have "phase_ok (a_phase a) (a\<lparr>a_lidar := Some (lidar_run_exit l)\<rparr>)"
    using assms(3) acquisition_leaves
    by (cases "a_phase a") (auto simp: node_ok_def all_stopped_def can_ready_def lidar_run_exit_def split: if_splits)
  ultimately show ?thesis using assms(3) acquisition_leaves by (auto simp: node_ok_def can_fds_def)
next
  case (serves a os t os')
  note f = io_step_fields [OF serves(3)]
  have "tcp_ok (base \<union> can_fds a) (t, os')"
    using io_step_ok [OF serves(3)] assms(3) serves(1) by (simp add: node_ok_def)
  moreover have "phase_ok (a_phase a) (set_tcp t a)"
    using assms(3) serves(1) f
    by (cases "a_phase a") (auto simp: node_ok_def all_stopped_def can_ready_def split: if_splits)
  ultimately show ?thesis using assms(3) serves(1,2) by (auto simp: node_ok_def can_fds_def)
qed

lemma node_start_ok: "node_start base s \<Longrightarrow> node_ok base s"
proof -
  assume start: "node_start base s"
  then obtain options where a: "fst s = Application options" by (auto simp: node_start_def)
  have can: "can_fds (fst s) = {}" "can_fd (a_can (fst s)) < 0"
    by (simp_all add: a Application_def can_fds_def CanBus_def isOpen_def)
  have "tcp_ok base (a_tcp (fst s), snd s)"
    by (rule tcp_new_ok) (use start in \<open>auto simp: tcp_new_def node_start_def a Application_def\<close>)
  then show "node_ok base s"
    using start can by (cases s)
      (auto simp: node_ok_def node_start_def Application_def all_stopped_def TcpServer_def CanBus_def isOpen_def)
qed

interpretation node: inductive_invariant "node_start base" "node_step (Suc n)" "node_ok base" for base n
  by unfold_locales (rule node_start_ok, assumption, erule node_step_ok, simp_all)

lemma reachable_node_ok:
  assumes "node_start base s" "0 < cap" "(node_step cap)\<^sup>*\<^sup>* s s'"
  shows "node_ok base s'"
proof -
  obtain n where "cap = Suc n" using assms(2) by (cases cap) auto
  with assms show ?thesis using node.reachable_inv by blast
qed

section \<open>The sensing machine alone\<close>

text \<open>
  The abstract machine of the node: the lidar object, its thread and a recorder in place of the
  consumer, without viewer, console, CAN socket or main thread. Everything put on the CAN socket is a
  function of the frames recorded.
\<close>

definition sent_for :: "options \<Rightarrow> scan_frame list \<Rightarrow> can_frame list" where
  "sent_for options frames =
     (if o_no_can options then []
      else map (\<lambda>f. the (brake_frame (o_perception options) f))
        (takeWhile (\<lambda>f. brake_frame (o_perception options) f \<noteq> None) frames))"

definition outlets_ok :: "options \<Rightarrow> scan_frame list \<Rightarrow> outlets \<Rightarrow> bool" where
  "outlets_ok options frames out \<longleftrightarrow> o_can_sent out = sent_for options frames \<and> (\<forall>f \<in> set frames. raw_frame f) \<and>
     (o_undefined out \<longleftrightarrow> (\<exists>f \<in> set frames. brake_frame (o_perception options) f = None))"

lemma outlets_ok_frame:
  assumes "outlets_ok options frames out" "raw_frame f" "o_no_can options \<or> isOpen can" "\<not> o_undefined out"
  shows "outlets_ok options (frames @ [f]) (decide k options can f (out\<lparr>o_tcp := t\<rparr>))"
proof -
  have all: "\<forall>g \<in> set frames. brake_frame (o_perception options) g \<noteq> None" using assms(1,4) by (auto simp: outlets_ok_def)
  then have t: "takeWhile (\<lambda>f. brake_frame (o_perception options) f \<noteq> None) frames = frames"
    "takeWhile (\<lambda>f. brake_frame (o_perception options) f \<noteq> None) (frames @ [f]) =
      frames @ (if brake_frame (o_perception options) f \<noteq> None then [f] else [])"
    by (simp_all add: takeWhile_append2)
  then have "sent_for options (frames @ [f]) = sent_for options frames @
      (case brake_frame (o_perception options) f of Some g \<Rightarrow> if o_no_can options then [] else [g] | None \<Rightarrow> [])"
    unfolding sent_for_def t by (simp split: option.splits)
  moreover note decide_effect(2,3) [where out = "out\<lparr>o_tcp := t\<rparr>" and options = options and f = f and k = k and can = can]
  ultimately show ?thesis using assms all unfolding outlets_ok_def by auto
qed

lemma outlets_ok_undefined:
  assumes "outlets_ok options frames out" "o_undefined out" "\<forall>f \<in> set more_frames. raw_frame f"
  shows "outlets_ok options (frames @ more_frames) out"
proof -
  obtain g where "g \<in> set frames" "brake_frame (o_perception options) g = None"
    using assms(1,2) by (auto simp: outlets_ok_def)
  then have "takeWhile (\<lambda>f. brake_frame (o_perception options) f \<noteq> None) (frames @ more_frames) =
      takeWhile (\<lambda>f. brake_frame (o_perception options) f \<noteq> None) frames" by (intro takeWhile_append1) auto
  then show ?thesis using assms by (auto simp: outlets_ok_def sent_for_def)
qed

lemma outlets_ok_frames:
  assumes "callbacks cap k options can more_frames (out, os) (out', os')" "outlets_ok options frames out"
    "\<forall>f \<in> set more_frames. raw_frame f" "o_no_can options \<or> isOpen can"
  shows "outlets_ok options (frames @ more_frames) out'"
  using assms(1-3)
proof (induction arbitrary: frames rule: callbacks_induct)
  case (undefined f more_frames out os)
  then show ?case using outlets_ok_undefined by blast
next
  case (cons f more_frames out os t os1 out' os')
  then have "outlets_ok options (frames @ [f]) (decide k options can f (out\<lparr>o_tcp := t\<rparr>))"
    using outlets_ok_frame assms(4) by simp
  from cons.IH [OF this] cons.prems show ?case by simp
qed simp

text \<open>The node's lidar, before, during and after its life, against the machine's.\<close>

definition sensed :: "application \<Rightarrow> lidar \<times> u32 \<times> scan_frame list \<Rightarrow> bool" where
  "sensed a st \<longleftrightarrow> (case st of (l, f, frames) \<Rightarrow>
     outlets_ok (a_options a) frames (a_out a) \<and>
     (a_phase a \<in> {AtSignals, AtCan, AtTcp, AtLidar} \<longrightarrow> a_lidar a = None \<and> a_destroyed a = []) \<and>
     (case a_lidar a of
        Some l' \<Rightarrow> l' = l \<and> a_failures a = f \<and> a_destroyed a = []
      | None \<Rightarrow> if a_destroyed a = [] then l = Lidar (o_lidar (a_options a)) \<and> f = 0 \<and> frames = []
                else a_destroyed a = [l]))"

definition node_sensed :: "int set \<Rightarrow> application \<times> os \<Rightarrow> lidar \<times> u32 \<times> scan_frame list \<Rightarrow> bool" where
  "node_sensed base s st \<longleftrightarrow> node_ok base s \<and> sensed (fst s) st"

lemma outlets_ok_fields:
  "outlets_ok options frames (out\<lparr>o_tcp := t\<rparr>) = outlets_ok options frames out"
  "outlets_ok options frames (out\<lparr>o_console := c\<rparr>) = outlets_ok options frames out"
  "outlets_ok options frames (a_out (say line a)) = outlets_ok options frames (a_out a)"
  by (simp_all add: outlets_ok_def)

lemma sensed_cong:
  assumes "sensed a st" "a_options a' = a_options a" "a_lidar a' = a_lidar a" "a_failures a' = a_failures a"
    "a_destroyed a' = a_destroyed a" "a_phase a' \<in> {AtSignals, AtCan, AtTcp, AtLidar} \<Longrightarrow> a_phase a \<in> {AtSignals, AtCan, AtTcp, AtLidar}"
    "o_can_sent (a_out a') = o_can_sent (a_out a)" "o_undefined (a_out a') = o_undefined (a_out a)"
  shows "sensed a' st"
  using assms by (cases st; cases "a_lidar a") (auto simp: sensed_def outlets_ok_def)

lemma destroyed_steps:
  assumes "l_worker l \<noteq> Running" "l_stop_requested l"
  shows "(lidar_step cb)\<^sup>*\<^sup>* (l, f, c) (stop_finish (stop_request (stop_finish l)), f, c)"
proof -
  have 1: "lidar_step cb (l, f, c) (stop_finish l, f, c)" by (rule joins [OF assms])
  have 2: "lidar_step cb (stop_finish l, f, c) (stop_request (stop_finish l), f, c)" by (rule requests)
  have 3: "lidar_step cb (stop_request (stop_finish l), f, c) (stop_finish (stop_request (stop_finish l)), f, c)"
    by (rule joins) (simp_all add: stop_request_def stop_finish_def)
  note cons = converse_rtranclp_into_rtranclp [where r = "lidar_step cb"]
  show ?thesis by (rule cons [OF 1 cons [OF 2 r_into_rtranclp [where r = "lidar_step cb", OF 3]]])
qed

lemma start_sensed_step:
  assumes "main_step cap mi (a_phase a) a os = Goes a' os'" "node_ok base (a, os)" "sensed a (l, f, frames)"
    and AtLidar: "a_phase a = AtLidar"
  shows "\<exists>st. (lidar_step record_frame)\<^sup>*\<^sup>* (l, f, frames) st \<and> sensed a' st"
proof -
  obtain ok l' where st: "lidar_start (mi_sdk mi) (mi_spawn_error mi) True (Lidar (o_lidar (a_options a))) = Some (ok, l')"
    using lidar_never_terminates by fastforce
  have l: "l = Lidar (o_lidar (a_options a))" "f = 0" "frames = []" "a_lidar a = None" "a_destroyed a = []"
    using assms(3) AtLidar by (auto simp: sensed_def)
  have 1: "lidar_step record_frame (l, f, frames) (l', 0, frames)"
    using lidar_step.starts [OF st, of record_frame 0 frames] by (simp add: l)
  show ?thesis
  proof (cases ok)
    case True
    then have "sensed a' (l', 0, frames)" using assms(1,3) AtLidar st l by (auto simp: startLidar_def sensed_def outlets_ok_fields)
    with 1 show ?thesis by blast
  next
    case False
    have w: "l_worker l' = Detached"
      using st False by (auto simp: lidar_start_def Lidar_def openDevice_def lidar_setError_def Let_def split: prod.splits option.splits if_splits)
    have 2: "lidar_step record_frame (l', 0, frames) (stop_request l', 0, frames)" by (rule requests)
    have 3: "lidar_step record_frame (stop_request l', 0, frames) (stop_finish (stop_request l'), 0, frames)"
      by (rule joins) (simp_all add: stop_request_def w)
    note cons = converse_rtranclp_into_rtranclp [where r = "lidar_step record_frame"]
    have "(lidar_step record_frame)\<^sup>*\<^sup>* (l, f, frames) (stop_finish (stop_request l'), 0, frames)"
      by (rule cons [OF 1 cons [OF 2 r_into_rtranclp [where r = "lidar_step record_frame", OF 3]]])
    moreover have "sensed a' (stop_finish (stop_request l'), 0, frames)"
      using assms(1,3) AtLidar st l False by (auto simp: startLidar_def sensed_def outlets_ok_fields)
    ultimately show ?thesis by blast
  qed
qed

lemma shutdown_sensed:
  assumes "main_step cap mi (a_phase a) a os = Goes a' os'" "node_ok base (a, os)" "sensed a (l, f, frames)"
    and Shutting: "a_phase a = Shutting c st code"
  shows "\<exists>st. (lidar_step record_frame)\<^sup>*\<^sup>* (l, f, frames) st \<and> sensed a' st"
proof -
  have phase: "phase_ok (a_phase a) a" using assms(2) by (simp add: node_ok_def)
  have stay: ?thesis if "sensed a' (l, f, frames)" using that by blast
  show ?thesis
  proof (cases st)
    case StopLidar
    show ?thesis
    proof (cases "a_lidar a")
      case None
      then show ?thesis using assms(1,3) Shutting StopLidar
        by (intro stay, elim sensed_cong) (auto simp: stop_lidar_def)
    next
      case (Some l')
      with assms(3) have l: "a_lidar a = Some l" "a_failures a = f" "a_destroyed a = []" by (simp_all add: sensed_def)
      have "a' = at (Shutting c JoinLidar code) (stop_lidar a)"
        using assms(1) Shutting StopLidar l(1) by (simp add: stop_lidar_def)
      then have "sensed a' (stop_request l, f, frames)"
        using assms(3) l by (simp add: stop_lidar_def sensed_def)
      then show ?thesis
        by (intro exI [of _ "(stop_request l, f, frames)"] conjI r_into_rtranclp [where r = "lidar_step record_frame"] requests)
    qed
  next
    case JoinLidar
    then obtain l' where l': "a_lidar a = Some l'" "l_stop_requested l'" using phase Shutting by auto
    have l: "a_lidar a = Some l" "l_stop_requested l" "a_destroyed a = []"
      using assms(3) l' by (simp_all add: sensed_def)
    have w: "l_worker l \<noteq> Running" using assms(1) Shutting JoinLidar l(1) by (cases "l_worker l = Running") simp_all
    have "a' = at (Shutting c StopTcp code) (release_lidar a)"
      using assms(1) Shutting JoinLidar l(1) w by simp
    then have "sensed a' (stop_finish (stop_request (stop_finish l)), f, frames)"
      using assms(3) l by (simp add: release_lidar_def sensed_def)
    then show ?thesis
      by (intro exI [of _ "(stop_finish (stop_request (stop_finish l)), f, frames)"] conjI destroyed_steps [OF w l(2)])
  next
    case StopTcp
    then show ?thesis using assms(1,3) Shutting by (intro stay, elim sensed_cong) (auto simp: stop_tcp_def)
  next
    case JoinTcp
    then show ?thesis using assms(1,3) Shutting
      by (intro stay, elim sensed_cong) (auto simp: release_tcp_and_can_def split: prod.splits if_splits)
  qed
qed

lemma main_sensed:
  assumes "main_step cap mi (a_phase a) a os = Goes a' os'" "node_ok base (a, os)" "sensed a (l, f, frames)"
  shows "\<exists>st. (lidar_step record_frame)\<^sup>*\<^sup>* (l, f, frames) st \<and> sensed a' st"
proof -
  have stay: ?thesis if "sensed a' (l, f, frames)" using that by blast
  show ?thesis
  proof (cases "a_phase a")
    case AtSignals
    then show ?thesis using assms(1,3)
      by (intro stay, elim sensed_cong) (auto simp: Let_def split: prod.splits if_splits)
  next
    case AtCan
    then show ?thesis using assms(1,3)
      by (intro stay, elim sensed_cong) (auto simp: startCanBus_def Let_def split: prod.splits if_splits)
  next
    case AtTcp
    then show ?thesis using assms(1,3)
      by (intro stay, elim sensed_cong) (auto simp: startTcpServer_def Let_def split: prod.splits if_splits option.splits)
  next
    case AtLidar
    then show ?thesis by (rule start_sensed_step [OF assms])
  next
    case Supervising
    then show ?thesis using assms(1,3)
      by (intro stay, elim sensed_cong)
        (auto simp: supervise_round_def reportHealth_def Let_def split: prod.splits if_splits option.splits)
  next
    case (Shutting c st code)
    then show ?thesis by (rule shutdown_sensed [OF assms])
  next
    case (Exited code)
    then show ?thesis using assms(1) by simp
  qed
qed


lemma acquires_sensed:
  assumes "node_ok base (a, os)" "sensed a (l, f, frames)" "a_lidar a = Some l'" "l_worker l' = Running" "\<not> l_stop_requested l'"
    and "lidar_run_body record_frame it (a_failures a) l' [] = (go_on, f', l1, more_frames)"
    and cb: "callbacks cap k (a_options a) (a_can a) more_frames (a_out a, os) (out, os')"
  shows "\<exists>st'. (lidar_step record_frame)\<^sup>*\<^sup>* (l, f, frames) st' \<and>
    sensed (a\<lparr>a_lidar := Some (if go_on then l1 else lidar_run_exit l1), a_failures := f', a_out := out\<rparr>) st'"
proof -
  have l: "a_lidar a = Some l" "l' = l" "a_failures a = f" "a_destroyed a = []"
    "outlets_ok (a_options a) frames (a_out a)" "a_phase a \<notin> {AtSignals, AtCan, AtTcp, AtLidar}"
    using assms(2,3) by (auto simp: sensed_def)
  have run: "l_worker l = Running" "\<not> l_stop_requested l" using assms(4,5) l(2) by simp_all
  have "phase_ok (a_phase a) a" using assms(1) by (simp add: node_ok_def)
  then have ready: "o_no_can (a_options a) \<or> isOpen (a_can a)"
    using l(1,6) by (cases "a_phase a") (auto simp: can_ready_def all_stopped_def split: if_splits)
  have "\<not> fst (record_frame f fs)" for f fs by (simp add: record_frame_def)
  from run_body_quiet [OF this assms(6), of frames] l(2,3)
  have rec: "lidar_run_body record_frame it f l frames = (go_on, f', l1, frames @ more_frames)"
    and raw: "\<forall>f \<in> set more_frames. raw_frame f" by (auto simp: recorded)
  let ?l = "if go_on then l1 else lidar_run_exit l1"
  have "lidar_step record_frame (l, f, frames) (?l, f', frames @ more_frames)"
    using lidar_step.iterates [OF run, of record_frame it f frames f' l1 "frames @ more_frames"]
      lidar_step.breaks [OF run, of record_frame it f frames f' l1 "frames @ more_frames"] rec by auto
  moreover have "outlets_ok (a_options a) (frames @ more_frames) out"
    by (rule outlets_ok_frames [OF cb l(5) raw ready])
  then have "sensed (a\<lparr>a_lidar := Some ?l, a_failures := f', a_out := out\<rparr>) (?l, f', frames @ more_frames)"
    using l(4,6) by (simp add: sensed_def)
  ultimately show ?thesis by blast
qed

lemma node_simulates:
  assumes "node_step cap s s'" "0 < cap" "node_sensed base s st"
  shows "\<exists>st'. (lidar_step record_frame)\<^sup>*\<^sup>* st st' \<and> node_sensed base s' st'"
proof -
  have ok: "node_ok base s" "node_ok base s'" and sens: "sensed (fst s) st"
    using assms node_step_ok [OF assms(1,2)] by (simp_all add: node_sensed_def)
  obtain l f frames where st: "st = (l, f, frames)" by (cases st) auto
  have "\<exists>st'. (lidar_step record_frame)\<^sup>*\<^sup>* st st' \<and> sensed (fst s') st'"
    using assms(1)
  proof cases
    case (main_steps mi a os a' os')
    then show ?thesis using main_sensed [OF main_steps(3)] ok(1) sens by (simp add: st)
  next
    case (acquires a l' it go_on f' l1 more_frames k os out os')
    then show ?thesis using acquires_sensed [OF _ _ acquires(3-5,7,8)] ok(1) sens by (simp add: st)
  next
    case (acquisition_leaves a l' os)
    have l: "a_lidar a = Some l" "l' = l" "a_failures a = f" "a_destroyed a = []"
      "outlets_ok (a_options a) frames (a_out a)" "a_phase a \<notin> {AtSignals, AtCan, AtTcp, AtLidar}"
      using sens acquisition_leaves(1,3) by (auto simp: sensed_def st)
    have "lidar_step record_frame st (lidar_run_exit l, f, frames)"
      unfolding st by (rule lidar_step.leaves) (use acquisition_leaves(4,5) l(2) in simp_all)
    moreover have "sensed (fst s') (lidar_run_exit l, f, frames)"
      using l acquisition_leaves(2) by (simp add: sensed_def)
    ultimately show ?thesis by blast
  next
    case (serves a os t os')
    have "sensed (set_tcp t a) st"
      by (rule sensed_cong [of a]) (use sens serves(1) in simp_all)
    then show ?thesis using serves(2) by (intro exI [of _ st]) simp
  qed
  with ok(2) show ?thesis by (auto simp: node_sensed_def)
qed

interpretation sensing: simulation "node_step (Suc n)" "lidar_step record_frame" "node_sensed base" for base n
  by unfold_locales (erule node_simulates, simp_all)

end
