(* ===== verification/NodePolling.thy ===== *)
theory NodePolling
  imports Node
begin

text \<open>
  The node with the place of the I/O thread in its loop: before the test, inside \<open>poll\<close>, which blocks until
  something is ready, or at one of the three stages that follow. \<open>Node\<close> lets the thread take its stages in
  any order and leave whenever it has been asked to; here it gets to the test from inside \<open>poll\<close> only when
  \<open>poll\<close> returns, so that the byte which \<open>stop\<close> writes into the wake pipe matters. Each step is one of the
  node's steps, or changes the place alone.
\<close>

section \<open>The places of the loop\<close>

datatype io_where = BeforeTest | Polling | ServingClient | Accepting | Sending

inductive poll_loop :: "io_where \<times> tcp_server \<times> os \<Rightarrow> io_where \<times> tcp_server \<times> os \<Rightarrow> bool" where
  enters_poll: "t_worker t = Running \<Longrightarrow> \<not> t_stop_requested t \<Longrightarrow> poll_loop (BeforeTest, t, os) (Polling, t, os)"
| leaves_loop: "t_worker t = Running \<Longrightarrow> t_stop_requested t \<Longrightarrow> tcp_run_exit t os = (t', os') \<Longrightarrow>
    poll_loop (BeforeTest, t, os) (BeforeTest, t', os')"
| poll_interrupted: "t_worker t = Running \<Longrightarrow> poll_loop (Polling, t, os) (BeforeTest, t, os)"
| poll_fails: "t_worker t = Running \<Longrightarrow> tcp_run_exit (tcp_setError (net_describeErrno ''poll()'' e) t) os = (t', os') \<Longrightarrow>
    poll_loop (Polling, t, os) (BeforeTest, t', os')"
| poll_wakes: "t_worker t = Running \<Longrightarrow> 0 < in_pipe (t_wake t) \<Longrightarrow>
    poll_loop (Polling, t, os) (ServingClient, t\<lparr>t_wake := wp_drain (t_wake t)\<rparr>, os)"
| poll_serves: "t_worker t = Running \<Longrightarrow> poll_loop (Polling, t, os) (ServingClient, t, os)"
| serves_client: "t_worker t = Running \<Longrightarrow> cs_valid (t_session t) \<Longrightarrow>
    serviceClientEvents revents script t os = Some (t', os') \<Longrightarrow> poll_loop (ServingClient, t, os) (Accepting, t', os')"
| serves_nobody: "t_worker t = Running \<Longrightarrow> \<not> cs_valid (t_session t) \<Longrightarrow> poll_loop (ServingClient, t, os) (Accepting, t, os)"
| accepts_client: "t_worker t = Running \<Longrightarrow> fresh_accepts os accept_script \<Longrightarrow>
    acceptClient accept_script t os = Some (t', os') \<Longrightarrow> poll_loop (Accepting, t, os) (Sending, t', os')"
| accepts_nobody: "t_worker t = Running \<Longrightarrow> poll_loop (Accepting, t, os) (Sending, t, os)"
| sends_frames: "t_worker t = Running \<Longrightarrow> cs_valid (t_session t) \<Longrightarrow> serviceOutput script t os = Some (t', os', wire) \<Longrightarrow>
    poll_loop (Sending, t, os) (BeforeTest, t', os')"
| clears_frames: "t_worker t = Running \<Longrightarrow> \<not> cs_valid (t_session t) \<Longrightarrow>
    poll_loop (Sending, t, os) (BeforeTest, t\<lparr>t_queue := clear (t_queue t)\<rparr>, os)"

inductive_cases poll_loop_test: "poll_loop (BeforeTest, t, os) s'"

text \<open>A stage of the loop, or nothing but a change of the place.\<close>

lemma poll_loop_io:
  assumes "poll_loop (p, t, os) (p', t', os')"
  shows "t_worker t = Running" "io_step (t, os) (t', os') \<or> t' = t \<and> os' = os"
proof -
  show "t_worker t = Running" using assms by cases
  show "io_step (t, os) (t', os') \<or> t' = t \<and> os' = os"
    using assms
  proof cases
    case leaves_loop
    then show ?thesis using io_step.leaves [of t os] by simp
  next
    case (poll_fails e)
    then show ?thesis using breaks [of t os e] by simp
  qed (auto intro: io_step.intros)
qed

text \<open>
  The body of the loop, as a function of the environment's answers, is a round of these places, if \<open>poll\<close>
  reports the wake pipe only when there is something to read.
\<close>

lemma turn_places:
  assumes "tcp_turn turn t os = Some (goes_on, t', os', wire)" "t_worker t = Running" "fresh_turn turn t os" "tcp_ok base (t, os)"
    and "\<And>listen_in revents. io_poll turn = Done (True, listen_in, revents) \<Longrightarrow> 0 < in_pipe (t_wake t)"
  shows "poll_loop\<^sup>*\<^sup>* (Polling, t, os) (if goes_on then (BeforeTest, t', os') else (BeforeTest, tcp_run_exit t' os'))"
  using assms(1)
proof (cases rule: turn_cases)
  case interrupted
  then show ?thesis using poll_interrupted [OF assms(2), of os] by auto
next
  case (failed e)
  then show ?thesis using poll_fails [OF assms(2), of e os] by (cases "tcp_run_exit t' os'") auto
next
  case (served wake_in listen_in revents t1 os1 t2 os2)
  have polled: "poll_loop (Polling, t, os) (ServingClient, woken turn t, os)"
    using poll_wakes [OF assms(2) assms(5)] poll_serves [OF assms(2)] served(1) by (cases wake_in) (auto simp: woken_def)
  have run: "t_worker (woken turn t) = Running" using assms(2) by (simp add: woken_step)
  have events: "poll_loop (ServingClient, woken turn t, os) (Accepting, t1, os1)"
    using served(3) serves_client [OF run] serves_nobody [OF run] by (auto simp: events_served_def split: if_splits)
  note e = events_step [OF served(3) assms(2)]
  have ok1: "tcp_ok base (t1, os1)"
    using e(1) assms(4) by (induction rule: rtranclp_induct) (auto intro: io_step_ok)
  have accepted: "poll_loop (Accepting, t1, os1) (Sending, t2, os2) \<and> t_worker t2 = Running"
  proof (cases listen_in)
    case True
    then have a: "acceptClient (io_accept turn) t1 os1 = Some (t2, os2)" using served(4) by simp
    have f: "fresh_accepts os1 (io_accept turn)" using assms(3) served(1,3) True by (simp add: fresh_turn_def)
    show ?thesis using accepts_client [OF e(2) f a] acceptClient_ok(2) [OF ok1 e(2) f a] by blast
  next
    case False
    then show ?thesis using served(4) e(2) accepts_nobody by simp
  qed
  then have "poll_loop (Sending, t2, os2) (BeforeTest, t', os')"
    using served(5) sends_frames clears_frames by (cases "cs_valid (t_session t2)") auto
  then have "poll_loop\<^sup>*\<^sup>* (Polling, t, os) (BeforeTest, t', os')"
    using polled events accepted by (meson converse_rtranclp_into_rtranclp r_into_rtranclp)
  with served(2) show ?thesis by simp
qed

section \<open>The node\<close>

text \<open>
  A thread that is started begins before the test. During an iteration of the acquisition thread the I/O
  thread runs on, and may be anywhere at its end.
\<close>

inductive polled_step :: "nat \<Rightarrow> io_where \<times> application \<times> os \<Rightarrow> io_where \<times> application \<times> os \<Rightarrow> bool" for cap where
  p_main: "main_step cap mi (a_phase a) a os = Goes a' os' \<Longrightarrow> fresh_main mi a os \<Longrightarrow>
    polled_step cap (p, a, os) (if t_worker (a_tcp a) = Running then p else BeforeTest, a', os')"
| p_acquires: "a_lidar a = Some l \<Longrightarrow> l_worker l = Running \<Longrightarrow> \<not> l_stop_requested l \<Longrightarrow>
    it_stop it \<longrightarrow> stop_pending a \<Longrightarrow>
    lidar_run_body record_frame it (a_failures a) l [] = (go_on, f, l', frames) \<Longrightarrow>
    callbacks cap k (a_options a) (a_can a) frames (a_out a, os) (out, os') \<Longrightarrow>
    polled_step cap (p, a, os)
      (p', a\<lparr>a_lidar := Some (if go_on then l' else lidar_run_exit l'), a_failures := f, a_out := out\<rparr>, os')"
| p_leaves: "a_lidar a = Some l \<Longrightarrow> l_worker l = Running \<Longrightarrow> l_stop_requested l \<Longrightarrow>
    polled_step cap (p, a, os) (p, a\<lparr>a_lidar := Some (lidar_run_exit l)\<rparr>, os)"
| p_io: "poll_loop (p, a_tcp a, os) (p', t, os') \<Longrightarrow> polled_step cap (p, a, os) (p', set_tcp t a, os')"

lemma set_tcp_same: "set_tcp (a_tcp a) a = a"
  by (simp add: set_tcp_def)

lemma polled_node_step:
  assumes "polled_step cap s s'"
  shows "node_step cap (snd s) (snd s') \<or> snd s' = snd s"
  using assms
proof (induction rule: polled_step.induct)
  case (p_main mi a os a' os' p)
  then show ?case by (simp add: main_steps)
next
  case (p_acquires a l it go_on f l' frames k os out os' p p')
  from acquires [OF p_acquires] show ?case by (metis snd_conv)
next
  case (p_leaves a l p os)
  then show ?case by (simp add: acquisition_leaves)
next
  case (p_io p a os p' t os')
  then show ?case using serves [where cap = cap] poll_loop_io(2) [OF p_io] set_tcp_same by (metis snd_conv)
qed

lemma polled_node_steps: "(polled_step cap)\<^sup>*\<^sup>* s s' \<Longrightarrow> (node_step cap)\<^sup>*\<^sup>* (snd s) (snd s')"
proof (induction rule: rtranclp_induct)
  case (step y z)
  then show ?case using polled_node_step [OF step.hyps(2)] by (auto intro: rtranclp.rtrancl_into_rtrancl)
qed simp

text \<open>Steps during which the I/O thread stays before the test.\<close>

definition tested_step :: "nat \<Rightarrow> application \<times> os \<Rightarrow> application \<times> os \<Rightarrow> bool" where
  "tested_step cap s s' \<longleftrightarrow> polled_step cap (BeforeTest, s) (BeforeTest, s')"

lemma tested_main: "main_step cap mi (a_phase a) a os = Goes a' os' \<Longrightarrow> fresh_main mi a os \<Longrightarrow> tested_step cap (a, os) (a', os')"
  using p_main [of cap mi a os a' os' BeforeTest] by (simp add: tested_step_def)

lemma tested_leaves: "a_lidar a = Some l \<Longrightarrow> l_worker l = Running \<Longrightarrow> l_stop_requested l \<Longrightarrow>
    tested_step cap (a, os) (a\<lparr>a_lidar := Some (lidar_run_exit l)\<rparr>, os)"
  unfolding tested_step_def by (rule p_leaves)

lemma tested_exit: "t_worker (a_tcp a) = Running \<Longrightarrow> t_stop_requested (a_tcp a) \<Longrightarrow> tcp_run_exit (a_tcp a) os = (t, os') \<Longrightarrow>
    tested_step cap (a, os) (set_tcp t a, os')"
  unfolding tested_step_def by (rule p_io, rule leaves_loop)

lemma tested_polled: "(tested_step cap)\<^sup>*\<^sup>* s s' \<Longrightarrow> (polled_step cap)\<^sup>*\<^sup>* (BeforeTest, s) (BeforeTest, s')"
  by (induction rule: rtranclp_induct) (auto simp: tested_step_def intro: rtranclp.rtrancl_into_rtrancl)

lemma tested_node: "(tested_step cap)\<^sup>*\<^sup>* s s' \<Longrightarrow> (node_step cap)\<^sup>*\<^sup>* s s'"
  using polled_node_steps [OF tested_polled] by simp

lemma tested_node_ok: "tested_step cap s s' \<Longrightarrow> 0 < cap \<Longrightarrow> node_ok base s \<Longrightarrow> node_ok base s'"
  using polled_node_step [of cap "(BeforeTest, s)" "(BeforeTest, s')"] node_step_ok [of cap s s' base]
  by (auto simp: tested_step_def)

section \<open>A thread that has been asked to leave has been woken\<close>

definition asked :: "application \<Rightarrow> bool" where
  "asked a \<longleftrightarrow> t_worker (a_tcp a) = Running \<and> t_stop_requested (a_tcp a)"

definition polled_ok :: "int set \<Rightarrow> io_where \<times> application \<times> os \<Rightarrow> bool" where
  "polled_ok base s \<longleftrightarrow> (case s of (p, a, os) \<Rightarrow> node_ok base (a, os) \<and>
     (asked a \<longrightarrow> (\<exists>c code. a_phase a = Shutting c JoinTcp code) \<and> (p = Polling \<longrightarrow> 0 < in_pipe (t_wake (a_tcp a)))))"

lemma not_asked_ok: "node_ok base (a, os) \<Longrightarrow> \<not> asked a \<Longrightarrow> polled_ok base (p, a, os)"
  by (simp add: polled_ok_def)

text \<open>The signal of \<open>stop\<close> leaves a byte in the pipe of a thread that runs.\<close>

lemma stop_wakes:
  assumes "node_ok base (a, os)" "0 < cap" "t_worker (a_tcp a) = Running"
  shows "0 < in_pipe (t_wake (a_tcp (stop_tcp cap a)))"
proof -
  have ok: "tcp_ok (base \<union> can_fds a) (a_tcp a, os)" using assms(1) by (simp add: node_ok_def)
  then have "fd_valid (write_end (t_wake (a_tcp a)))" "wake_ok (t_wake (a_tcp a))"
    using assms(3) by (auto simp: tcp_ok_def thread_ok_def wake_ready_def)
  then show ?thesis using wp_signal_wakes [OF _ assms(2)] by (simp add: stop_tcp_def tcp_stop_request_def)
qed

lemma main_asked:
  assumes "main_step cap mi (a_phase a) a os = Goes a' os'" "fresh_main mi a os" "polled_ok base (p, a, os)" "0 < cap" "asked a'"
  shows "(\<exists>c code. a_phase a' = Shutting c JoinTcp code) \<and> 0 < in_pipe (t_wake (a_tcp a'))"
proof -
  have ok: "node_ok base (a, os)" using assms(3) by (simp add: polled_ok_def)
  have before: "asked a \<Longrightarrow> \<exists>c code. a_phase a = Shutting c JoinTcp code" using assms(3) by (simp add: polled_ok_def)
  show ?thesis
  proof (cases "a_phase a")
    case AtTcp
    then have det: "t_worker (a_tcp a) = Detached" and tcp: "tcp_ok (base \<union> can_fds a) (a_tcp a, os)"
      using ok by (simp_all add: node_ok_def)
    then have "\<not> t_running (a_tcp a)" by (simp add: tcp_ok_def thread_ok_def)
    moreover have "fresh_start (mi_tcp mi) (a_tcp a) os" using assms(2) AtTcp by (simp add: fresh_main_def)
    ultimately have out: "start_post (base \<union> can_fds a) (mi_tcp mi) (a_tcp a) (tcp_start (mi_tcp mi) (a_tcp a) os)"
      using tcp_start_outcome [OF tcp] by blast
    obtain started t os1 where t: "tcp_start (mi_tcp mi) (a_tcp a) os = Some (started, t, os1)"
      using assms(1) AtTcp by (cases "tcp_start (mi_tcp mi) (a_tcp a) os") (auto simp: startTcpServer_def)
    then have "a_tcp a' = t" using assms(1) AtTcp by (auto simp: startTcpServer_def Let_def)
    then have "\<not> asked a'" using out t det by (cases started) (auto simp: start_post_def asked_def)
    with assms(5) show ?thesis by blast
  next
    case (Shutting c st code)
    show ?thesis
    proof (cases st)
      case StopTcp
      then have a': "a' = at (Shutting c JoinTcp code) (stop_tcp cap a)" using assms(1) Shutting by simp
      then have "t_worker (a_tcp a) = Running" using assms(5) by (simp add: asked_def stop_tcp_def tcp_stop_request_def)
      with stop_wakes [OF ok assms(4)] show ?thesis by (simp add: a')
    next
      case JoinTcp
      then have "t_worker (a_tcp a') = Detached"
        using assms(1) Shutting by (auto simp: release_tcp_and_can_def tcp_stop_finish_def split: if_splits prod.splits)
      with assms(5) show ?thesis by (simp add: asked_def)
    next
      case StopLidar
      then have "a_tcp a' = a_tcp a" using assms(1) Shutting by (auto simp: stop_lidar_def Let_def)
      with before assms(5) Shutting StopLidar show ?thesis by (simp add: asked_def)
    next
      case JoinLidar
      then have "a_tcp a' = a_tcp a" using assms(1) Shutting by (auto simp: release_lidar_def split: if_splits option.splits)
      with before assms(5) Shutting JoinLidar show ?thesis by (simp add: asked_def)
    qed
  next
    case Supervising
    then have "a_tcp a' = a_tcp a"
      using assms(1) by (auto simp: supervise_round_def reportHealth_def Let_def split: option.splits prod.splits if_splits)
    with before assms(5) Supervising show ?thesis by (simp add: asked_def)
  next
    case AtSignals
    then have "a_tcp a' = a_tcp a" using assms(1) by (auto simp: Let_def split: prod.splits if_splits)
    with before assms(5) AtSignals show ?thesis by (simp add: asked_def)
  next
    case AtCan
    then have "a_tcp a' = a_tcp a" using assms(1) by (auto simp: startCanBus_def Let_def split: prod.splits if_splits)
    with before assms(5) AtCan show ?thesis by (simp add: asked_def)
  next
    case AtLidar
    then have "a_tcp a' = a_tcp a" using assms(1) by (auto simp: startLidar_def split: option.splits prod.splits if_splits)
    with before assms(5) AtLidar show ?thesis by (simp add: asked_def)
  qed (use assms(1) in simp)
qed

text \<open>A call of \<open>publish\<close> neither asks the I/O thread to leave nor starts it.\<close>

lemma io_steps_asked:
  assumes "io_step\<^sup>*\<^sup>* s s'" "t_worker (fst s') = Running" "t_stop_requested (fst s')"
  shows "t_worker (fst s) = Running \<and> t_stop_requested (fst s)"
  using assms
proof (induction rule: converse_rtranclp_induct)
  case (step y z)
  then show ?case using io_step_fields [of "fst y" "snd y" "fst z" "snd z"] by simp
qed simp

lemma publish_piece_fields:
  "t_worker (publish_count t) = t_worker t" "t_stop_requested (publish_count t) = t_stop_requested t"
  "t_worker (publish_discard t) = t_worker t" "t_stop_requested (publish_discard t) = t_stop_requested t"
  "t_worker (publish_push f t) = t_worker t" "t_stop_requested (publish_push f t) = t_stop_requested t"
  "t_worker (publish_signal cap t) = t_worker t" "t_stop_requested (publish_signal cap t) = t_stop_requested t"
  by (simp_all add: publish_count_def publish_discard_def publish_push_def publish_signal_def split_beta Let_def)

lemma publishes_asked:
  assumes "publishes cap f s s'" "t_worker (fst s') = Running" "t_stop_requested (fst s')"
  shows "t_worker (fst s) = Running \<and> t_stop_requested (fst s)"
  using assms
proof (induction rule: publishes.induct)
  case (no_client t os t1 os1 t2 os2)
  then show ?case using io_steps_asked [OF no_client(3)] io_steps_asked [OF no_client(1)] by (simp add: publish_piece_fields)
next
  case (not_running t os t1 os1 t2 os2 t3 os3)
  then show ?case using io_steps_asked [OF not_running(5)] io_steps_asked [OF not_running(3)] io_steps_asked [OF not_running(1)]
    by (simp add: publish_piece_fields)
next
  case (queues t os t1 os1 t2 os2 t3 os3 t4 os4)
  then show ?case using io_steps_asked [OF queues(6)] io_steps_asked [OF queues(5)] io_steps_asked [OF queues(3)] io_steps_asked [OF queues(1)]
    by (simp add: publish_piece_fields)
qed

lemma callbacks_asked:
  assumes "callbacks cap k options can frames (out, os) (out', os')" "t_worker (o_tcp out') = Running" "t_stop_requested (o_tcp out')"
  shows "t_worker (o_tcp out) = Running \<and> t_stop_requested (o_tcp out)"
  using assms
proof (induction rule: callbacks_induct)
  case (cons f frames out os t os1 out' os')
  then show ?case using publishes_asked [OF cons(2)] decide_effect(1) [of "out\<lparr>o_tcp := t\<rparr>"] by simp
qed simp_all

lemma polled_step_ok:
  assumes "polled_step cap s s'" "0 < cap" "polled_ok base s"
  shows "polled_ok base s'"
proof -
  have ok: "node_ok base (snd s')"
    using polled_node_step [OF assms(1)] node_step_ok [of cap "snd s" "snd s'" base] assms(2,3)
    by (cases s) (auto simp: polled_ok_def)
  show ?thesis
    using assms(1)
  proof cases
    case (p_main mi a os a' os' p)
    have "polled_ok base (p, a, os)" using assms(3) p_main(1) by simp
    from main_asked [OF p_main(3,4) this assms(2)] ok show ?thesis by (simp add: polled_ok_def p_main(2))
  next
    case (p_acquires a l it go_on f l' frames k os out os' p p')
    have "\<not> asked a"
      using assms(3) p_acquires(1,3) by (auto simp: polled_ok_def node_ok_def)
    then have "\<not> (t_worker (o_tcp out) = Running \<and> t_stop_requested (o_tcp out))"
      using callbacks_asked [OF p_acquires(8)] by (auto simp: asked_def)
    with ok show ?thesis unfolding polled_ok_def p_acquires(2) asked_def by auto
  next
    case (p_leaves a l p os)
    then show ?thesis using assms(3) ok by (simp add: polled_ok_def asked_def)
  next
    case (p_io p a os p' t os')
    note io = poll_loop_io [OF p_io(3)]
    have "t_stop_requested t = t_stop_requested (a_tcp a)" using io io_step_fields(2) by blast
    moreover have "p' \<noteq> Polling \<or> \<not> t_stop_requested (a_tcp a)" using p_io(3) by cases simp_all
    ultimately show ?thesis using assms(3) ok io(1) by (auto simp: polled_ok_def p_io(1,2) asked_def)
  qed
qed

text \<open>The start: the I/O thread does not exist yet.\<close>

definition polled_start :: "int set \<Rightarrow> io_where \<times> application \<times> os \<Rightarrow> bool" where
  "polled_start base s \<longleftrightarrow> fst s = BeforeTest \<and> node_start base (snd s)"

lemma polled_start_ok: "polled_start base s \<Longrightarrow> polled_ok base s"
  using node_start_ok
  by (cases s) (auto simp: polled_start_def polled_ok_def asked_def node_start_def Application_def TcpServer_def)

interpretation polled: inductive_invariant "polled_start base" "polled_step (Suc n)" "polled_ok base" for base n
  by unfold_locales (erule polled_start_ok, erule polled_step_ok, simp_all)

lemma reachable_polled_ok: "polled_start base s \<Longrightarrow> 0 < cap \<Longrightarrow> (polled_step cap)\<^sup>*\<^sup>* s s' \<Longrightarrow> polled_ok base s'"
  using polled.reachable_inv by (metis gr0_implies_Suc)

end
