(* ===== verification/NodeSample.thy ===== *)
theory NodeSample
  imports NodePolling ServerProperties
begin

text \<open>
  A node that starts: default options, a process with the three standard descriptors, every call
  succeeds, and the sensor sees a wall ahead. It serves to show that the hypotheses of the properties of
  the node can hold.
\<close>

text \<open>Three returns at one metre, half a degree right of straight ahead, and their neighbours.\<close>

definition wall_ahead :: "node list" where
  "wall_ahead = map (\<lambda>q. \<lparr>angle_z_q14 = q, dist_mm_q2 = 4000, node_quality = 47\<rparr>) [91, 100, 110, 16000]"

definition sample_wait :: "(int \<times> errno) list \<Rightarrow> main_input" where
  "sample_wait script = \<lparr>mi_sigmask = True, mi_can = sample_kernel\<lparr>k_socket := Done 7\<rparr>, mi_tcp = server_kernel,
     mi_sdk = working_sdk wall_ahead, mi_spawn_error = None, mi_wait = script, mi_long = 32\<rparr>"

definition sample_lidar :: lidar where
  "sample_lidar = snd (the (lidar_start (working_sdk wall_ahead) None True (Lidar default_lidar_config)))"

definition sample_console :: "console_line list" where
  "sample_console =
     [Cout ''aeb_node: CAN interface can0 open'',
      Cout ''aeb_node: TCP visualisation server listening on port 7000'',
      Cout ''aeb_node: acquiring from /dev/ttyUSB0 @ 460800 baud'']"

definition sample_node :: application where
  "sample_node = (Application default_options)
     \<lparr>a_can := (CanBus ''can0'')\<lparr>can_fd := 7\<rparr>, a_lidar := Some sample_lidar,
      a_waiter := fst (SignalWaiter True {}), a_blocked := snd (SignalWaiter True {}),
      a_out := (a_out (Application default_options))\<lparr>o_tcp := sample_server, o_console := sample_console\<rparr>,
      a_phase := Supervising\<rparr>"

definition sample_node_os :: os where
  "sample_node_os = sample_os\<lparr>open_fds := {3, 4, 5, 7} \<union> open_fds sample_os\<rparr>"

lemma sample_start: "node_start {0, 1, 2} (Application default_options, sample_os)"
  by (auto simp: node_start_def sample_os_def)

lemma sample_lidar_started:
  "lidar_start (working_sdk wall_ahead) None True (Lidar default_lidar_config) = Some (True, sample_lidar)"
  "l_worker sample_lidar = Running" "\<not> l_stop_requested sample_lidar" "l_running sample_lidar"
  "dev_isOpen (l_device sample_lidar)" "dev_config (l_device sample_lidar) = default_lidar_config"
  by (simp_all add: sample_lidar_def lidar_start_def Lidar_def openDevice_def dev_open_def dev_close_def working_sdk_def
        RpLidarDevice_def joinable_def dev_isOpen_def Let_def)

lemma sample_can: "can_open (sample_kernel\<lparr>k_socket := Done 7\<rparr>) (CanBus ''can0'') sample_os =
    (True, (CanBus ''can0'')\<lparr>can_fd := 7\<rparr>, sample_os\<lparr>open_fds := {7} \<union> open_fds sample_os\<rparr>)"
  by (simp add: can_open_def sample_kernel_def CanBus_def ifr_name_def IFNAMSIZ_def os_open_def)

lemma sample_main:
  assumes "main_step 1 (sample_wait []) (a_phase a) a os = Goes a' os'" "fresh_main (sample_wait []) a os"
  shows "tested_step 1 (a, os) (a', os')"
  using assms by (rule tested_main)

lemma sample_lines:
  "o_canbus (a_options a) = ''can0'' \<Longrightarrow> can_line True a = sample_console ! 0"
  "o_tcp_server (a_options a) = default_tcp_config \<Longrightarrow> tcp_line True a = sample_console ! Suc 0"
  "o_lidar (a_options a) = default_lidar_config \<Longrightarrow> lidar_line True l a = sample_console ! Suc (Suc 0)"
  by (simp_all add: sample_console_def can_line_def tcp_line_def lidar_line_def to_string.simps default_tcp_config_def default_lidar_config_def char_of_def bit_iff_odd)

lemma sample_node_tested: "(tested_step 1)\<^sup>*\<^sup>* (Application default_options, sample_os) (sample_node, sample_node_os)"
proof -
  let ?a1 = "at AtCan ((Application default_options)\<lparr>a_waiter := fst (SignalWaiter True {}), a_blocked := snd (SignalWaiter True {})\<rparr>)"
  let ?a2 = "at AtTcp (say (sample_console ! 0) (?a1\<lparr>a_can := (CanBus ''can0'')\<lparr>can_fd := 7\<rparr>\<rparr>))"
  let ?a3 = "at AtLidar (say (sample_console ! Suc 0) (set_tcp sample_server ?a2))"
  let ?a4 = "at Supervising (say (sample_console ! Suc (Suc 0)) (?a3\<lparr>a_lidar := Some sample_lidar, a_failures := 0\<rparr>))"
  let ?os2 = "sample_os\<lparr>open_fds := {7} \<union> open_fds sample_os\<rparr>"
  have 1: "tested_step 1 (Application default_options, sample_os) (?a1, sample_os)"
    by (rule sample_main)
      (simp_all add: Application_def sample_wait_def fresh_main_def SignalWaiter_def sw_valid_def Let_def)
  have 2: "tested_step 1 (?a1, sample_os) (?a2, ?os2)"
    by (rule sample_main)
      (simp_all add: Application_def sample_wait_def fresh_main_def startCanBus_def default_options_def sample_can sample_lines Let_def,
        simp add: fresh_fd_def sample_os_def)
  have 3: "tested_step 1 (?a2, ?os2) (?a3, sample_node_os)"
    using sample_started_at [of ?os2]
    by (intro sample_main)
      (simp_all add: Application_def sample_wait_def fresh_main_def startTcpServer_def default_options_def sample_os_def
        sample_node_os_def insert_commute sample_lines Let_def)
  have 4: "tested_step 1 (?a3, sample_node_os) (?a4, sample_node_os)"
    by (rule sample_main)
      (simp_all add: Application_def sample_wait_def fresh_main_def startLidar_def default_options_def sample_lidar_started sample_lines)
  have "?a4 = sample_node" by (simp add: sample_node_def Application_def set_tcp_def at_def say_def sample_console_def)
  with 4 have 5: "tested_step 1 (?a3, sample_node_os) (sample_node, sample_node_os)" by simp
  note cons = converse_rtranclp_into_rtranclp [where r = "tested_step 1"]
  show ?thesis
    by (rule cons [OF 1 cons [OF 2 cons [OF 3 r_into_rtranclp [where r = "tested_step 1", OF 5]]]])
qed

lemma sample_node_reached: "(node_step 1)\<^sup>*\<^sup>* (Application default_options, sample_os) (sample_node, sample_node_os)"
  by (rule tested_node [OF sample_node_tested])

text \<open>It gets a \<open>SIGTERM\<close>.\<close>

definition sample_leaving :: application where
  "sample_leaving = at (Shutting FromRun StopLidar 0) (say (signal_line 15) sample_node)"

lemma sample_node_fields:
  "a_phase sample_node = Supervising" "a_options sample_node = default_options" "a_lidar sample_node = Some sample_lidar"
  "a_can sample_node = (CanBus ''can0'')\<lparr>can_fd := 7\<rparr>" "a_waiter sample_node = fst (SignalWaiter True {})"
  "a_failures sample_node = 0" "o_can_sent (a_out sample_node) = []"
  by (simp_all add: sample_node_def Application_def)

lemma sample_leaving_tested: "(tested_step 1)\<^sup>*\<^sup>* (Application default_options, sample_os) (sample_leaving, sample_node_os)"
proof -
  let ?mi = "sample_wait [(SIGTERM, EAGAIN)]"
  have "main_step 1 ?mi (a_phase sample_node) sample_node sample_node_os = Goes sample_leaving sample_node_os"
    by (simp add: sample_node_fields sample_leaving_def sample_wait_def waitFor_def SignalWaiter_def SIGTERM_def SIGPIPE_def
        supervise_round_def kExitSuccess_def Let_def)
  moreover have "fresh_main ?mi sample_node sample_node_os"
    by (simp add: fresh_main_def sample_node_fields sample_wait_def from_mask_def SignalWaiter_def Let_def)
  ultimately have "tested_step 1 (sample_node, sample_node_os) (sample_leaving, sample_node_os)" by (rule tested_main)
  with sample_node_tested show ?thesis by (rule rtranclp.rtrancl_into_rtrancl)
qed

lemma sample_leaving_reached: "(node_step 1)\<^sup>*\<^sup>* (Application default_options, sample_os) (sample_leaving, sample_node_os)"
  by (rule tested_node [OF sample_leaving_tested])

text \<open>One revolution of the sensor.\<close>

definition sample_iteration :: iteration where
  "sample_iteration = \<lparr>it_grab = working_sdk wall_ahead, it_now = 0, it_stop = False, it_reopen = working_sdk wall_ahead\<rparr>"

end
