(* ===== verification/NodeProperties.thy ===== *)
theory NodeProperties
  imports NodeSample
begin

text \<open>
  What the node as a whole promises: its brake commands depend on the sensor alone and follow the raw
  measurements, start-up and shutdown leave nothing behind and the process is never terminated by the
  runtime, the supervision ends with the sensor or with a signal, and a shutdown completes.
\<close>

section \<open>From the sensor to the brake\<close>

definition raw_obstacle :: "node list \<Rightarrow> bool" where
  "raw_obstacle ns \<longleftrightarrow> (\<exists>k < 5. 3 \<le> length (filter (\<lambda>n. raw_sector n = Some k) ns))"

definition brake_command :: "bool \<Rightarrow> can_frame" where
  "brake_command obstacle = \<lparr>can_id = 0x080, can_dlc = 1, can_data = [if obstacle then 2 else 1, 0, 0, 0, 0, 0, 0, 0]\<rparr>"

lemma any_obstacle_sectors: "any_obstacle r \<longleftrightarrow> (\<exists>k < 5. obstacle_detected (sectors r ! k))"
proof -
  have "(\<exists>k < 5. P k) \<longleftrightarrow> P 0 \<or> P 1 \<or> P 2 \<or> P 3 \<or> P (4 :: nat)" for P
    by (simp add: numeral_eq_Suc Ex_less_Suc2)
  then show ?thesis by (simp add: any_obstacle_def sectors_def)
qed

lemma brake_frame_raw:
  assumes "points f = collect_points ns" "length ns < 2 ^ 32"
  shows "brake_frame default_perception_config f = Some (brake_command (raw_obstacle ns))"
proof -
  obtain r where r: "process default_perception_config f = Some r"
    and k: "\<forall>k < 5. obstacle_detected (sectors r ! k) \<longleftrightarrow> 3 \<le> length (filter (\<lambda>n. raw_sector n = Some k) ns)"
    using raw_detected [OF assms] by blast
  have "any_obstacle r = raw_obstacle ns" using k by (auto simp: any_obstacle_sectors raw_obstacle_def)
  with r show ?thesis by (simp add: brake_frame_def brake_command_def)
qed

lemma lidar_can_ready: "node_ok base (a, os) \<Longrightarrow> a_lidar a = Some l \<Longrightarrow> o_no_can (a_options a) \<or> isOpen (a_can a)"
  by (cases "a_phase a") (auto simp: node_ok_def can_ready_def all_stopped_def split: if_splits)

text \<open>What an iteration does with a revolution the sensor has delivered.\<close>

lemma revolution_read:
  assumes "dev_isOpen (l_device l)" "SL_IS_OK (it_grab it) result" "sdk_ascend (it_grab it) nodes = ns"
    and "sdk_grab (it_grab it) (max_nodes_per_scan (dev_config (l_device l))) (scan_timeout_ms (dev_config (l_device l))) = (result, nodes)"
  shows "\<exists>l'. lidar_run_body cb it failures l c = (True, 0, l',
      if \<forall>n \<in> set ns. dist_mm_q2 n = 0 then c
      else snd (cb ((l_frame l)\<lparr>points := collect_points ns, sequence := l_next_sequence l, timestamp_us := it_now it\<rparr>) c)) \<and>
    frames_delivered (l_stats l') = frames_delivered (l_stats l) + (if \<forall>n \<in> set ns. dist_mm_q2 n = 0 then 0 else 1)"
proof -
  obtain grabbed pts error dev where g: "grabScan (it_grab it) (l_device l) (points (l_frame l)) = (grabbed, pts, error, dev)"
    by (metis prod_cases4)
  have pts: "grabbed" "pts = collect_points ns"
    using grabScan_result [OF g] assms by (simp_all add: collect_points_eq)
  have none: "pts = [] \<longleftrightarrow> (\<forall>n \<in> set ns. dist_mm_q2 n = 0)" by (auto simp: pts(2) collect_points_eq filter_empty_conv)
  obtain acq l1 c1 where a: "acquireOnce cb (it_grab it) (it_now it) l c = (acq, l1, c1)" by (metis prod_cases3)
  have acq: "acq" "c1 = (if pts = [] then c
      else snd (cb ((l_frame l)\<lparr>points := pts, sequence := l_next_sequence l, timestamp_us := it_now it\<rparr>) c))"
    "frames_delivered (l_stats l1) = frames_delivered (l_stats l) + (if pts = [] then 0 else 1)"
    using a assms(1) pts(1) by (auto simp: acquireOnce_def g frame_empty_def deliverFrame_def Let_def split: if_splits prod.splits)
  show ?thesis using run_body_cases(1) [OF a acq(1), of failures] acq(2,3) unfolding none unfolding pts(2) by simp
qed

lemma start_sensed:
  assumes "node_start base s"
  shows "node_sensed base s (Lidar (o_lidar (a_options (fst s))), 0, [])"
proof -
  obtain options where "fst s = Application options" using assms by (auto simp: node_start_def)
  then show ?thesis using node_start_ok [OF assms]
    by (simp add: node_sensed_def sensed_def Application_def outlets_ok_def sent_for_def)
qed

lemma step_options: "node_step cap s s' \<Longrightarrow> a_options (fst s') = a_options (fst s)"
proof (induction rule: node_step.induct)
  case (main_steps mi a os a' os')
  show ?case
  proof (cases "a_phase a")
    case (Shutting c st code)
    then show ?thesis using main_steps(1)
      by (cases st) (auto simp: stop_lidar_def release_lidar_def stop_tcp_def release_tcp_and_can_def
          split: if_splits prod.splits option.splits)
  qed (use main_steps(1) in \<open>auto simp: startCanBus_def startTcpServer_def startLidar_def supervise_round_def
      reportHealth_def Let_def split: if_splits prod.splits option.splits\<close>)
qed simp_all

lemma reachable_sensed:
  assumes "node_start base s" "0 < cap" "(node_step cap)\<^sup>*\<^sup>* s s'"
  shows "\<exists>st. (lidar_step record_frame)\<^sup>*\<^sup>* (Lidar (o_lidar (a_options (fst s'))), 0, []) st \<and> node_sensed base s' st"
proof -
  obtain n where n: "cap = Suc n" using assms(2) by (cases cap) auto
  have "a_options (fst s') = a_options (fst s)"
    using assms(3) by (induction rule: rtranclp_induct) (auto dest: step_options)
  then show ?thesis using sensing.steps_simulate [OF assms(3) [unfolded n] start_sensed [OF assms(1)]] by simp
qed

lemma default_defined:
  assumes "node_sensed base (a, os) (l, f, frames)" "o_perception (a_options a) = default_perception_config"
  shows "\<not> o_undefined (a_out a)"
proof
  assume "o_undefined (a_out a)"
  then obtain g where "raw_frame g" "brake_frame default_perception_config g = None"
    using assms by (auto simp: node_sensed_def sensed_def outlets_ok_def)
  then show False using raw_process_defined [of g] by (auto simp: raw_frame_def brake_frame_def)
qed

section \<open>Properties\<close>

text \<open>
  C1: The brake depends on the sensor alone. Whatever the viewer, the network, the console and the main
  thread do, and however the threads interleave, what the node has put on the CAN socket is what the
  sensing machine alone, the lidar and its thread with a recorder as the consumer, prescribes in some
  run of its own: one brake command for each revolution it recorded, in order, computed from that
  revolution, up to the first one on which the detector's arithmetic is undefined.
\<close>
theorem brake_refines_sensing:
  assumes "node_start base s" "0 < cap" "(node_step cap)\<^sup>*\<^sup>* s (a, os)"
  shows "\<exists>l f frames. (lidar_step record_frame)\<^sup>*\<^sup>* (Lidar (o_lidar (a_options a)), 0, []) (l, f, frames) \<and>
    (\<forall>l'. a_lidar a = Some l' \<longrightarrow> l' = l) \<and> (\<forall>g \<in> set frames. raw_frame g) \<and>
    o_can_sent (a_out a) = sent_for (a_options a) frames \<and>
    (o_undefined (a_out a) \<longleftrightarrow> (\<exists>g \<in> set frames. process (o_perception (a_options a)) g = None))"
proof -
  obtain l f frames where run: "(lidar_step record_frame)\<^sup>*\<^sup>* (Lidar (o_lidar (a_options a)), 0, []) (l, f, frames)"
    and sens: "node_sensed base (a, os) (l, f, frames)"
    using reachable_sensed [OF assms] by auto
  have "(\<forall>l'. a_lidar a = Some l' \<longrightarrow> l' = l) \<and> (\<forall>g \<in> set frames. raw_frame g) \<and>
    o_can_sent (a_out a) = sent_for (a_options a) frames \<and>
    (o_undefined (a_out a) \<longleftrightarrow> (\<exists>g \<in> set frames. process (o_perception (a_options a)) g = None))"
    using sens by (cases "a_lidar a") (simp_all add: node_sensed_def sensed_def outlets_ok_def brake_frame_def)
  with run show ?thesis by blast
qed

theorem brake_refines_sensing_witness:
  "\<exists>f frames. (lidar_step record_frame)\<^sup>*\<^sup>* (Lidar default_lidar_config, 0, []) (sample_lidar, f, frames) \<and>
     sent_for default_options frames = []"
proof -
  have "o_lidar default_options = default_lidar_config" by (simp add: default_options_def)
  with brake_refines_sensing [OF sample_start _ sample_node_reached] show ?thesis
    by (simp add: sample_node_fields) metis
qed

text \<open>
  C2: From the photons to the brake. In the running node with the default detector and CAN on, every
  revolution the sensor delivers puts exactly one frame on the CAN socket within the iteration that
  reads it, whatever the I/O thread does meanwhile: identifier 0x080, one byte, 2 when some sector holds
  at least three raw measurements by integer arithmetic on bearing, distance and quality, 1 otherwise.
  A revolution without any return puts none. No undefined behaviour is met on the way, and the thread
  goes on.
\<close>
theorem sensor_to_brake:
  assumes "node_start base s" "0 < cap" "(node_step cap)\<^sup>*\<^sup>* s (a, os)"
    and "a_lidar a = Some l" "dev_isOpen (l_device l)"
    and "o_perception (a_options a) = default_perception_config" "\<not> o_no_can (a_options a)"
    and "sdk_grab (it_grab it) (max_nodes_per_scan (dev_config (l_device l))) (scan_timeout_ms (dev_config (l_device l))) = (result, nodes)"
    and "SL_IS_OK (it_grab it) result" "sdk_ascend (it_grab it) nodes = ns" "length ns < 2 ^ 32"
    and "lidar_run_body record_frame it (a_failures a) l [] = (goes_on, f, l', frames)"
    and "callbacks cap k (a_options a) (a_can a) frames (a_out a, os) (out, os')"
  shows "goes_on \<and> f = 0 \<and> \<not> o_undefined out \<and> o_can_sent out = o_can_sent (a_out a) @
    (if \<forall>n \<in> set ns. dist_mm_q2 n = 0 then [] else [brake_command (raw_obstacle ns)])"
proof -
  obtain l0 f0 recorded where sens: "node_sensed base (a, os) (l0, f0, recorded)"
    using reachable_sensed [OF assms(1-3)] by auto
  note def = default_defined [OF sens assms(6)]
  have ok: "node_ok base (a, os)" and s: "sensed a (l0, f0, recorded)" using sens by (simp_all add: node_sensed_def)
  have can: "isOpen (a_can a)" using lidar_can_ready [OF ok assms(4)] assms(7) by blast
  let ?f = "(l_frame l)\<lparr>points := collect_points ns, sequence := l_next_sequence l, timestamp_us := it_now it\<rparr>"
  have r: "goes_on \<and> f = 0" "frames = (if \<forall>n \<in> set ns. dist_mm_q2 n = 0 then [] else [?f])"
    using revolution_read [OF assms(5,9,10,8), of record_frame "a_failures a" "[]"] assms(12)
    by (auto simp: record_frame_def)
  have b: "brake_frame (o_perception (a_options a)) ?f = Some (brake_command (raw_obstacle ns))"
    using brake_frame_raw [of ?f ns] assms(6,11) by simp
  show ?thesis
  proof (cases "\<forall>n \<in> set ns. dist_mm_q2 n = 0")
    case True
    then show ?thesis using r def assms(13) by (auto elim: callbacks_nil)
  next
    case False
    then have "frames = [?f]" using r(2) by (simp only: if_False)
    with assms(13) def obtain t where "out = decide k (a_options a) (a_can a) ?f ((a_out a)\<lparr>o_tcp := t\<rparr>)"
      by (auto elim!: callbacks_cons callbacks_nil)
    with False r(1) def b can assms(7) show ?thesis
      using decide_effect(2,3) [where out = "(a_out a)\<lparr>o_tcp := t\<rparr>" and options = "a_options a" and f = ?f and k = k and can = "a_can a"]
      by simp
  qed
qed

theorem sensor_to_brake_witness:
  "\<exists>go_on f l' frames out. lidar_run_body record_frame sample_iteration 0 sample_lidar [] = (go_on, f, l', frames) \<and>
     callbacks 1 sample_kernel default_options (a_can sample_node) frames (a_out sample_node, sample_node_os) (out, sample_node_os) \<and>
     o_can_sent out = [brake_command True]"
proof -
  obtain go_on f l' frames where r: "lidar_run_body record_frame sample_iteration 0 sample_lidar [] = (go_on, f, l', frames)"
    by (metis prod_cases4)
  obtain out where cb: "callbacks 1 sample_kernel default_options (a_can sample_node) frames
      (a_out sample_node, sample_node_os) (out, sample_node_os)" using callbacks_alone by blast
  have "3 \<le> length (filter (\<lambda>n. raw_sector n = Some 2) wall_ahead)"
    by (simp add: wall_ahead_def raw_sector_def raw_bearing_def)
  then have wall: "raw_obstacle wall_ahead" unfolding raw_obstacle_def by (intro exI [of _ 2]) simp
  have "go_on \<and> f = 0 \<and> \<not> o_undefined out \<and> o_can_sent out = o_can_sent (a_out sample_node) @
    (if \<forall>n \<in> set wall_ahead. dist_mm_q2 n = 0 then [] else [brake_command (raw_obstacle wall_ahead)])"
    by (rule sensor_to_brake [OF sample_start _ sample_node_reached])
      (use r cb in \<open>simp_all add: sample_node_fields sample_lidar_started sample_iteration_def working_sdk_def
         default_options_def, simp add: wall_ahead_def\<close>)
  moreover have "\<not> (\<forall>n \<in> set wall_ahead. dist_mm_q2 n = 0)" by (simp add: wall_ahead_def)
  ultimately have "o_can_sent out = [brake_command True]" using wall by (simp only: if_False sample_node_fields append_Nil simp_thms)
  with r cb show ?thesis by blast
qed

lemma destroyed_again:
  assumes "tcp_ok base (t, os)" "t_worker t = Detached"
  shows "tcp_destroy cap t os = os"
  using assms
  by (auto simp: tcp_ok_def thread_ok_def tcp_destroy_def tcp_stop_finish_def tcp_stop_request_def wp_close_def wp_signal_def
      fd_destroy_def fd_reset_def fd_valid_def cs_valid_def Let_def)

text \<open>
  C6: The node's life is orderly. In every interleaving the runtime never terminates the process (no
  thread is assigned to one still joinable), nothing is closed twice, and once the node has exited, with
  code 0 or 1, all threads are joined, every descriptor it opened is closed, no SDK object is alive, and
  the destructors of the members, which stop and close once more, find nothing left to do.
\<close>
theorem node_lifecycle:
  assumes "node_start base s" "0 < cap" "(node_step cap)\<^sup>*\<^sup>* s (a, os)" "fresh_main mi a os"
  shows "main_step cap mi (a_phase a) a os \<noteq> Terminates \<and> \<not> bad_close os \<and>
    (\<forall>l \<in> set (a_destroyed a). \<exists>st. replay (calls (l_device l)) sdk_start = Some st \<and> channels st = [] \<and> drivers st = []) \<and>
    (\<forall>code. a_phase a = Exited code \<longrightarrow> code \<in> {0, 1} \<and> open_fds os = base \<and> a_lidar a = None \<and>
       t_worker (a_tcp a) = Detached \<and> destroy_members cap a os = (a, os))"
proof -
  have ok: "node_ok base (a, os)" by (rule reachable_node_ok [OF assms(1-3)])
  then have tcp: "tcp_ok (base \<union> can_fds a) (a_tcp a, os)" and phase: "phase_ok (a_phase a) a"
    and gone: "\<forall>l \<in> set (a_destroyed a). released l" by (simp_all add: node_ok_def)
  have "main_step cap mi (a_phase a) a os \<noteq> Terminates"
  proof (cases "a_phase a")
    case AtTcp
    then have "t_worker (a_tcp a) = Detached" "fresh_start (mi_tcp mi) (a_tcp a) os"
      using phase assms(4) by (simp_all add: fresh_main_def)
    moreover from this have "\<not> t_running (a_tcp a)" using tcp by (simp add: tcp_ok_def thread_ok_def)
    ultimately have "tcp_start (mi_tcp mi) (a_tcp a) os \<noteq> None"
      using tcp_start_outcome [OF tcp, of "mi_tcp mi", unfolded start_post_def]
      by (cases "tcp_start (mi_tcp mi) (a_tcp a) os") (simp_all add: joinable_def)
    then show ?thesis using AtTcp by (auto simp: startTcpServer_def Let_def)
  next
    case AtLidar
    have "startLidar (mi_sdk mi) (mi_spawn_error mi) a \<noteq> None"
      using lidar_never_terminates by (auto simp: startLidar_def split: option.splits prod.splits if_splits)
    then show ?thesis using AtLidar by (auto split: option.splits)
  next
    case (Shutting c st code)
    then show ?thesis by (cases st) (auto simp: Let_def split: prod.splits)
  qed (auto simp: Let_def split: prod.splits option.splits)
  moreover have "\<not> bad_close os" using tcp by (simp add: tcp_ok_def owns_def)
  moreover have "\<forall>l \<in> set (a_destroyed a). \<exists>st. replay (calls (l_device l)) sdk_start = Some st \<and> channels st = [] \<and> drivers st = []"
    using gone by (auto simp: released_def device_ok_def dev_isOpen_def log_state_def alive_def)
  moreover have "code \<in> {0, 1} \<and> open_fds os = base \<and> a_lidar a = None \<and> t_worker (a_tcp a) = Detached \<and>
      destroy_members cap a os = (a, os)" if "a_phase a = Exited code" for code
    using phase that tcp_ok_detached(1) [OF tcp] destroyed_again [OF tcp]
    by (auto simp: all_stopped_def can_fds_def destroy_members_def can_destroy_def can_close_def isOpen_def)
  ultimately show ?thesis by blast
qed

theorem node_lifecycle_witness:
  "main_step 1 (sample_wait []) (a_phase sample_leaving) sample_leaving sample_node_os \<noteq> Terminates \<and> \<not> bad_close sample_node_os"
  using node_lifecycle [OF sample_start _ sample_leaving_reached, of "sample_wait []"]
  by (simp add: fresh_main_def sample_leaving_def)

text \<open>
  The supervision tick. It is the health interval in milliseconds only up to 4294967 seconds; beyond,
  the 32-bit product wraps, and an interval that is a multiple of 2 to the power of 29 makes it zero, so
  that the loop no longer waits at all.
\<close>
lemma tick_wraps:
  "tick options = (if o_health_interval_s options = 0 then 1000 else int (unat (o_health_interval_s options) * 1000 mod 2 ^ 32)) \<and>
   (o_health_interval_s options \<noteq> 0 \<longrightarrow>
     (tick options = 1000 * int (unat (o_health_interval_s options)) \<longleftrightarrow> unat (o_health_interval_s options) \<le> 4294967) \<and>
     (2 ^ 29 dvd unat (o_health_interval_s options) \<longleftrightarrow> tick options = 0))"
proof -
  define h where "h = unat (o_health_interval_s options)"
  have "uint (w * 1000) = int (unat w * 1000 mod 2 ^ 32)" for w :: u32
    using unat_word_ariths(2) [of w 1000] by (simp add: uint_nat del: unat_of_nat)
  moreover have "0 < w \<longleftrightarrow> unat w \<noteq> 0" for w :: u32 by (simp add: word_gt_0 unat_eq_zero)
  ultimately have t: "tick options = (if h = 0 then 1000 else int (h * 1000 mod 2 ^ 32))"
    by (simp add: tick_def kIdleTick_def h_def)
  have "h * 1000 mod 2 ^ 32 = h * 1000 \<longleftrightarrow> h \<le> 4294967"
    by (simp add: mod_eq_self_iff_div_eq_0 div_eq_0_iff) linarith
  moreover have "h * 1000 mod 2 ^ 32 = 0 \<longleftrightarrow> 2 ^ 29 dvd h"
  proof -
    have "(2 :: nat) ^ 32 = 2 ^ 29 * 8" "h * 1000 = h * 125 * 8" by simp_all
    then have "2 ^ 32 dvd h * 1000 \<longleftrightarrow> 2 ^ 29 dvd h * (125 :: nat)" by (metis dvd_times_right_cancel_iff zero_neq_numeral)
    also have "\<dots> \<longleftrightarrow> 2 ^ 29 dvd h" 
      by (rule coprime_dvd_mult_left_iff, unfold coprime_power_left_iff coprime_left_2_iff_odd) simp
    finally show ?thesis by (simp only: mod_eq_0_iff_dvd)
  qed
  moreover have "o_health_interval_s options = 0 \<longleftrightarrow> h = 0" by (simp add: h_def unat_eq_zero)
  ultimately show ?thesis unfolding h_def [symmetric] t by (cases "h = 0") (auto simp: mult.commute)
qed

lemma tick_wraps_witness: "tick (default_options\<lparr>o_health_interval_s := 536870912\<rparr>) = 0"
  using tick_wraps [of "default_options\<lparr>o_health_interval_s := 536870912\<rparr>"] by simp

text \<open>The waiter is installed while start-up and the supervision go on.\<close>

definition waiter_ok :: "application \<Rightarrow> bool" where
  "waiter_ok a \<longleftrightarrow> (a_phase a \<in> {AtCan, AtTcp, AtLidar, Supervising} \<longrightarrow> (\<exists>b. a_waiter a = fst (SignalWaiter True b)))"

lemma waiter_step:
  assumes "node_step cap s s'" "waiter_ok (fst s)"
  shows "waiter_ok (fst s')"
  using assms
proof (induction rule: node_step.induct)
  case (main_steps mi a os a' os')
  show ?case
  proof (cases "a_phase a")
    case AtSignals
    obtain w blocked where w: "SignalWaiter (mi_sigmask mi) (a_blocked a) = (w, blocked)" by fastforce
    have "sw_valid w \<Longrightarrow> w = fst (SignalWaiter True (a_blocked a))"
      using w by (cases "mi_sigmask mi") (auto simp: SignalWaiter_def sw_valid_def Let_def)
    moreover have "a' = (if sw_valid w then at AtCan (a\<lparr>a_waiter := w, a_blocked := blocked\<rparr>)
        else leave_run kExitFailure (say no_signals_line (a\<lparr>a_waiter := w, a_blocked := blocked\<rparr>)))"
      using main_steps(1) AtSignals w by (auto simp: Let_def)
    ultimately show ?thesis by (cases "sw_valid w") (auto simp: waiter_ok_def)
  next
    case (Shutting c st code)
    then show ?thesis using main_steps(1) by (cases st) (auto simp: waiter_ok_def Let_def split: if_splits prod.splits)
  qed (use main_steps in \<open>auto simp: waiter_ok_def startCanBus_def startTcpServer_def startLidar_def supervise_round_def
      reportHealth_def Let_def split: if_splits prod.splits option.splits\<close>)
qed (simp_all add: waiter_ok_def)

lemma waiter_steps: "(node_step cap)\<^sup>*\<^sup>* s s' \<Longrightarrow> waiter_ok (fst s) \<Longrightarrow> waiter_ok (fst s')"
  by (induction rule: rtranclp_induct) (blast intro: waiter_step)+

lemma reachable_waiter_ok:
  assumes "node_start base s" "(node_step cap)\<^sup>*\<^sup>* s s'"
  shows "waiter_ok (fst s')"
  by (rule waiter_steps [OF assms(2)]) (use assms(1) in \<open>auto simp: node_start_def Application_def waiter_ok_def\<close>)

lemma reachable_waiter:
  assumes "node_start base s" "(node_step cap)\<^sup>*\<^sup>* s (a, os)" "a_phase a = Supervising"
  shows "\<exists>b. a_waiter a = fst (SignalWaiter True b)"
  using reachable_waiter_ok [OF assms(1,2)] assms(3) by (simp add: waiter_ok_def)

text \<open>
  C13: How the supervision ends. A round waits through absorbed signals and interruptions; then a
  termination signal starts the shutdown with exit code 0, and the end of the tick starts it with
  exit code 1 exactly if the acquisition thread is no longer running: a node whose sensor is gone for
  good does not idle. Otherwise the supervision goes on, and with a health interval one line is printed,
  the counters with the read errors since the last line, if any, and the last error text; the errors so
  reported are subtracted from the next line.
\<close>
theorem supervision:
  assumes "node_start base s" "0 < cap" "(node_step cap)\<^sup>*\<^sup>* s (a, os)" "a_phase a = Supervising"
    and "mi_wait mi = early @ decisive # rest" "\<forall>x \<in> set early. absorbed x" "\<not> absorbed decisive"
  shows "\<exists>a' l. main_step cap mi (a_phase a) a os = Goes a' os \<and> a_lidar a = Some l \<and> a_lidar a' = Some l \<and>
    a_phase a' = (if 0 < fst decisive then Shutting FromRun StopLidar 0
                  else if l_worker l = Running then Supervising else Shutting FromRun StopLidar 1) \<and>
    (a_phase a' = Supervising \<and> 0 < o_health_interval_s (a_options a) \<longrightarrow> a_reported a' = read_errors (l_stats l) \<and>
       o_console (a_out a') = o_console (a_out a) @ [Cout
         (''health: frames='' @ to_string (unat (frames_delivered (l_stats l))) @
          '' errors='' @ to_string (unat (read_errors (l_stats l))) @ '' empty='' @ to_string (unat (empty_frames (l_stats l))) @
          '' connects='' @ to_string (unat (connects (l_stats l))) @
          '' can='' @ (if o_no_can (a_options a) then ''disabled'' else ''open'') @
          '' tcp_client='' @ (if cs_valid (t_session (a_tcp a)) then ''connected'' else ''waiting'') @
          (if read_errors (l_stats l) - a_reported a \<noteq> 0 \<and> l_last_error l \<noteq> []
           then [CHR 0x0A] @ ''  '' @ to_string (unat (read_errors (l_stats l) - a_reported a)) @ '' new error(s), last: '' @ l_last_error l
           else []))]) \<and>
    (a_phase a' = Supervising \<and> o_health_interval_s (a_options a) = 0 \<longrightarrow> a' = a)"
proof -
  obtain b where w: "a_waiter a = fst (SignalWaiter True b)" using reachable_waiter [OF assms(1,3,4)] by blast
  then have wait: "waitFor (mi_long mi) (a_waiter a) (tick (a_options a)) (mi_wait mi) =
      Some (if 0 < fst decisive then fst decisive else 0, replicate (length early) (timespec_of (mi_long mi) (tick (a_options a))) @ [timespec_of (mi_long mi) (tick (a_options a))])"
    using assms(5-7) by (simp add: waitFor_def SignalWaiter_def wait_loop_skips wait_loop_ends)
  have ok: "node_ok base (a, os)" by (rule reachable_node_ok [OF assms(1-3)])
  then obtain l where l: "a_lidar a = Some l" using assms(4) by (auto simp: node_ok_def)
  then have "l_running l \<longleftrightarrow> l_worker l = Running" using ok by (auto simp: node_ok_def lidar_ok_def)
  moreover have "st_client_connected (t_stats (a_tcp a)) \<longleftrightarrow> cs_valid (t_session (a_tcp a))"
    using ok by (simp add: node_ok_def tcp_ok_def session_accounted_def)
  moreover have "o_no_can (a_options a) \<or> isOpen (a_can a)" using ok assms(4) by (simp add: node_ok_def can_ready_def)
  moreover have "0 < o_health_interval_s (a_options a) \<longleftrightarrow> o_health_interval_s (a_options a) \<noteq> 0"
    by (simp add: word_gt_0)
  ultimately show ?thesis using wait l assms(4)
    by (auto simp: supervise_round_def reportHealth_def health_line_def say_def exit_codes Let_def)
qed

theorem supervision_witness:
  "\<exists>a'. main_step 1 (sample_wait [(SIGPIPE, EAGAIN), (SIGTERM, EAGAIN)]) (a_phase sample_node) sample_node sample_node_os =
     Goes a' sample_node_os \<and> a_phase a' = Shutting FromRun StopLidar 0"
proof -
  let ?mi = "sample_wait [(SIGPIPE, EAGAIN), (SIGTERM, EAGAIN)]"
  have "mi_wait ?mi = [(SIGPIPE, EAGAIN)] @ (SIGTERM, EAGAIN) # []" by (simp add: sample_wait_def)
  from supervision [OF sample_start _ sample_node_reached _ this]
  show ?thesis by (auto simp: sample_node_fields absorbed_def SIGPIPE_def SIGTERM_def)
qed

end
