(* ===== verification/NodeAccounting.thy ===== *)
theory NodeAccounting
  imports NodeProperties
begin

text \<open>
  One revolution, one number, one publication, one command: the counters of the lidar and of the server,
  the sequence numbers and the frames on the CAN socket agree in every interleaving.
\<close>

section \<open>The sensing machine counts\<close>

definition counted :: "lidar_config \<Rightarrow> lidar \<times> u32 \<times> scan_frame list \<Rightarrow> bool" where
  "counted cfg st \<longleftrightarrow> (case st of (l, f, frames) \<Rightarrow> stretch record_frame (Lidar cfg) [] frames l frames)"

lemma start_counters:
  assumes "lidar_start s e given l = Some (ok, l')"
  shows "l_next_sequence l' = l_next_sequence l" "frames_delivered (l_stats l') = frames_delivered (l_stats l)"
    "last_frame_us (l_stats l') = last_frame_us (l_stats l)" "l_config l' = l_config l"
proof -
  have "l_next_sequence l' = l_next_sequence l \<and> frames_delivered (l_stats l') = frames_delivered (l_stats l) \<and>
    last_frame_us (l_stats l') = last_frame_us (l_stats l) \<and> l_config l' = l_config l"
    using assms by (auto simp: lidar_start_def openDevice_def Let_def split: if_splits option.splits prod.splits)
  then show "l_next_sequence l' = l_next_sequence l" "frames_delivered (l_stats l') = frames_delivered (l_stats l)"
    "last_frame_us (l_stats l') = last_frame_us (l_stats l)" "l_config l' = l_config l" by blast+
qed

lemma body_counted:
  assumes "lidar_run_body record_frame it f l frames = (go_on, f', l', frames')" "counted cfg (l, f, frames)"
  shows "counted cfg (l', f', frames')"
proof -
  obtain more_frames where m: "stretch record_frame l frames more_frames l' frames'"
    using run_body_stretch [OF assms(1)] by blast
  then have "frames' = frames @ more_frames" by (simp add: stretch_def recorded)
  with stretch_append [OF _ m] assms(2) show ?thesis by (simp add: counted_def)
qed

lemma counted_step: "lidar_step record_frame st st' \<Longrightarrow> counted cfg st \<Longrightarrow> counted cfg st'"
proof (induction rule: lidar_step.induct)
  case (starts s e given l ok l' f c)
  then show ?case by (auto simp: counted_def elim!: stretch_trans_eq dest: start_counters)
next
  case (iterates l f it c f' l' c')
  then show ?case using body_counted by blast
next
  case (breaks l it f c f' l' c')
  from body_counted [OF breaks(3,4)] show ?case
    by (auto simp: counted_def lidar_run_exit_def elim!: stretch_trans_eq)
qed (auto simp: counted_def stop_request_def stop_finish_def lidar_run_exit_def elim!: stretch_trans_eq)

interpretation count: inductive_invariant "\<lambda>st. st = (Lidar cfg, 0, [])" "lidar_step record_frame" "counted cfg" for cfg
  by unfold_locales (simp add: counted_def stretch_def, rule counted_step)

section \<open>The server counts\<close>

lemma endSession_published: "endSession e t os = (t', os') \<Longrightarrow> st_frames_published (t_stats t') = st_frames_published (t_stats t)"
  by (auto simp: endSession_def Let_def split: if_splits prod.splits)

lemma io_step_published: "io_step s s' \<Longrightarrow> st_frames_published (t_stats (fst s')) = st_frames_published (t_stats (fst s))"
proof (induction rule: io_step.induct)
  case (client_events t revents script os r)
  then show ?case
    by (cases r) (auto simp: serviceClientEvents_def dest!: endSession_published split: if_splits option.splits)
next
  case (accepts t os script r)
  then show ?case
    by (auto simp: acceptClient_def tcp_setError_def Let_def split: option.splits prod.splits if_splits dest!: endSession_published)
next
  case (outputs t script os t' os' wire)
  then show ?case
    by (auto simp: serviceOutput_def tcp_setError_def Let_def split: option.splits prod.splits if_splits dest!: endSession_published)
next
  case (breaks t e os)
  then show ?case by (auto simp: tcp_run_exit_def tcp_setError_def split: prod.splits dest!: endSession_published)
next
  case (leaves t os)
  then show ?case by (auto simp: tcp_run_exit_def split: prod.splits dest!: endSession_published)
qed simp_all

lemma tcp_start_published:
  "tcp_start k t os = Some (ok, t', os') \<Longrightarrow> st_frames_published (t_stats t') = st_frames_published (t_stats t)"
  by (auto simp: tcp_start_def tcp_setError_def Let_def split: if_splits option.splits prod.splits)

lemma publish_published: "st_frames_published (t_stats (publish cap f t)) = st_frames_published (t_stats t) + 1"
  by (simp add: publish_def publish_count_def publish_discard_def publish_push_def publish_signal_def split_beta Let_def)

text \<open>The lidar the node has, had, or will have.\<close>

definition node_lidar :: "application \<Rightarrow> lidar" where
  "node_lidar a = (case a_lidar a of Some l \<Rightarrow> l
     | None \<Rightarrow> if a_destroyed a = [] then Lidar (o_lidar (a_options a)) else last (a_destroyed a))"

definition published_ok :: "application \<Rightarrow> bool" where
  "published_ok a \<longleftrightarrow> o_undefined (a_out a) \<or> st_frames_published (t_stats (a_tcp a)) = frames_delivered (l_stats (node_lidar a))"

lemma publishes_published:
  assumes "publishes cap f (t, os) (t', os')"
  shows "st_frames_published (t_stats t') = st_frames_published (t_stats t) + 1"
proof -
  have io: "st_frames_published (t_stats (fst s')) = st_frames_published (t_stats (fst s))" if "io_step\<^sup>*\<^sup>* s s'" for s s'
    using that by (induction rule: rtranclp_induct) (auto dest: io_step_published)
  have pieces: "st_frames_published (t_stats (publish_count t)) = st_frames_published (t_stats t) + 1"
    "st_frames_published (t_stats (publish_discard t)) = st_frames_published (t_stats t)"
    "st_frames_published (t_stats (publish_push f t)) = st_frames_published (t_stats t)"
    "st_frames_published (t_stats (publish_signal cap t)) = st_frames_published (t_stats t)" for t
    by (simp_all add: publish_count_def publish_discard_def publish_push_def publish_signal_def split_beta Let_def)
  show ?thesis using assms by cases (auto simp: pieces dest!: io)
qed

lemma callbacks_published:
  assumes "callbacks cap k options can frames (out, os) (out', os')" "\<not> o_undefined out'"
  shows "\<not> o_undefined out \<and>
    st_frames_published (t_stats (o_tcp out')) = st_frames_published (t_stats (o_tcp out)) + word_of_nat (length frames)"
  using assms
proof (induction rule: callbacks_induct)
  case (cons f frames out os t os1 out' os')
  then show ?case
    using publishes_published [OF cons(2)] decide_effect(1) [of "out\<lparr>o_tcp := t\<rparr>" k options can f] by simp
qed simp_all

lemma published_cong:
  assumes "published_ok a" "o_undefined (a_out a') = o_undefined (a_out a)"
    "st_frames_published (t_stats (a_tcp a')) = st_frames_published (t_stats (a_tcp a))"
    "frames_delivered (l_stats (node_lidar a')) = frames_delivered (l_stats (node_lidar a))"
  shows "published_ok a'"
  using assms by (simp add: published_ok_def)

lemma main_published:
  assumes "main_step cap mi (a_phase a) a os = Goes a' os'" "sensed a st" "published_ok a"
  shows "published_ok a'"
proof (cases "a_phase a")
  case AtSignals
  then show ?thesis using assms(1)
    by (intro published_cong [OF assms(3)]) (auto simp: node_lidar_def Let_def split: prod.splits if_splits option.splits)
next
  case AtCan
  then show ?thesis using assms(1)
    by (intro published_cong [OF assms(3)]) (auto simp: startCanBus_def node_lidar_def Let_def split: prod.splits if_splits option.splits)
next
  case AtTcp
  then show ?thesis using assms(1)
    by (intro published_cong [OF assms(3)])
      (auto simp: startTcpServer_def node_lidar_def Let_def dest!: tcp_start_published split: prod.splits if_splits option.splits)
next
  case AtLidar
  obtain ok l where st: "lidar_start (mi_sdk mi) (mi_spawn_error mi) True (Lidar (o_lidar (a_options a))) = Some (ok, l)"
    using lidar_never_terminates by fastforce
  have "a_lidar a = None" "a_destroyed a = []" using assms(2) AtLidar by (cases st, auto simp: sensed_def)
  then show ?thesis using assms(1) AtLidar st start_counters(2) [OF st]
    by (intro published_cong [OF assms(3)])
      (auto simp: startLidar_def node_lidar_def stop_finish_def stop_request_def split: if_splits)
next
  case Supervising
  then show ?thesis using assms(1)
    by (intro published_cong [OF assms(3)])
      (auto simp: supervise_round_def reportHealth_def node_lidar_def Let_def split: prod.splits if_splits option.splits)
next
  case (Shutting c sg code)
  then show ?thesis using assms(1)
    by (intro published_cong [OF assms(3)]; cases sg)
      (auto simp: stop_lidar_def release_lidar_def stop_tcp_def tcp_stop_request_def release_tcp_and_can_def tcp_stop_finish_def
        stop_request_def stop_finish_def node_lidar_def Let_def split: prod.splits if_splits option.splits)
next
  case (Exited code)
  then show ?thesis using assms(1) by simp
qed

lemma published_step:
  assumes "node_step cap s s'" "node_sensed base s st" "published_ok (fst s)"
  shows "published_ok (fst s')"
  using assms(1)
proof cases
  case (main_steps mi a os a' os')
  have "sensed a st" "published_ok a" using assms(2,3) main_steps(1) by (simp_all add: node_sensed_def)
  from main_published [OF main_steps(3) this] main_steps(2) show ?thesis by simp
next
  case (acquires a l it go_on f l' frames k os out os')
  obtain fs where "stretch record_frame l [] fs l' frames" using run_body_stretch [OF acquires(7)] by blast
  then have d: "frames_delivered (l_stats l') = frames_delivered (l_stats l) + word_of_nat (length frames)"
    by (simp add: stretch_def recorded)
  have s': "fst s' = a\<lparr>a_lidar := Some (if go_on then l' else lidar_run_exit l'), a_failures := f, a_out := out\<rparr>"
    "fst s = a" "node_lidar a = l" using acquires(1-3) by (simp_all add: node_lidar_def)
  have "st_frames_published (t_stats (o_tcp out)) = frames_delivered (l_stats l')" if "\<not> o_undefined out"
    using callbacks_published [OF acquires(8) that] assms(3) d by (simp add: s' published_ok_def)
  then show ?thesis unfolding s'(1) published_ok_def node_lidar_def by (simp add: lidar_run_exit_def) blast
next
  case (acquisition_leaves a l os)
  have "published_ok a" using assms(3) acquisition_leaves(1) by simp
  then show ?thesis unfolding acquisition_leaves(2)
    by (rule published_cong) (simp_all add: acquisition_leaves(3) node_lidar_def lidar_run_exit_def)
next
  case (serves a os t os')
  have "published_ok a" using assms(3) serves(1) by simp
  then show ?thesis unfolding serves(2)
    by (rule published_cong) (use io_step_published [OF serves(3)] in \<open>simp_all add: node_lidar_def split: option.splits\<close>)
qed

lemma reachable_published:
  assumes "node_start base s" "0 < cap" "(node_step cap)\<^sup>*\<^sup>* s s'"
  shows "published_ok (fst s')"
  using assms(3)
proof (induction rule: rtranclp_induct)
  case base
  then show ?case using assms(1)
    by (auto simp: node_start_def Application_def published_ok_def node_lidar_def TcpServer_def zero_tcp_stats_def
        Lidar_def zero_stats_def)
next
  case (step y z)
  obtain st where "node_sensed base y st" using reachable_sensed [OF assms(1,2) step.hyps(1)] by blast
  from published_step [OF step.hyps(2) this step.IH] show ?case .
qed

text \<open>
  C4: Every revolution is accounted for. In every interleaving, as long as no undefined behaviour was
  met, there is one list of revolutions, none empty, numbered consecutively from zero, such that the
  lidar has counted as delivered, and the server as published, exactly these, and the frames on the CAN
  socket, with CAN on, are their brake commands one by one: nothing is dropped, repeated or reordered
  between the sensor, the viewer's server and the brake. Numbers and counters wrap at their width.
\<close>
theorem revolution_accounting:
  assumes "node_start base s" "0 < cap" "(node_step cap)\<^sup>*\<^sup>* s (a, os)" "\<not> o_undefined (a_out a)"
  shows "\<exists>frames. map sequence frames = map word_of_nat [0..<length frames] \<and> (\<forall>g \<in> set frames. raw_frame g \<and> points g \<noteq> []) \<and>
    frames_delivered (l_stats (node_lidar a)) = word_of_nat (length frames) \<and>
    st_frames_published (t_stats (a_tcp a)) = word_of_nat (length frames) \<and>
    (if o_no_can (a_options a) then o_can_sent (a_out a) = []
     else map Some (o_can_sent (a_out a)) = map (brake_frame (o_perception (a_options a))) frames)"
proof -
  obtain l f frames where run: "(lidar_step record_frame)\<^sup>*\<^sup>* (Lidar (o_lidar (a_options a)), 0, []) (l, f, frames)"
    and sens: "node_sensed base (a, os) (l, f, frames)"
    using reachable_sensed [OF assms(1-3)] by auto
  have "counted (o_lidar (a_options a)) (l, f, frames)" using count.reachable_inv [OF _ run] by simp
  then have c: "map sequence frames = map word_of_nat [0..<length frames]" "\<forall>g \<in> set frames. points g \<noteq> []"
    "frames_delivered (l_stats l) = word_of_nat (length frames)"
    by (simp_all add: counted_def stretch_def Lidar_def zero_stats_def)
  have out: "outlets_ok (a_options a) frames (a_out a)" and l: "node_lidar a = l"
    using sens by (auto simp: node_sensed_def sensed_def node_lidar_def split: option.splits if_splits)
  have p: "st_frames_published (t_stats (a_tcp a)) = word_of_nat (length frames)"
    using reachable_published [OF assms(1-3)] assms(4) c(3) l by (simp add: published_ok_def)
  have all: "\<forall>g \<in> set frames. brake_frame (o_perception (a_options a)) g \<noteq> None"
    using out assms(4) by (auto simp: outlets_ok_def)
  then have "takeWhile (\<lambda>g. brake_frame (o_perception (a_options a)) g \<noteq> None) frames = frames"
    by (simp only: takeWhile_eq_all_conv)
  then have "o_can_sent (a_out a) = (if o_no_can (a_options a) then [] else map (\<lambda>g. the (brake_frame (o_perception (a_options a)) g)) frames)"
    using out by (simp only: outlets_ok_def sent_for_def)
  moreover have "map (Some \<circ> (\<lambda>g. the (brake_frame (o_perception (a_options a)) g))) frames = map (brake_frame (o_perception (a_options a))) frames"
    using all by (intro map_cong) auto
  ultimately have "if o_no_can (a_options a) then o_can_sent (a_out a) = []
     else map Some (o_can_sent (a_out a)) = map (brake_frame (o_perception (a_options a))) frames" by simp
  moreover have "\<forall>g \<in> set frames. raw_frame g" using out by (simp add: outlets_ok_def)
  ultimately show ?thesis using c l p by (intro exI [of _ frames]) simp
qed

text \<open>One revolution of the sample sensor.\<close>

lemma sample_iterates:
  "\<exists>a l. (node_step 1)\<^sup>*\<^sup>* (Application default_options, sample_os) (a, sample_node_os) \<and> a_lidar a = Some l \<and>
     frames_delivered (l_stats l) = 1 \<and> \<not> o_undefined (a_out a) \<and> a_options a = default_options"
proof -
  let ?cb = "on_frame 1 sample_kernel default_options (a_can sample_node)"
  have some: "\<not> (\<forall>n \<in> set wall_ahead. dist_mm_q2 n = 0)" and few: "length wall_ahead < 2 ^ 32" by (simp_all add: wall_ahead_def)
  have ok: "SL_IS_OK (it_grab sample_iteration) SL_RESULT_OK" "sdk_ascend (it_grab sample_iteration) wall_ahead = wall_ahead"
    "\<And>n t. sdk_grab (it_grab sample_iteration) n t = (SL_RESULT_OK, wall_ahead)"
    by (simp_all add: sample_iteration_def working_sdk_def)
  let ?f = "(l_frame sample_lidar)\<lparr>points := collect_points wall_ahead, sequence := l_next_sequence sample_lidar,
    timestamp_us := it_now sample_iteration\<rparr>"
  obtain l where l: "lidar_run_body ?cb sample_iteration 0 sample_lidar (a_out sample_node) =
      (True, 0, l, snd (?cb ?f (a_out sample_node)))" "frames_delivered (l_stats l) = frames_delivered (l_stats sample_lidar) + 1"
    using revolution_read [OF sample_lidar_started(5) ok(1,2,3), of ?cb 0 "a_out sample_node"] some by auto
  let ?a = "sample_node\<lparr>a_lidar := Some l, a_failures := 0, a_out := snd (?cb ?f (a_out sample_node))\<rparr>"
  have "node_step 1 (sample_node, sample_node_os) (?a, sample_node_os)"
    using acquires_alone [of sample_node sample_lidar sample_iteration 1 sample_kernel True 0 l "snd (?cb ?f (a_out sample_node))" sample_node_os]
      l(1) sample_lidar_started(2,3) by (simp add: sample_node_fields sample_iteration_def)
  with sample_node_reached have "(node_step 1)\<^sup>*\<^sup>* (Application default_options, sample_os) (?a, sample_node_os)"
    by (rule rtranclp.rtrancl_into_rtrancl)
  moreover have "frames_delivered (l_stats l) = 1"
    using l(2) start_counters(2) [OF sample_lidar_started(1)] by (simp add: Lidar_def zero_stats_def)
  moreover have "\<not> o_undefined (a_out sample_node)" by (simp add: sample_node_def Application_def)
  then have "\<not> o_undefined (snd (?cb ?f (a_out sample_node)))"
    using on_frame_effect(2) [OF _ refl, of "a_out sample_node" 1 sample_kernel default_options "a_can sample_node" ?f]
      brake_frame_raw [of ?f wall_ahead] few by (simp add: default_options_def)
  ultimately show ?thesis by (intro exI [of _ ?a] exI [of _ l]) (simp add: sample_node_fields)
qed

theorem revolution_accounting_witness:
  "\<exists>a os. (node_step 1)\<^sup>*\<^sup>* (Application default_options, sample_os) (a, os) \<and>
     st_frames_published (t_stats (a_tcp a)) = 1 \<and> o_can_sent (a_out a) \<noteq> []"
proof -
  obtain a l where a: "(node_step 1)\<^sup>*\<^sup>* (Application default_options, sample_os) (a, sample_node_os)" "a_lidar a = Some l"
    "frames_delivered (l_stats l) = 1" "\<not> o_undefined (a_out a)" "a_options a = default_options" using sample_iterates by blast
  obtain frames where f: "frames_delivered (l_stats (node_lidar a)) = word_of_nat (length frames)"
    "st_frames_published (t_stats (a_tcp a)) = word_of_nat (length frames)"
    "map Some (o_can_sent (a_out a)) = map (brake_frame (o_perception (a_options a))) frames"
    using revolution_accounting [OF sample_start _ a(1,4)] a(5) by (auto simp: default_options_def)
  have "word_of_nat (length frames) = (1 :: u64)" using f(1) a(2,3) by (simp add: node_lidar_def)
  with f(2,3) a(1) show ?thesis by (intro exI [of _ a] exI [of _ sample_node_os]) auto
qed

end
