(* ===== verification/NodeViewer.thy ===== *)
theory NodeViewer
  imports NodeProperties
begin

text \<open>
  The brake and the viewer together: the steps of the node while a viewer is connected, with the
  revolutions the lidar has delivered and the bytes written since the connection.
\<close>

section \<open>A watched node\<close>

text \<open>\<^const>\<open>callbacks\<close> with the frames published and the bytes written while they run.\<close>

inductive viewed_callbacks ::
  "nat \<Rightarrow> can_kernel \<Rightarrow> options \<Rightarrow> can_bus \<Rightarrow> scan_frame list \<Rightarrow> outlets \<times> os \<times> scan_frame list \<times> bytes \<Rightarrow>
   outlets \<times> os \<times> scan_frame list \<times> bytes \<Rightarrow> bool" for cap k options can where
  viewed_none: "viewed_callbacks cap k options can [] s s"
| viewed_undefined: "o_undefined out \<Longrightarrow>
    viewed_callbacks cap k options can (f # frames) (out, os, fs, wire) (out, os, fs @ f # frames, wire)"
| viewed_frame: "\<not> o_undefined out \<Longrightarrow> viewed_publish cap f (o_tcp out, os, fs, wire) (t, os1, fs1, wire1) \<Longrightarrow>
    viewed_callbacks cap k options can frames (decide k options can f (out\<lparr>o_tcp := t\<rparr>), os1, fs1, wire1) s' \<Longrightarrow>
    viewed_callbacks cap k options can (f # frames) (out, os, fs, wire) s'"

type_synonym watched = "application \<times> os \<times> scan_frame list \<times> bytes"

inductive watch_step :: "nat \<Rightarrow> watched \<Rightarrow> watched \<Rightarrow> bool" for cap where
  w_main: "attached (a_tcp a) \<Longrightarrow> main_step cap mi (a_phase a) a os = Goes a' os' \<Longrightarrow> fresh_main mi a os \<Longrightarrow>
    watch_step cap (a, os, fs, wire) (a', os', fs, wire)"
| w_acquires: "attached (a_tcp a) \<Longrightarrow> a_lidar a = Some l \<Longrightarrow> l_worker l = Running \<Longrightarrow> \<not> l_stop_requested l \<Longrightarrow>
    it_stop it \<longrightarrow> stop_pending a \<Longrightarrow>
    lidar_run_body record_frame it (a_failures a) l [] = (go_on, f, l', frames) \<Longrightarrow>
    viewed_callbacks cap k (a_options a) (a_can a) frames (a_out a, os, fs, wire) (out, os', fs', wire') \<Longrightarrow>
    watch_step cap (a, os, fs, wire)
      (a\<lparr>a_lidar := Some (if go_on then l' else lidar_run_exit l'), a_failures := f, a_out := out\<rparr>, os', fs', wire')"
| w_leaves: "attached (a_tcp a) \<Longrightarrow> a_lidar a = Some l \<Longrightarrow> l_worker l = Running \<Longrightarrow> l_stop_requested l \<Longrightarrow>
    watch_step cap (a, os, fs, wire) (a\<lparr>a_lidar := Some (lidar_run_exit l)\<rparr>, os, fs, wire)"
| w_serves: "io_step (a_tcp a, os) (t, os') \<Longrightarrow> viewer_step cap (a_tcp a, os, fs, wire) (t, os', fs, wire') \<Longrightarrow>
    watch_step cap (a, os, fs, wire) (set_tcp t a, os', fs, wire')"

lemma viewed_callbacks_callbacks:
  "viewed_callbacks cap k options can frames s s' \<Longrightarrow>
   callbacks cap k options can frames (fst s, fst (snd s)) (fst s', fst (snd s'))"
  by (induction rule: viewed_callbacks.induct)
    (auto dest!: viewed_publish_publishes intro: no_frame already_undefined frame)

lemma watch_node_step: "watch_step cap v v' \<Longrightarrow> node_step cap (fst v, fst (snd v)) (fst v', fst (snd v'))"
proof (induction rule: watch_step.induct)
  case (w_acquires a l it go_on f l' frames k os fs wire out os' fs' wire')
  from acquires [OF w_acquires(2-6)] viewed_callbacks_callbacks [OF w_acquires(7)] show ?case by simp
qed (simp_all add: main_steps acquisition_leaves serves)

text \<open>Nothing else happens to a node with a viewer, but the accepting of another one.\<close>

lemma callbacks_viewed:
  assumes "callbacks cap k options can frames (out, os) (out', os')" "tcp_ok base (o_tcp out, os)" "0 < cap"
  shows "(\<exists>fs' wire'. viewed_callbacks cap k options can frames (out, os, fs, wire) (out', os', fs', wire')) \<or>
    accepts_within cap (o_tcp out, os)"
  using assms(1,2)
proof (induction arbitrary: fs wire rule: callbacks_induct)
  case (cons f frames out os t os1 out' os')
  have t: "o_tcp (decide k options can f (out\<lparr>o_tcp := t\<rparr>)) = t" using cons(1) by (simp add: decide_effect(1))
  note ih = cons.IH [unfolded t, OF publishes_ok [OF cons(2) cons.prems assms(3)]]
  show ?case
  proof (rule disjCI)
    assume not: "\<not> accepts_within cap (o_tcp out, os)"
    then obtain w where w: "viewed_publish cap f (o_tcp out, os, fs, wire) (t, os1, fs @ [f], w)"
      using publishes_viewed [OF cons(2) cons.prems assms(3)] by blast
    have "\<not> accepts_within cap (t, os1)" using not accepts_later [OF publishes_steps [OF cons(2)]] by blast
    with ih obtain fs' w' where "viewed_callbacks cap k options can frames
        (decide k options can f (out\<lparr>o_tcp := t\<rparr>), os1, fs @ [f], w) (out', os', fs', w')" by blast
    from viewed_frame [OF cons(1) w this]
    show "\<exists>fs' wire'. viewed_callbacks cap k options can (f # frames) (out, os, fs, wire) (out', os', fs', wire')" by blast
  qed
qed (blast intro: viewed_none viewed_undefined)+

text \<open>Nothing else happens to a node with a viewer, but the accepting of another one.\<close>

lemma node_step_watch:
  assumes "node_step cap (a, os) (a', os')" "attached (a_tcp a)" "node_ok base (a, os)" "0 < cap"
  shows "(\<exists>fs' wire'. watch_step cap (a, os, fs, wire) (a', os', fs', wire')) \<or> accepts_within cap (a_tcp a, os)"
  using assms(1)
proof cases
  case (main_steps mi)
  then show ?thesis using w_main [OF assms(2)] by blast
next
  case (acquires l it go_on f l' frames k out)
  have "tcp_ok (base \<union> can_fds a) (a_tcp a, os)" using assms(3) by (simp add: node_ok_def)
  from callbacks_viewed [OF acquires(7) this assms(4), of fs wire] w_acquires [OF assms(2) acquires(2-6)]
  show ?thesis using acquires(1) by blast
next
  case (acquisition_leaves l)
  then show ?thesis using w_leaves [OF assms(2)] by blast
next
  case (serves t)
  from io_step_viewer [OF serves(2) assms(2), of cap fs wire] show ?thesis
    using w_serves [OF serves(2)] serves(1) unfolding accepts_within_def by blast
qed

section \<open>The same revolutions for both\<close>

definition commands :: "options \<Rightarrow> scan_frame list \<Rightarrow> can_frame list" where
  "commands options fs = (if o_no_can options then [] else map (\<lambda>f. the (brake_frame (o_perception options) f)) fs)"

definition watched_ok :: "can_frame list \<Rightarrow> watched \<Rightarrow> bool" where
  "watched_ok before v \<longleftrightarrow> (case v of (a, os, fs, wire) \<Rightarrow> \<not> o_undefined (a_out a) \<longrightarrow>
     viewing (a_tcp a, os, fs, wire) \<and> o_can_sent (a_out a) = before @ commands (a_options a) fs \<and>
     (\<forall>f \<in> set fs. process (o_perception (a_options a)) f \<noteq> None))"

definition viewed_ok :: "options \<Rightarrow> can_frame list \<Rightarrow> outlets \<times> os \<times> scan_frame list \<times> bytes \<Rightarrow> bool" where
  "viewed_ok options before v \<longleftrightarrow> (case v of (out, os, fs, wire) \<Rightarrow> \<not> o_undefined out \<longrightarrow>
     viewing (o_tcp out, os, fs, wire) \<and> o_can_sent out = before @ commands options fs \<and>
     (\<forall>f \<in> set fs. process (o_perception options) f \<noteq> None))"

lemma watched_outlets: "watched_ok before (a, os, fs, wire) \<longleftrightarrow> viewed_ok (a_options a) before (a_out a, os, fs, wire)"
  by (simp add: watched_ok_def viewed_ok_def)

lemma viewed_frame_ok:
  assumes "viewed_publish cap f (o_tcp out, os, fs, wire) (t, os1, fs1, wire1)" "viewed_ok options before (out, os, fs, wire)"
    "\<not> o_undefined out" "o_no_can options \<or> isOpen can"
  shows "viewed_ok options before (decide k options can f (out\<lparr>o_tcp := t\<rparr>), os1, fs1, wire1)"
proof -
  have fs1: "fs1 = fs @ [f]" using assms(1) by cases simp_all
  have "viewing (t, os1, fs1, wire1)" using viewed_publish_viewing [OF assms(1)] assms(2,3) by (simp add: viewed_ok_def)
  moreover note decide_effect [where out = "out\<lparr>o_tcp := t\<rparr>" and options = options and f = f and k = k and can = can]
  ultimately show ?thesis using assms(2-4) by (auto simp: viewed_ok_def fs1 commands_def brake_frame_def)
qed

lemma viewed_callbacks_ok:
  "viewed_callbacks cap k options can frames s s' \<Longrightarrow> viewed_ok options before s \<Longrightarrow> o_no_can options \<or> isOpen can \<Longrightarrow>
   viewed_ok options before s'"
  by (induction rule: viewed_callbacks.induct) (simp, simp add: viewed_ok_def, blast intro: viewed_frame_ok)

text \<open>The main thread does nothing to a connected client.\<close>

lemma main_client:
  assumes "main_step cap mi (a_phase a) a os = Goes a' os'" "node_ok base (a, os)" "attached (a_tcp a)"
  shows "t_queue (a_tcp a') = t_queue (a_tcp a)" "t_session (a_tcp a') = t_session (a_tcp a)"
    "t_client_connected (a_tcp a') = t_client_connected (a_tcp a)" "t_running (a_tcp a') = t_running (a_tcp a)"
    "a_options a' = a_options a" "o_can_sent (a_out a') = o_can_sent (a_out a)" "o_undefined (a_out a') = o_undefined (a_out a)"
proof -
  have run: "t_worker (a_tcp a) = Running"
    using assms(2,3) by (auto simp: node_ok_def intro: attached_running)
  then have notcp: "a_phase a \<noteq> AtTcp" using assms(2) by (auto simp: node_ok_def)
  have "t_queue (a_tcp a') = t_queue (a_tcp a) \<and> t_session (a_tcp a') = t_session (a_tcp a) \<and>
    t_client_connected (a_tcp a') = t_client_connected (a_tcp a) \<and> t_running (a_tcp a') = t_running (a_tcp a) \<and>
    a_options a' = a_options a \<and> o_can_sent (a_out a') = o_can_sent (a_out a) \<and> o_undefined (a_out a') = o_undefined (a_out a)"
  proof (cases "a_phase a")
    case (Shutting c st code)
    then show ?thesis using assms(1) run
      by (cases st) (auto simp: stop_lidar_def release_lidar_def stop_tcp_def tcp_stop_request_def Let_def split: if_splits option.splits)
  qed (use assms(1) notcp in \<open>auto simp: startCanBus_def startLidar_def supervise_round_def
      reportHealth_def Let_def split: if_splits prod.splits option.splits\<close>)
  then show "t_queue (a_tcp a') = t_queue (a_tcp a)" "t_session (a_tcp a') = t_session (a_tcp a)"
    "t_client_connected (a_tcp a') = t_client_connected (a_tcp a)" "t_running (a_tcp a') = t_running (a_tcp a)"
    "a_options a' = a_options a" "o_can_sent (a_out a') = o_can_sent (a_out a)" "o_undefined (a_out a') = o_undefined (a_out a)"
    by simp_all
qed

lemma watch_step_ok:
  assumes "watch_step cap v v'" "node_ok base (fst v, fst (snd v))" "watched_ok before v"
  shows "watched_ok before v'"
  using assms
proof (induction rule: watch_step.induct)
  case (w_main a mi os a' os' fs wire)
  have "node_ok base (a, os)" using w_main(4) by simp
  note c = main_client [OF w_main(2) this w_main(1)]
  show ?case using w_main(5) viewing_same [OF viewing_attached [OF _ w_main(1)] w_main(1) c(1-4)]
    by (auto simp: watched_ok_def c(5-7))
next
  case (w_acquires a l it go_on f l' frames k os fs wire out os' fs' wire')
  have "o_no_can (a_options a) \<or> isOpen (a_can a)" using lidar_can_ready [OF _ w_acquires(2)] w_acquires(8) by simp
  from viewed_callbacks_ok [OF w_acquires(7) _ this] w_acquires(9) show ?case by (simp add: watched_outlets)
next
  case (w_leaves a l os fs wire)
  then show ?case by (simp add: watched_ok_def)
next
  case (w_serves a os t os' fs wire wire')
  then show ?case using viewer_step_viewing [OF w_serves(2)] by (simp add: watched_ok_def)
qed

lemma watch_steps_ok:
  assumes "(watch_step cap)\<^sup>*\<^sup>* v v'" "0 < cap" "node_ok base (fst v, fst (snd v))" "watched_ok before v"
  shows "node_ok base (fst v', fst (snd v')) \<and> watched_ok before v' \<and> a_options (fst v') = a_options (fst v)"
  using assms(1)
proof (induction rule: rtranclp_induct)
  case base
  then show ?case using assms(3,4) by simp
next
  case (step u w)
  note n = watch_node_step [OF step.hyps(2)]
  show ?case
    using node_step_ok [OF n assms(2)] watch_step_ok [OF step.hyps(2), of base before] step_options [OF n] step.IH by simp
qed

section \<open>Property\<close>

text \<open>
  C3: The viewer sees what the brake was decided on. From the moment a viewer's connection is accepted
  until it ends, in any interleaving of the three threads, the I/O thread's steps between the pieces of
  \<open>publish\<close> included, as long as no undefined behaviour was met:
  for every revolution delivered since, in order, its brake command was put on the CAN socket, and what
  the viewer's decoder makes of the bytes received, in any chunks, is some of exactly these revolutions,
  whole and in their order, without an error; all of them if they fit the queue and nothing is owed.
\<close>
theorem viewer_and_brake:
  assumes "node_start base s" "0 < cap" "(node_step cap)\<^sup>*\<^sup>* s (a0, os0)" "t_worker (a_tcp a0) = Running"
    and "fresh_accepts os0 script" "acceptClient script (a_tcp a0) os0 = Some (t, os)"
    and "st_client_connects (t_stats t) \<noteq> st_client_connects (t_stats (a_tcp a0))"
    and "(watch_step cap)\<^sup>*\<^sup>* (set_tcp t a0, os, [], []) (a, os', fs, wire)" "\<not> o_undefined (a_out a)"
    and "concat chunks = wire"
  shows "o_can_sent (a_out a) = o_can_sent (a_out a0) @ commands (a_options a) fs \<and>
    (\<exists>frames part. subseq frames fs \<and> receive_all decode_one chunks = (map truncate_frame frames, None, part) \<and>
      (cs_valid (t_session (a_tcp a)) \<and> owed (t_session (a_tcp a)) (t_queue (a_tcp a)) = [] \<longrightarrow> part = [] \<and>
         (length fs \<le> fq_capacity (t_queue (a_tcp a)) \<longrightarrow> frames = fs)))"
proof -
  have ok0: "node_ok base (a0, os0)" by (rule reachable_node_ok [OF assms(1-3)])
  then have tcp: "tcp_ok (base \<union> can_fds a0) (a_tcp a0, os0)" by (simp add: node_ok_def)
  have "node_step cap (a0, os0) (set_tcp t a0, os)"
    by (rule serves, rule accepts [OF assms(4-6)])
  then have ok: "node_ok base (set_tcp t a0, os)" using node_step_ok assms(2) ok0 by blast
  have "watched_ok (o_can_sent (a_out a0)) (set_tcp t a0, os, [], [])"
    using viewing_start(2) [OF tcp assms(4-7)] by (simp add: watched_ok_def commands_def)
  from watch_steps_ok [OF assms(8,2) _ this, of base] ok assms(9) have
    "viewing (a_tcp a, os', fs, wire)" "o_can_sent (a_out a) = o_can_sent (a_out a0) @ commands (a_options a) fs"
    by (simp_all add: watched_ok_def)
  then show ?thesis using viewing_received [OF _ assms(10)] by blast
qed

text \<open>One revolution of the sample sensor, seen by a viewer that takes every byte at once.\<close>

definition sample_view :: application where
  "sample_view = set_tcp sample_client sample_node"

definition sample_view_os :: os where
  "sample_view_os = sample_node_os\<lparr>open_fds := insert 6 (open_fds sample_node_os)\<rparr>"

definition sample_sweep :: scan_frame where
  "sample_sweep = (l_frame sample_lidar)\<lparr>points := collect_points wall_ahead, sequence := l_next_sequence sample_lidar,
     timestamp_us := it_now sample_iteration\<rparr>"

lemma sample_sweep_brakes: "brake_frame default_perception_config sample_sweep = Some (brake_command True)"
proof -
  have "3 \<le> length (filter (\<lambda>n. raw_sector n = Some 2) wall_ahead)"
    by (simp add: wall_ahead_def raw_sector_def raw_bearing_def)
  then have "raw_obstacle wall_ahead" unfolding raw_obstacle_def by (intro exI [of _ 2]) simp
  moreover have "length wall_ahead < 2 ^ 32" by (simp add: wall_ahead_def)
  ultimately show ?thesis using brake_frame_raw [of sample_sweep wall_ahead] by (simp add: sample_sweep_def)
qed

lemma sample_swept:
  "\<exists>a. watch_step 1 (sample_view, sample_view_os, [], []) (a, sample_view_os, [sample_sweep], []) \<and>
     a_tcp a = publish 1 sample_sweep sample_client \<and> \<not> o_undefined (a_out a)"
proof -
  have view: "a_lidar sample_view = Some sample_lidar" "a_failures sample_view = 0" "a_options sample_view = default_options"
    "a_tcp sample_view = sample_client" "\<not> o_undefined (a_out sample_view)"
    by (simp_all add: sample_view_def sample_node_fields) (simp add: sample_node_def Application_def)
  have some: "\<not> (\<forall>n \<in> set wall_ahead. dist_mm_q2 n = 0)" by (simp add: wall_ahead_def)
  have ok: "SL_IS_OK (it_grab sample_iteration) SL_RESULT_OK" "sdk_ascend (it_grab sample_iteration) wall_ahead = wall_ahead"
    "\<And>n t. sdk_grab (it_grab sample_iteration) n t = (SL_RESULT_OK, wall_ahead)"
    by (simp_all add: sample_iteration_def working_sdk_def)
  obtain l where l: "lidar_run_body record_frame sample_iteration 0 sample_lidar [] = (True, 0, l, [sample_sweep])"
    using revolution_read [OF sample_lidar_started(5) ok(1,2,3), of record_frame 0 "[]"] some
    by (auto simp: sample_sweep_def record_frame_def)
  have att: "attached (a_tcp sample_view)"
    by (simp add: view(4) attached_def sample_client_def sample_server_def TcpServer_def cs_valid_def ClientSession_def
        empty_session_def fd_valid_def)
  let ?out = "decide sample_kernel default_options (a_can sample_view) sample_sweep
      ((a_out sample_view)\<lparr>o_tcp := publish 1 sample_sweep (a_tcp sample_view)\<rparr>)"
  have "viewed_callbacks 1 sample_kernel default_options (a_can sample_view) [sample_sweep]
      (a_out sample_view, sample_view_os, [], []) (?out, sample_view_os, [sample_sweep], [])"
    by (rule viewed_frame [OF view(5) viewed_publish_alone [OF att]]) (simp add: viewed_none)
  then have "watch_step 1 (sample_view, sample_view_os, [], [])
      (sample_view\<lparr>a_lidar := Some l, a_failures := 0, a_out := ?out\<rparr>, sample_view_os, [sample_sweep], [])"
    using w_acquires [OF att view(1) sample_lidar_started(2,3), of sample_iteration True 0 l "[sample_sweep]"] l
    by (simp add: view sample_iteration_def)
  moreover note decide_effect(1,2) [where out = "(a_out sample_view)\<lparr>o_tcp := publish 1 sample_sweep (a_tcp sample_view)\<rparr>"
      and k = sample_kernel and options = default_options and can = "a_can sample_view" and f = sample_sweep]
  ultimately show ?thesis using sample_sweep_brakes view(4,5)
    by (intro exI [of _ "sample_view\<lparr>a_lidar := Some l, a_failures := 0, a_out := ?out\<rparr>"]) (simp add: default_options_def)
qed

theorem viewer_and_brake_witness:
  "\<exists>a os wire. (watch_step 1)\<^sup>*\<^sup>* (sample_view, sample_view_os, [], []) (a, os, [sample_sweep], wire) \<and>
     o_can_sent (a_out a) = [brake_command True] \<and> fst (receive_all decode_one [wire]) = [truncate_frame sample_sweep]"
proof -
  obtain a where a: "watch_step 1 (sample_view, sample_view_os, [], []) (a, sample_view_os, [sample_sweep], [])"
    "a_tcp a = publish 1 sample_sweep sample_client" "\<not> o_undefined (a_out a)" using sample_swept by blast
  let ?wire = "encode sample_sweep" and ?script = "replicate (length (encode sample_sweep)) (7, EAGAIN)"
  have "taking ?script" "writes_in ?script = length ?wire" by (simp_all add: taking_def writes_in_def)
  then obtain t where t: "serviceOutput ?script (a_tcp a) sample_view_os = Some (t, sample_view_os, ?wire)"
    "cs_valid (t_session t)" "owed (t_session t) (t_queue t) = []" "fq_capacity (t_queue t) = 16"
    using drains_owed [of "a_tcp a" ?script sample_view_os] sample_owed [of sample_sweep] a(2) by auto
  have run: "t_worker (a_tcp a) = Running" by (simp add: a(2) publish_fields) (simp add: sample_client_def sample_server_def)
  have "io_step (a_tcp a, sample_view_os) (t, sample_view_os)"
    by (rule outputs [OF run _ t(1)]) (simp only: a(2) sample_owed)
  moreover have "viewer_step 1 (a_tcp a, sample_view_os, [sample_sweep], []) (t, sample_view_os, [sample_sweep], [] @ ?wire)"
    by (rule v_output [OF _ t(1)]) (simp only: a(2) sample_owed)
  ultimately have "watch_step 1 (a, sample_view_os, [sample_sweep], []) (set_tcp t a, sample_view_os, [sample_sweep], ?wire)"
    using w_serves [of a sample_view_os t sample_view_os 1 "[sample_sweep]" "[]" ?wire] by simp
  with a(1) have w: "(watch_step 1)\<^sup>*\<^sup>* (sample_view, sample_view_os, [], []) (set_tcp t a, sample_view_os, [sample_sweep], ?wire)"
    by (rule converse_rtranclp_into_rtranclp [OF _ r_into_rtranclp [where r = "watch_step 1"]])
  have tcp: "a_tcp sample_node = sample_server" by (simp add: sample_node_def)
  have acc: "acceptClient [(Done 6, None)] (a_tcp sample_node) sample_node_os = Some (sample_client, sample_view_os)"
    by (simp add: tcp sample_accept_at sample_view_os_def)
  have fresh: "fresh_accepts sample_node_os [(Done 6, None)]"
    by (auto simp: fresh_accepts_def fresh_fd_def sample_node_os_def sample_os_def)
  have opt: "a_options (set_tcp t a) = default_options"
    using step_options [OF watch_node_step [OF a(1)]] by (simp add: sample_view_def sample_node_fields)
  have "o_can_sent (a_out (set_tcp t a)) = o_can_sent (a_out sample_node) @ commands (a_options (set_tcp t a)) [sample_sweep] \<and>
    (\<exists>frames part. subseq frames [sample_sweep] \<and> receive_all decode_one [?wire] = (map truncate_frame frames, None, part) \<and>
      (cs_valid (t_session (a_tcp (set_tcp t a))) \<and> owed (t_session (a_tcp (set_tcp t a))) (t_queue (a_tcp (set_tcp t a))) = [] \<longrightarrow>
        part = [] \<and> (length [sample_sweep] \<le> fq_capacity (t_queue (a_tcp (set_tcp t a))) \<longrightarrow> frames = [sample_sweep])))"
    by (rule viewer_and_brake [OF sample_start _ sample_node_reached _ fresh acc _ w [unfolded sample_view_def]])
      (use sample_counted in \<open>simp_all add: tcp a(3)\<close>, simp add: sample_server_def)
  with w t(2-4) opt show ?thesis
    by (intro exI [of _ "set_tcp t a"] exI [of _ sample_view_os] exI [of _ ?wire])
      (auto simp: commands_def default_options_def sample_sweep_brakes sample_node_fields)
qed

end
