(* ===== verification/NodeShutdown.thy ===== *)
theory NodeShutdown
  imports NodeProperties
begin

text \<open>
  \<open>Application::shutdown\<close>, run to its end: called by \<open>run\<close> and again by the destructor, each time through
  the lidar, the server and the CAN socket. One lemma for each place of the main thread, from the last to
  the first.
\<close>

definition ends_with :: "nat \<Rightarrow> int \<Rightarrow> int set \<Rightarrow> application \<times> os \<Rightarrow> bool" where
  "ends_with cap code base s \<longleftrightarrow>
     (\<exists>a os. (tested_step cap)\<^sup>*\<^sup>* s (a, os) \<and> a_phase a = Exited code \<and> open_fds os = base)"

lemma ends_with_step: "tested_step cap s s' \<Longrightarrow> ends_with cap code base s' \<Longrightarrow> ends_with cap code base s"
  unfolding ends_with_def by (elim exE conjE) (blast intro: converse_rtranclp_into_rtranclp)

text \<open>What the destructor's own \<open>shutdown\<close> does after the one of \<open>run\<close>.\<close>

definition destructor_ends :: "nat \<Rightarrow> int \<Rightarrow> int set \<Rightarrow> bool" where
  "destructor_ends cap code base \<longleftrightarrow>
     (\<forall>a os. a_phase a = Shutting FromDestructor StopLidar code \<and> a_lidar a = None \<and> node_ok base (a, os) \<longrightarrow>
        ends_with cap code base (a, os))"

lemma at_JoinTcp_stopped:
  assumes "a_phase a = Shutting c JoinTcp code" "t_worker (a_tcp a) \<noteq> Running"
    and "c \<noteq> FromDestructor \<Longrightarrow> destructor_ends cap code base"
    and "node_ok base (a, os)" "0 < cap"
  shows "ends_with cap code base (a, os)"
proof -
  obtain a1 os1 where r: "release_tcp_and_can a os = (a1, os1)" by fastforce
  let ?a = "after_shutdown c code a1"
  have step: "main_step cap mi (a_phase a) a os = Goes ?a os1" for mi
    using assms(1,2) r by simp
  then have step': "tested_step cap (a, os) (?a, os1)"
    using tested_main [of cap undefined a os] assms(1) by (auto simp: fresh_main_def)
  have ok: "node_ok base (?a, os1)" using tested_node_ok [OF step' assms(5,4)] .
  have lid: "a_lidar ?a = None" using r assms(1,4) by (auto simp: node_ok_def release_tcp_and_can_def split: prod.splits)
  have "ends_with cap code base (?a, os1)"
  proof (cases "c = FromDestructor")
    case False
    then show ?thesis using assms(3) ok lid by (simp add: destructor_ends_def)
  next
    case True
    then have "a_phase ?a = Exited code" by simp
    moreover from this have "open_fds os1 = base"
      using ok tcp_ok_detached(1) by (auto simp: node_ok_def all_stopped_def can_fds_def)
    ultimately show ?thesis unfolding ends_with_def by blast
  qed
  with step' show ?thesis by (rule ends_with_step)
qed

lemma at_JoinTcp:
  assumes "a_phase a = Shutting c JoinTcp code"
    and "c \<noteq> FromDestructor \<Longrightarrow> destructor_ends cap code base"
    and "node_ok base (a, os)" "0 < cap"
  shows "ends_with cap code base (a, os)"
proof (cases "t_worker (a_tcp a) = Running")
  case False
  with at_JoinTcp_stopped assms show ?thesis by blast
next
  case True
  obtain t os1 where t: "tcp_run_exit (a_tcp a) os = (t, os1)" by fastforce
  have "t_stop_requested (a_tcp a)" using assms(1,3) by (simp add: node_ok_def)
  from tested_exit [OF True this t] have step: "tested_step cap (a, os) (set_tcp t a, os1)" .
  have "t_worker t \<noteq> Running" using t by (auto simp: tcp_run_exit_def split: prod.splits)
  moreover have ok: "node_ok base (set_tcp t a, os1)" using tested_node_ok [OF step assms(4,3)] .
  ultimately have "ends_with cap code base (set_tcp t a, os1)"
    using at_JoinTcp_stopped [where a = "set_tcp t a"] assms(1,2,4) by simp
  with step show ?thesis by (rule ends_with_step)
qed

lemma at_StopTcp:
  assumes "a_phase a = Shutting c StopTcp code"
    and "c \<noteq> FromDestructor \<Longrightarrow> destructor_ends cap code base"
    and "node_ok base (a, os)" "0 < cap"
  shows "ends_with cap code base (a, os)"
proof -
  have step: "tested_step cap (a, os) (at (Shutting c JoinTcp code) (stop_tcp cap a), os)"
    using tested_main [of cap undefined a os] assms(1) by (auto simp: fresh_main_def)
  show ?thesis
    by (rule ends_with_step [OF step], rule at_JoinTcp [where c = c])
      (use assms tested_node_ok [OF step assms(4,3)] in simp_all)
qed

lemma at_JoinLidar:
  assumes "a_phase a = Shutting c JoinLidar code"
    and "c \<noteq> FromDestructor \<Longrightarrow> destructor_ends cap code base"
    and "node_ok base (a, os)" "0 < cap"
  shows "ends_with cap code base (a, os)"
proof -
  have stopped: "ends_with cap code base (a, os)"
    if "a_phase a = Shutting c JoinLidar code" "\<nexists>l. a_lidar a = Some l \<and> l_worker l = Running" "node_ok base (a, os)" for a os
  proof -
    have step: "tested_step cap (a, os) (at (Shutting c StopTcp code) (release_lidar a), os)"
      using tested_main [of cap undefined a os] that(1,2) by (auto simp: fresh_main_def)
    show ?thesis
      by (rule ends_with_step [OF step], rule at_StopTcp [where c = c])
        (use assms(2,4) tested_node_ok [OF step assms(4) that(3)] in simp_all)
  qed
  show ?thesis
  proof (cases "\<exists>l. a_lidar a = Some l \<and> l_worker l = Running")
    case False
    then show ?thesis using stopped assms(1,3) by blast
  next
    case True
    then obtain l where l: "a_lidar a = Some l" "l_worker l = Running" by blast
    have "l_stop_requested l" using assms(1,3) l(1) by (auto simp: node_ok_def)
    note step = tested_leaves [OF l this, of cap os]
    show ?thesis
      by (rule ends_with_step [OF step], rule stopped)
        (use assms(1) tested_node_ok [OF step assms(4,3)] in \<open>simp_all add: lidar_run_exit_def\<close>)
  qed
qed

lemma at_StopLidar:
  assumes "a_phase a = Shutting c StopLidar code"
    and "c \<noteq> FromDestructor \<Longrightarrow> destructor_ends cap code base"
    and "node_ok base (a, os)" "0 < cap"
  shows "ends_with cap code base (a, os)"
proof -
  let ?a = "at (Shutting c (if a_lidar (stop_lidar a) = None then StopTcp else JoinLidar) code) (stop_lidar a)"
  have step: "tested_step cap (a, os) (?a, os)"
    using tested_main [of cap undefined a os] assms(1) by (auto simp: fresh_main_def Let_def)
  note ok = tested_node_ok [OF step assms(4,3)]
  show ?thesis
    using at_StopTcp [OF _ assms(2) _ assms(4), of ?a c os] at_JoinLidar [OF _ assms(2) _ assms(4), of ?a c os] ok
    by (intro ends_with_step [OF step]) (cases "a_lidar (stop_lidar a)"; simp)
qed

text \<open>From the places of the shutdown there is a way out on which the I/O thread never enters \<open>poll\<close> again.\<close>

lemma shutdown_tested:
  assumes "node_start base s" "0 < cap" "(node_step cap)\<^sup>*\<^sup>* s (a, os)" "a_phase a = Shutting c st code"
  shows "\<exists>a' os'. (tested_step cap)\<^sup>*\<^sup>* (a, os) (a', os') \<and> a_phase a' = Exited code \<and> open_fds os' = base"
proof -
  have again: "destructor_ends cap code base"
    unfolding destructor_ends_def by (intro allI impI, rule at_StopLidar [where c = FromDestructor]) (use assms(2) in simp_all)
  note ok = reachable_node_ok [OF assms(1-3)]
  have "ends_with cap code base (a, os)"
    using again ok assms(2,4) by (cases st) (auto intro: at_StopLidar at_JoinLidar at_StopTcp at_JoinTcp)
  then show ?thesis by (simp add: ends_with_def)
qed

lemma shutdown_possible:
  assumes "node_start base s" "0 < cap" "(node_step cap)\<^sup>*\<^sup>* s (a, os)" "a_phase a = Shutting c st code"
  shows "\<exists>a' os'. (node_step cap)\<^sup>*\<^sup>* (a, os) (a', os') \<and> a_phase a' = Exited code \<and> open_fds os' = base"
  using shutdown_tested [OF assms] tested_node by blast

section \<open>Under a fair schedule\<close>

text \<open>
  The steps that are not put off for ever: those of the main thread, and the departure of a thread that
  has been asked to leave and comes back to the test of its loop. That the I/O thread does come back from
  \<open>poll\<close> is taken for granted here; \<open>NodeWakeup\<close> shows it.
\<close>

datatype departure = MainGoes | AcquisitionLeaves | ServerLeaves

fun departs :: "nat \<Rightarrow> departure \<Rightarrow> application \<times> os \<Rightarrow> application \<times> os \<Rightarrow> bool" where
  "departs cap MainGoes (a, os) (a', os') \<longleftrightarrow>
     (\<exists>mi. main_step cap mi (a_phase a) a os = Goes a' os' \<and> fresh_main mi a os)"
| "departs cap AcquisitionLeaves (a, os) (a', os') \<longleftrightarrow>
     (\<exists>l. a_lidar a = Some l \<and> l_worker l = Running \<and> l_stop_requested l \<and>
        a' = a\<lparr>a_lidar := Some (lidar_run_exit l)\<rparr> \<and> os' = os)"
| "departs cap ServerLeaves (a, os) (a', os') \<longleftrightarrow>
     (\<exists>t. t_worker (a_tcp a) = Running \<and> t_stop_requested (a_tcp a) \<and> tcp_run_exit (a_tcp a) os = (t, os') \<and> a' = set_tcp t a)"

lemma server_leaves: "t_worker t = Running \<Longrightarrow> t_stop_requested t \<Longrightarrow> tcp_run_exit t os = s' \<Longrightarrow> io_step (t, os) s'"
  using io_step.leaves by blast

lemma departs_step: "departs cap act s s' \<Longrightarrow> node_step cap s s'"
  by (cases act; cases s; cases s') (auto intro: main_steps acquisition_leaves serves server_leaves)

interpretation leaving: actions "node_step cap" "departs cap" for cap
  by unfold_locales (rule departs_step)

text \<open>A place of the shutdown, with the invariant; only the main thread goes on from it.\<close>

definition shutting :: "int set \<Rightarrow> caller \<Rightarrow> stage \<Rightarrow> int \<Rightarrow> application \<times> os \<Rightarrow> bool" where
  "shutting base c st code s \<longleftrightarrow> node_ok base s \<and> a_phase (fst s) = Shutting c st code"

definition lidar_runs :: "application \<Rightarrow> bool" where
  "lidar_runs a \<longleftrightarrow> (\<exists>l. a_lidar a = Some l \<and> l_worker l = Running)"

text \<open>A step of another thread stays at the place, and starts no thread.\<close>

lemma shutting_step:
  assumes "node_step cap s s'" "0 < cap" "shutting base c st code s"
  shows "departs cap MainGoes s s' \<or> (shutting base c st code s' \<and> (lidar_runs (fst s') \<longrightarrow> lidar_runs (fst s)) \<and>
     (a_lidar (fst s) = None \<longrightarrow> t_worker (a_tcp (fst s')) = Running \<longrightarrow> t_worker (a_tcp (fst s)) = Running))"
proof -
  have ok: "node_ok base s'" using node_step_ok [OF assms(1,2)] assms(3) by (simp add: shutting_def)
  show ?thesis
    using assms(1)
  proof cases
    case (serves a os t os')
    then show ?thesis using assms(3) ok io_step_fields(1) by (auto simp: shutting_def lidar_runs_def)
  qed (use assms(3) ok in \<open>auto simp: shutting_def lidar_runs_def lidar_run_exit_def\<close>)
qed

lemma main_possible:
  assumes "shutting base c st code (a, os)" "st = JoinLidar \<longrightarrow> \<not> lidar_runs a" "st = JoinTcp \<longrightarrow> t_worker (a_tcp a) \<noteq> Running"
  shows "possible (departs cap) MainGoes (a, os)"
proof -
  have fresh: "fresh_main mi a os" for mi using assms(1) by (simp add: shutting_def fresh_main_def)
  have "\<exists>a' os'. main_step cap mi (a_phase a) a os = Goes a' os'" for mi
    using assms by (cases st) (auto simp: shutting_def lidar_runs_def Let_def split: prod.splits)
  with fresh show ?thesis unfolding possible_def by fastforce
qed

text \<open>The next place.\<close>

fun next_place :: "caller \<Rightarrow> stage \<Rightarrow> int \<Rightarrow> phase set" where
  "next_place c StopLidar code = {Shutting c StopTcp code, Shutting c JoinLidar code}"
| "next_place c JoinLidar code = {Shutting c StopTcp code}"
| "next_place c StopTcp code = {Shutting c JoinTcp code}"
| "next_place c JoinTcp code = {if c = FromDestructor then Exited code else Shutting FromDestructor StopLidar code}"

lemma main_moves:
  assumes "departs cap MainGoes (a, os) (a', os')" "a_phase a = Shutting c st code"
  shows "a_phase a' \<in> next_place c st code" "st = JoinLidar \<Longrightarrow> \<not> lidar_runs a" "st = JoinTcp \<Longrightarrow> t_worker (a_tcp a) \<noteq> Running"
proof -
  obtain mi where go: "main_step cap mi (Shutting c st code) a os = Goes a' os'" using assms by auto
  show "a_phase a' \<in> next_place c st code"
    using go by (cases st) (auto simp: Let_def split: prod.splits if_splits)
  show "st = JoinLidar \<Longrightarrow> \<not> lidar_runs a" "st = JoinTcp \<Longrightarrow> t_worker (a_tcp a) \<noteq> Running"
    using go by (auto simp: lidar_runs_def split: if_splits)
qed

definition moved :: "int set \<Rightarrow> caller \<Rightarrow> stage \<Rightarrow> int \<Rightarrow> application \<times> os \<Rightarrow> bool" where
  "moved base c st code s \<longleftrightarrow> node_ok base s \<and> a_phase (fst s) \<in> next_place c st code"

lemma main_moved:
  assumes "departs cap MainGoes s s'" "0 < cap" "shutting base c st code s"
  shows "moved base c st code s'"
proof -
  obtain a os a' os' where s: "s = (a, os)" "s' = (a', os')" by (cases s; cases s')
  have "node_ok base s'" using node_step_ok [OF departs_step [OF assms(1)] assms(2)] assms(3) by (simp add: shutting_def)
  then show ?thesis using main_moves(1) [OF assms(1) [unfolded s]] assms(3) by (simp add: shutting_def moved_def s)
qed

text \<open>With nobody to wait for, the main thread goes on; a thread it joins departs first.\<close>

definition joined :: "int set \<Rightarrow> caller \<Rightarrow> stage \<Rightarrow> int \<Rightarrow> application \<times> os \<Rightarrow> bool" where
  "joined base c st code s \<longleftrightarrow> shutting base c st code s \<and> (st = JoinLidar \<longrightarrow> \<not> lidar_runs (fst s)) \<and>
     (st = JoinTcp \<longrightarrow> t_worker (a_tcp (fst s)) \<noteq> Running)"

lemma joined_moves:
  assumes "fair_run (node_step cap) (departs cap) run" "0 < cap" "joined base c st code (run i)"
  shows "\<exists>j \<ge> i. moved base c st code (run j)"
proof (rule leaving.leads_to [OF assms(1), of "joined base c st code" _ MainGoes])
  fix s s' assume s: "joined base c st code s" "node_step cap s s'"
  then have "st = JoinTcp \<Longrightarrow> a_lidar (fst s) = None" by (cases s) (auto simp: joined_def shutting_def node_ok_def)
  then show "joined base c st code s' \<or> moved base c st code s'"
    using s shutting_step [OF s(2) assms(2)] main_moved [OF _ assms(2)] by (fastforce simp: joined_def)
next
  fix s assume "joined base c st code s"
  then show "possible (departs cap) MainGoes s" by (cases s) (auto simp: joined_def intro: main_possible)
next
  fix s s' assume "joined base c st code s" "departs cap MainGoes s s'"
  then show "moved base c st code s'" using main_moved [OF _ assms(2)] by (simp add: joined_def)
qed (rule assms(3))

lemma main_held:
  assumes "departs cap MainGoes s s'" "shutting base c st code s"
  shows "st = JoinLidar \<Longrightarrow> \<not> lidar_runs (fst s)" "st = JoinTcp \<Longrightarrow> t_worker (a_tcp (fst s)) \<noteq> Running"
proof -
  obtain a os a' os' where s: "s = (a, os)" "s' = (a', os')" by (cases s; cases s')
  note m = main_moves(2,3) [OF assms(1) [unfolded s]]
  show "st = JoinLidar \<Longrightarrow> \<not> lidar_runs (fst s)" "st = JoinTcp \<Longrightarrow> t_worker (a_tcp (fst s)) \<noteq> Running"
    using m assms(2) by (simp_all add: shutting_def s)
qed

lemma lidar_departs:
  assumes "fair_run (node_step cap) (departs cap) run" "0 < cap" "shutting base c JoinLidar code (run i)" "lidar_runs (fst (run i))"
  shows "\<exists>j \<ge> i. joined base c JoinLidar code (run j)"
proof (rule leaving.leads_to [OF assms(1), of "\<lambda>s. shutting base c JoinLidar code s \<and> lidar_runs (fst s)" _ AcquisitionLeaves])
  fix s s' assume s: "shutting base c JoinLidar code s \<and> lidar_runs (fst s)" "node_step cap s s'"
  have "\<not> departs cap MainGoes s s'" using s(1) main_held(1) by blast
  then show "(shutting base c JoinLidar code s' \<and> lidar_runs (fst s')) \<or> joined base c JoinLidar code s'"
    using shutting_step [OF s(2) assms(2)] s(1) by (auto simp: joined_def)
next
  fix s assume s: "shutting base c JoinLidar code s \<and> lidar_runs (fst s)"
  obtain a os where "s = (a, os)" by fastforce
  with s obtain l where "a_lidar a = Some l" "l_worker l = Running" "l_stop_requested l"
    by (auto simp: shutting_def lidar_runs_def node_ok_def)
  then show "possible (departs cap) AcquisitionLeaves s" by (auto simp: possible_def \<open>s = (a, os)\<close>)
next
  fix s s' assume s: "shutting base c JoinLidar code s \<and> lidar_runs (fst s)" "departs cap AcquisitionLeaves s s'"
  then have "node_ok base s'" using node_step_ok [OF departs_step [OF s(2)] assms(2)] by (simp add: shutting_def)
  with s show "joined base c JoinLidar code s'"
    by (cases s; cases s') (auto simp: joined_def shutting_def lidar_runs_def lidar_run_exit_def)
qed (use assms in simp)

lemma server_departs:
  assumes "fair_run (node_step cap) (departs cap) run" "0 < cap" "shutting base c JoinTcp code (run i)"
    "t_worker (a_tcp (fst (run i))) = Running"
  shows "\<exists>j \<ge> i. joined base c JoinTcp code (run j)"
proof (rule leaving.leads_to [OF assms(1), of "\<lambda>s. shutting base c JoinTcp code s \<and> t_worker (a_tcp (fst s)) = Running" _ ServerLeaves])
  fix s s' assume s: "shutting base c JoinTcp code s \<and> t_worker (a_tcp (fst s)) = Running" "node_step cap s s'"
  have "\<not> departs cap MainGoes s s'" using s(1) main_held(2) by blast
  then show "(shutting base c JoinTcp code s' \<and> t_worker (a_tcp (fst s')) = Running) \<or> joined base c JoinTcp code s'"
    using shutting_step [OF s(2) assms(2)] s(1) by (auto simp: joined_def)
next
  fix s assume s: "shutting base c JoinTcp code s \<and> t_worker (a_tcp (fst s)) = Running"
  obtain a os where a: "s = (a, os)" by fastforce
  obtain t os' where "tcp_run_exit (a_tcp a) os = (t, os')" by fastforce
  moreover have "t_stop_requested (a_tcp a)" using s by (auto simp: shutting_def node_ok_def a)
  ultimately show "possible (departs cap) ServerLeaves s" using s by (auto simp: possible_def a)
next
  fix s s' assume s: "shutting base c JoinTcp code s \<and> t_worker (a_tcp (fst s)) = Running" "departs cap ServerLeaves s s'"
  then have "node_ok base s'" using node_step_ok [OF departs_step [OF s(2)] assms(2)] by (simp add: shutting_def)
  moreover obtain t where "fst s' = set_tcp t (fst s)" "t_worker t = Returned"
    using s(2) by (cases s; cases s') (auto simp: tcp_run_exit_def split: prod.splits)
  ultimately show "joined base c JoinTcp code s'" using s(1) by (simp add: joined_def shutting_def)
qed (use assms in simp)

lemma place_moves:
  assumes "fair_run (node_step cap) (departs cap) run" "0 < cap" "shutting base c st code (run i)"
  shows "\<exists>j \<ge> i. moved base c st code (run j)"
proof -
  have "\<exists>j \<ge> i. joined base c st code (run j)"
    using lidar_departs [OF assms(1,2), of base c code i] server_departs [OF assms(1,2), of base c code i] assms(3)
    by (cases st) (auto simp: joined_def)
  then obtain j where "i \<le> j" "joined base c st code (run j)" by blast
  with joined_moves [OF assms(1,2)] show ?thesis by (meson le_trans)
qed

fun places_left :: "stage \<Rightarrow> nat" where
  "places_left StopLidar = 3"
| "places_left JoinLidar = 2"
| "places_left StopTcp = 1"
| "places_left JoinTcp = 0"

lemma shutdown_moves:
  assumes "fair_run (node_step cap) (departs cap) run" "0 < cap" "shutting base c st code (run i)"
  shows "\<exists>j \<ge> i. moved base c JoinTcp code (run j)"
  using assms(3)
proof (induction "places_left st" arbitrary: st i rule: less_induct)
  case less
  from place_moves [OF assms(1,2) less.prems] obtain j where j: "i \<le> j" "moved base c st code (run j)" by blast
  show ?case
  proof (cases "st = JoinTcp")
    case True
    with j show ?thesis by blast
  next
    case False
    then obtain st' where "places_left st' < places_left st" "shutting base c st' code (run j)"
      using j(2) by (cases st) (auto simp: moved_def shutting_def)
    from less.hyps [OF this] j(1) show ?thesis by (meson le_trans)
  qed
qed

text \<open>From any place of the shutdown the node exits, with nothing left open.\<close>

definition gone :: "int set \<Rightarrow> int \<Rightarrow> application \<times> os \<Rightarrow> bool" where
  "gone base code s \<longleftrightarrow> a_phase (fst s) = Exited code \<and> open_fds (snd s) = base"

lemma exited_gone: "node_ok base s \<Longrightarrow> a_phase (fst s) = Exited code \<Longrightarrow> gone base code s"
  using tcp_ok_detached(1) by (cases s) (auto simp: gone_def node_ok_def all_stopped_def can_fds_def)

lemma shutdown_exits:
  assumes "fair_run (node_step cap) (departs cap) run" "0 < cap" "shutting base c st code (run i)"
  shows "\<exists>j \<ge> i. gone base code (run j)"
proof -
  note moves = shutdown_moves [OF assms(1,2)]
  have "\<exists>j \<ge> i. moved base FromDestructor JoinTcp code (run j)"
  proof (cases "c = FromDestructor")
    case False
    then obtain j where "i \<le> j" "shutting base FromDestructor StopLidar code (run j)"
      using moves [OF assms(3)] by (auto simp: moved_def shutting_def)
    with moves show ?thesis by (meson le_trans)
  next
    case True
    then show ?thesis using moves [OF assms(3)] by simp
  qed
  then obtain j where "i \<le> j" "node_ok base (run j)" "a_phase (fst (run j)) = Exited code" by (auto simp: moved_def)
  with exited_gone show ?thesis by blast
qed

lemma fair_run_ok:
  assumes "node_start base s" "0 < cap" "(node_step cap)\<^sup>*\<^sup>* s (run 0)" "fair_run (node_step cap) (departs cap) run"
  shows "(node_step cap)\<^sup>*\<^sup>* s (run i)" "node_ok base (run i)"
proof -
  show reach: "(node_step cap)\<^sup>*\<^sup>* s (run i)"
    using assms(3) leaving.run_steps [OF assms(4), of 0 i] by (meson le0 rtranclp_trans)
  show "node_ok base (run i)" by (rule reachable_node_ok [OF assms(1,2) reach])
qed

text \<open>A process that has exited does nothing more.\<close>

lemma exited_quiet:
  assumes "node_ok base s" "a_phase (fst s) = Exited code"
  shows "\<not> node_step cap s s'" "\<not> possible (departs cap) act s"
proof -
  obtain a os where s: "s = (a, os)" by fastforce
  have idle: "a_lidar a = None" "t_worker (a_tcp a) = Detached" using assms by (auto simp: s node_ok_def all_stopped_def)
  have stuck: "\<not> node_step cap s s'" for s'
  proof
    assume "node_step cap s s'"
    then show False
    proof cases
      case (serves a os t os')
      then show False using idle(2) io_step_fields(1) [OF serves(3)] by (simp add: s)
    qed (use idle assms(2) in \<open>auto simp: s\<close>)
  qed
  then show "\<not> node_step cap s s'" "\<not> possible (departs cap) act s"
    using departs_step unfolding possible_def by blast+
qed

end
