(* ===== verification/NodeWakeup.thy ===== *)
theory NodeWakeup
  imports NodeShutdown
begin

text \<open>
  The shutdown with the I/O thread where it really waits: inside \<open>poll\<close>. Under schedules that hold nobody back
  who can go on, but leave a thread in \<open>poll\<close> for as long as its wake pipe is empty, the byte that \<open>stop\<close> writes
  brings the thread back to the test of its loop, and the join returns.
\<close>

section \<open>The steps that are not put off for ever\<close>

datatype going = MainGoesOn | SensorLeaves | ServerGoesOn

fun goes :: "nat \<Rightarrow> going \<Rightarrow> io_where \<times> application \<times> os \<Rightarrow> io_where \<times> application \<times> os \<Rightarrow> bool" where
  "goes cap MainGoesOn (p, a, os) (p', a', os') \<longleftrightarrow> departs cap MainGoes (a, os) (a', os') \<and>
     p' = (if t_worker (a_tcp a) = Running then p else BeforeTest)"
| "goes cap SensorLeaves (p, a, os) (p', a', os') \<longleftrightarrow> departs cap AcquisitionLeaves (a, os) (a', os') \<and> p' = p"
| "goes cap ServerGoesOn (p, a, os) (p', a', os') \<longleftrightarrow> (p = Polling \<longrightarrow> 0 < in_pipe (t_wake (a_tcp a))) \<and>
     (\<exists>t. poll_loop (p, a_tcp a, os) (p', t, os') \<and> a' = set_tcp t a)"

lemma goes_step: "goes cap act s s' \<Longrightarrow> polled_step cap s s'"
proof -
  assume g: "goes cap act s s'"
  obtain p a os p' a' os' where s: "s = (p, a, os)" "s' = (p', a', os')" by (metis prod_cases3)
  show ?thesis
  proof (cases act)
    case MainGoesOn
    with g obtain mi where "main_step cap mi (a_phase a) a os = Goes a' os'" "fresh_main mi a os"
      "p' = (if t_worker (a_tcp a) = Running then p else BeforeTest)" by (auto simp: s)
    with p_main [of cap mi a os a' os' p] show ?thesis by (simp add: s)
  qed (use g in \<open>auto simp: s intro: p_leaves p_io\<close>)
qed

interpretation going_on: actions "polled_step cap" "goes cap" for cap
  by unfold_locales (rule goes_step)

section \<open>A thread that has been asked to leave leaves\<close>

definition asked_to_leave :: "int set \<Rightarrow> io_where \<Rightarrow> io_where \<times> application \<times> os \<Rightarrow> bool" where
  "asked_to_leave base p s \<longleftrightarrow> polled_ok base s \<and> fst s = p \<and> asked (fst (snd s))"

fun places_to_test :: "io_where \<Rightarrow> nat" where
  "places_to_test BeforeTest = 0"
| "places_to_test Sending = 1"
| "places_to_test Accepting = 2"
| "places_to_test ServingClient = 3"
| "places_to_test Polling = 4"

lemma loop_goes_on:
  assumes "poll_loop (p, t, os) (p', t', os')" "t_stop_requested t"
  shows "t_worker t' \<noteq> Running \<or> places_to_test p' < places_to_test p"
  using assms by cases (auto simp: tcp_run_exit_def split: prod.splits)

text \<open>The main thread waits in the join, and the sensor is gone: nobody else moves.\<close>

lemma asked_step:
  assumes "polled_step cap s s'" "asked_to_leave base p s"
  shows "goes cap ServerGoesOn s s'"
  using assms(1)
proof cases
  case (p_main mi a os a' os' p)
  then show ?thesis using assms(2) by (auto simp: asked_to_leave_def polled_ok_def asked_def)
next
  case (p_acquires a l it go_on f l' frames k os out os' p p')
  then show ?thesis using assms(2) by (auto simp: asked_to_leave_def polled_ok_def node_ok_def)
next
  case (p_leaves a l p os)
  then show ?thesis using assms(2) by (auto simp: asked_to_leave_def polled_ok_def node_ok_def)
next
  case (p_io p a os p' t os')
  then show ?thesis using assms(2) by (auto simp: asked_to_leave_def polled_ok_def)
qed

lemma asked_goes:
  assumes "goes cap ServerGoesOn s s'" "asked_to_leave base p s" "0 < cap"
  shows "\<not> asked (fst (snd s')) \<or> (\<exists>p'. places_to_test p' < places_to_test p \<and> asked_to_leave base p' s')"
proof -
  have ok: "polled_ok base s'" using polled_step_ok [OF goes_step [OF assms(1)] assms(3)] assms(2) by (simp add: asked_to_leave_def)
  obtain a os p' a' os' where s: "s = (p, a, os)" "s' = (p', a', os')"
    using assms(2) by (cases s; cases s') (auto simp: asked_to_leave_def)
  obtain t where t: "poll_loop (p, a_tcp a, os) (p', t, os')" "a' = set_tcp t a" using assms(1) by (auto simp: s)
  have "t_stop_requested (a_tcp a)" using assms(2) by (simp add: asked_to_leave_def asked_def s)
  from loop_goes_on [OF t(1) this] ok show ?thesis by (auto simp: asked_to_leave_def asked_def s t(2))
qed

text \<open>At each place the thread can go on: the byte is in the pipe, and no call of the later stages blocks.\<close>

lemma output_ends: "\<exists>t' os' wire. serviceOutput [(- 1, EAGAIN)] t os = Some (t', os', wire)"
proof -
  have "\<exists>r. pump [(- 1, EAGAIN)] (t_queue t) (t_session t) no_progress [] = Some r"
    by (auto simp: pump_def pump_loop.simps [of "[(- 1, EAGAIN)]"] split: prod.splits)
  then show ?thesis by (auto simp: serviceOutput_def Let_def split: prod.splits)
qed

lemma loop_possible:
  assumes "t_worker t = Running" "t_stop_requested t"
  shows "\<exists>p' t' os'. poll_loop (p, t, os) (p', t', os')"
proof (cases p)
  case BeforeTest
  then show ?thesis using leaves_loop [OF assms, of os] by (metis prod.exhaust)
next
  case Polling
  then show ?thesis using poll_serves [OF assms(1)] by blast
next
  case ServingClient
  have "serviceClientEvents [] [] t os = Some (t, os)" by (simp add: serviceClientEvents_def)
  then show ?thesis using ServingClient serves_client [OF assms(1)] serves_nobody [OF assms(1)] by blast
next
  case Accepting
  then show ?thesis using accepts_nobody [OF assms(1)] by blast
next
  case Sending
  then show ?thesis using output_ends [of t os] sends_frames [OF assms(1)] clears_frames [OF assms(1)] by blast
qed

lemma asked_possible:
  assumes "asked_to_leave base p s"
  shows "possible (goes cap) ServerGoesOn s"
proof -
  obtain a os where s: "s = (p, a, os)" using assms by (cases s) (auto simp: asked_to_leave_def)
  have a: "t_worker (a_tcp a) = Running" "t_stop_requested (a_tcp a)" "p = Polling \<longrightarrow> 0 < in_pipe (t_wake (a_tcp a))"
    using assms by (auto simp: asked_to_leave_def polled_ok_def asked_def s)
  obtain p' t os' where "poll_loop (p, a_tcp a, os) (p', t, os')" using loop_possible [OF a(1,2)] by blast
  with a(3) have "goes cap ServerGoesOn s (p', set_tcp t a, os')" by (auto simp: s)
  then show ?thesis unfolding possible_def by blast
qed

lemma asked_leaves:
  assumes "fair_run (polled_step cap) (goes cap) run" "0 < cap" "asked_to_leave base p (run i)"
  shows "\<exists>j \<ge> i. \<not> asked (fst (snd (run j)))"
  using assms(3)
proof (induction "places_to_test p" arbitrary: p i rule: less_induct)
  case less
  let ?Q = "\<lambda>s. \<not> asked (fst (snd s)) \<or> (\<exists>p'. places_to_test p' < places_to_test p \<and> asked_to_leave base p' s)"
  have "\<exists>j \<ge> i. ?Q (run j)"
  proof (rule going_on.leads_to [OF assms(1), of "asked_to_leave base p" _ ServerGoesOn])
    show "asked_to_leave base p s' \<or> ?Q s'" if "asked_to_leave base p s" "polled_step cap s s'" for s s'
      using asked_goes [OF asked_step [OF that(2,1)] that(1) assms(2)] by blast
  qed (use asked_goes asked_possible assms(2) less.prems in blast)+
  then obtain j where j: "i \<le> j" "?Q (run j)" by blast
  then show ?case using less.hyps le_trans by blast
qed

section \<open>Every such run is a fair run of the node\<close>

definition forget :: "(nat \<Rightarrow> io_where \<times> application \<times> os) \<Rightarrow> nat \<Rightarrow> application \<times> os" where
  "forget run i = snd (run i)"

lemma possible_forget:
  "possible (departs cap) MainGoes (snd s) \<Longrightarrow> possible (goes cap) MainGoesOn s"
  "possible (departs cap) AcquisitionLeaves (snd s) \<Longrightarrow> possible (goes cap) SensorLeaves s"
  by (cases s, fastforce simp: possible_def)+

lemma goes_forget:
  "goes cap MainGoesOn s s' \<Longrightarrow> departs cap MainGoes (snd s) (snd s')"
  "goes cap SensorLeaves s s' \<Longrightarrow> departs cap AcquisitionLeaves (snd s) (snd s')"
  by (cases s; cases s'; simp)+

lemma polled_run_ok:
  assumes "polled_start base s" "0 < cap" "(polled_step cap)\<^sup>*\<^sup>* s (run 0)" "fair_run (polled_step cap) (goes cap) run"
  shows "polled_ok base (run i)"
  using reachable_polled_ok [OF assms(1,2)] assms(3) going_on.run_steps [OF assms(4), of 0 i] by (meson le0 rtranclp_trans)

lemma polled_fair:
  assumes "polled_start base s" "0 < cap" "(polled_step cap)\<^sup>*\<^sup>* s (run 0)" "fair_run (polled_step cap) (goes cap) run"
  shows "fair_run (node_step cap) (departs cap) (forget run)"
  unfolding fair_run_def
proof (intro conjI allI)
  show "node_step cap (forget run i) (forget run (Suc i)) \<or> forget run (Suc i) = forget run i" for i
  proof -
    have "polled_step cap (run i) (run (Suc i)) \<or> run (Suc i) = run i" using assms(4) unfolding fair_run_def by blast
    then show ?thesis using polled_node_step [of cap "run i" "run (Suc i)"] by (auto simp: forget_def)
  qed
next
  have fair: "\<exists>j \<ge> i. \<not> possible (goes cap) act (run j) \<or> goes cap act (run j) (run (Suc j))" for act i
    using assms(4) unfolding fair_run_def by blast
  show "\<exists>j \<ge> i. \<not> possible (departs cap) act (forget run j) \<or> departs cap act (forget run j) (forget run (Suc j))" for act i
  proof (cases act)
    case MainGoes
    then show ?thesis using fair [of i MainGoesOn] possible_forget(1) goes_forget(1) unfolding forget_def by blast
  next
    case AcquisitionLeaves
    then show ?thesis using fair [of i SensorLeaves] possible_forget(2) goes_forget(2) unfolding forget_def by blast
  next
    case ServerLeaves
    have "\<exists>j \<ge> i. \<not> asked (fst (snd (run j)))"
    proof (cases "asked (fst (snd (run i)))")
      case True
      then have "asked_to_leave base (fst (run i)) (run i)" using polled_run_ok [OF assms] by (simp add: asked_to_leave_def)
      then show ?thesis by (rule asked_leaves [OF assms(4,2)])
    qed blast
    moreover have "asked (fst s)" if "possible (departs cap) ServerLeaves s" for s
      using that by (cases s) (auto simp: possible_def asked_def)
    ultimately show ?thesis using ServerLeaves unfolding forget_def by blast
  qed
qed

text \<open>A process that has exited does nothing more.\<close>

lemma polled_exited_quiet:
  assumes "polled_ok base s" "a_phase (fst (snd s)) = Exited code"
  shows "\<not> possible (goes cap) act s"
proof
  assume "possible (goes cap) act s"
  then obtain s' where s': "goes cap act s s'" unfolding possible_def by blast
  obtain p a os where s: "s = (p, a, os)" by (metis prod_cases3)
  have ok: "node_ok base (a, os)" using assms(1) by (simp add: polled_ok_def s)
  then have "t_worker (a_tcp a) = Detached" using assms(2) by (simp add: node_ok_def all_stopped_def s)
  then have "act \<noteq> ServerGoesOn" using s' poll_loop_io(1) by (cases s') (auto simp: s)
  then obtain dep where "departs cap dep (a, os) (snd s')"
    using s' goes_forget [of cap s s'] by (cases act) (auto simp: s)
  then have "possible (departs cap) dep (a, os)" unfolding possible_def by blast
  with exited_quiet(2) [OF ok] assms(2) show False by (simp add: s)
qed

lemma polled_fair_run:
  assumes "(polled_step cap)\<^sup>*\<^sup>* s s'" "polled_ok base s'" "a_phase (fst (snd s')) = Exited code"
  shows "\<exists>run i. fair_run (polled_step cap) (goes cap) run \<and> run 0 = s \<and> (\<forall>j \<ge> i. run j = s')"
  by (rule going_on.finite_fair_run [OF assms(1) polled_exited_quiet [OF assms(2,3)]])

section \<open>The property\<close>

text \<open>
  C8: A shutdown completes: the wakeups that \<open>stop\<close> sends are enough. In every run from a state in which the
  shutdown has begun, wherever the I/O thread is in its loop (inside \<open>poll\<close> with nothing to serve, too) and
  however many clients, queued frames and bytes there are, the node exits with the code decided at the
  beginning and nothing left open. Of the schedule it is asked that whoever can go on is not held back for
  ever: the main thread outside a join, the acquisition thread once it has been told to stop (its wait ends
  by itself), the I/O thread at a stage whose calls can return. Inside \<open>poll\<close> nothing is asked unless
  the wake pipe holds a byte: that \<open>stop\<close> puts one there, and that nobody takes it, is part of what is
  shown. A viewer that sends without ever pausing keeps the thread at its stage, and is excluded.
\<close>
theorem shutdown_completes:
  assumes "polled_start base s" "0 < cap" "(polled_step cap)\<^sup>*\<^sup>* s (run 0)" "fair_run (polled_step cap) (goes cap) run"
    and "a_phase (fst (snd (run i))) = Shutting c st code"
  shows "\<exists>j \<ge> i. a_phase (fst (snd (run j))) = Exited code \<and> open_fds (snd (snd (run j))) = base"
proof -
  have "shutting base c st code (forget run i)"
    using polled_run_ok [OF assms(1-4), of i] assms(5) by (cases "run i") (simp add: shutting_def forget_def polled_ok_def)
  from shutdown_exits [OF polled_fair [OF assms(1-4)] assms(2) this] show ?thesis by (simp add: gone_def forget_def)
qed

text \<open>The sample node gets its signal while the I/O thread is inside \<open>poll\<close>.\<close>

lemma sample_polled_start: "polled_start {0, 1, 2} (BeforeTest, Application default_options, sample_os)"
  using sample_start by (simp add: polled_start_def)

lemma sample_polling: "(polled_step 1)\<^sup>*\<^sup>* (BeforeTest, Application default_options, sample_os) (Polling, sample_leaving, sample_node_os)"
proof -
  have "t_worker (a_tcp sample_leaving) = Running" "\<not> t_stop_requested (a_tcp sample_leaving)"
    by (simp_all add: sample_leaving_def sample_node_def sample_server_def TcpServer_def)
  from p_io [OF enters_poll [OF this]] set_tcp_same
  have "polled_step 1 (BeforeTest, sample_leaving, sample_node_os) (Polling, sample_leaving, sample_node_os)" by metis
  with tested_polled [OF sample_leaving_tested] show ?thesis by (rule rtranclp.rtrancl_into_rtrancl)
qed

theorem shutdown_completes_witness:
  "\<exists>run j. fair_run (polled_step 1) (goes 1) run \<and> run 0 = (Polling, sample_leaving, sample_node_os) \<and>
     a_phase (fst (snd (run j))) = Exited 0 \<and> open_fds (snd (snd (run j))) = {0, 1, 2}"
proof -
  have begun: "a_phase sample_leaving = Shutting FromRun StopLidar 0" by (simp add: sample_leaving_def)
  obtain a os where a: "(tested_step 1)\<^sup>*\<^sup>* (sample_leaving, sample_node_os) (a, os)" "a_phase a = Exited 0"
    using shutdown_tested [OF sample_start _ sample_leaving_reached begun] by auto
  have "t_worker (a_tcp sample_leaving) = Running" by (simp add: sample_leaving_def sample_node_def sample_server_def)
  from p_io [OF poll_interrupted [OF this]] set_tcp_same
  have "polled_step 1 (Polling, sample_leaving, sample_node_os) (BeforeTest, sample_leaving, sample_node_os)" by metis
  from converse_rtranclp_into_rtranclp [where r = "polled_step 1", OF this tested_polled [OF a(1)]]
  have path: "(polled_step 1)\<^sup>*\<^sup>* (Polling, sample_leaving, sample_node_os) (BeforeTest, a, os)" .
  then have "polled_ok {0, 1, 2} (BeforeTest, a, os)"
    by (intro reachable_polled_ok [OF sample_polled_start _ rtranclp_trans [OF sample_polling]]) simp_all
  from polled_fair_run [OF path this] a(2) obtain run where
    run: "fair_run (polled_step 1) (goes 1) run" "run 0 = (Polling, sample_leaving, sample_node_os)" by auto
  have "\<exists>j \<ge> 0. a_phase (fst (snd (run j))) = Exited 0 \<and> open_fds (snd (snd (run j))) = {0, 1, 2}"
    by (rule shutdown_completes [OF sample_polled_start _ _ run(1)]) (use sample_polling begun in \<open>simp_all add: run(2)\<close>)
  with run show ?thesis by blast
qed

end
