(* ===== verification/NodeConsole.thy ===== *)
theory NodeConsole
  imports NodeShutdown
begin

text \<open>
  What the operator is told: the lines the main thread writes between start-up and exit, against the exit
  code of the process.
\<close>

section \<open>A failure always leaves a text\<close>

lemma can_open_explains: "can_open k bus os = (False, bus', os') \<Longrightarrow> can_error bus' \<noteq> []"
  by (auto simp: can_open_def open_failed_def describeErrno_def Let_def split: if_splits sys_result.splits)

lemma setError_text [simp]: "m \<noteq> [] \<Longrightarrow> l_last_error (lidar_setError m l) = m"
  "m \<noteq> [] \<or> l_last_error l \<noteq> [] \<Longrightarrow> l_last_error (lidar_setError m l) \<noteq> []"
  by (auto simp: lidar_setError_def)

text \<open>
  A lidar that runs with its device open owes no explanation; neither does one that was asked to stop.
  Otherwise there is a text.
\<close>

definition explains :: "lidar \<Rightarrow> bool" where
  "explains l \<longleftrightarrow> l_running l \<and> dev_isOpen (l_device l) \<or> l_stop_requested l \<or> l_last_error l \<noteq> []"

lemma openDevice_explains:
  assumes "openDevice s l = (ok, l')" "device_ok (l_device l)"
  shows "ok \<or> l_last_error l' \<noteq> []" "l_running l' = l_running l" "l_stop_requested l' = l_stop_requested l"
    "ok \<Longrightarrow> dev_isOpen (l_device l')"
proof -
  obtain o_ok error dev where o: "dev_open s (l_device l) = (o_ok, error, dev)" by (metis prod_cases3)
  note o_ok = open_ok [OF assms(2) o]
  show "ok \<or> l_last_error l' \<noteq> []" "l_running l' = l_running l" "l_stop_requested l' = l_stop_requested l"
    "ok \<Longrightarrow> dev_isOpen (l_device l')"
    using assms(1) o o_ok by (auto simp: openDevice_def Let_def split: if_splits)
qed

lemma lidar_start_explains:
  assumes "lidar_start s e True (Lidar cfg) = Some (ok, l)"
  shows "ok \<Longrightarrow> explains l \<and> \<not> l_stop_requested l" "\<not> ok \<Longrightarrow> l_last_error l \<noteq> []"
proof -
  let ?l = "(Lidar cfg)\<lparr>l_stop_requested := False, l_callback := True\<rparr>"
  obtain o_ok l1 where o: "openDevice s ?l = (o_ok, l1)" by fastforce
  have "device_ok (l_device ?l)" by (simp add: Lidar_def device_ok_start)
  note o_ok = openDevice_explains [OF o this]
  have idle: "\<not> l_running (Lidar cfg)" by (simp add: Lidar_def)
  show "ok \<Longrightarrow> explains l \<and> \<not> l_stop_requested l" "\<not> ok \<Longrightarrow> l_last_error l \<noteq> []"
    using assms o o_ok idle
    by (auto simp: lidar_start_def explains_def Let_def split: if_splits option.splits)
qed

lemma acquire_explains:
  assumes "acquireOnce record_frame s now l c = (ok, l', c')" "device_ok (l_device l)" "explains l" "l_running l"
    "\<not> l_stop_requested l"
  shows "explains l'" "\<not> ok \<Longrightarrow> l_last_error l' \<noteq> []" "l_running l'" "\<not> l_stop_requested l'" "device_ok (l_device l')"
proof -
  obtain grabbed pts error dev where g: "grabScan s (l_device l) (points (l_frame l)) = (grabbed, pts, error, dev)"
    by (metis prod_cases4)
  note g_ok = grab_ok [OF assms(2) g]
  have why: "\<not> grabbed \<Longrightarrow> error \<noteq> []"
    using g by (auto simp: grabScan_def Let_def split: option.splits prod.splits if_splits)
  have deliver: "l_device (fst (deliverFrame record_frame now l1 c)) = l_device l1"
    "l_running (fst (deliverFrame record_frame now l1 c)) = l_running l1"
    "l_stop_requested (fst (deliverFrame record_frame now l1 c)) = l_stop_requested l1" for l1
    by (simp_all add: deliverFrame_def record_frame_def Let_def)
  have "explains l' \<and> (\<not> ok \<longrightarrow> l_last_error l' \<noteq> []) \<and> l_running l' \<and> \<not> l_stop_requested l' \<and> device_ok (l_device l')"
  proof (cases "dev_isOpen (l_device l)")
    case False
    then show ?thesis using assms by (auto simp: acquireOnce_def explains_def)
  next
    case True
    let ?l = "l\<lparr>l_device := dev, l_frame := (l_frame l)\<lparr>points := pts\<rparr>\<rparr>"
    consider "\<not> grabbed" "l' = lidar_setError error ?l" "\<not> ok" | "ok" "l_device l' = dev" "l_running l' = l_running l"
      "l_stop_requested l' = l_stop_requested l"
      using assms(1) True g deliver [of ?l] by (auto simp: acquireOnce_def Let_def split: if_splits)
    then show ?thesis using assms(4,5) True g_ok why by cases (auto simp: explains_def)
  qed
  then show "explains l'" "\<not> ok \<Longrightarrow> l_last_error l' \<noteq> []" "l_running l'" "\<not> l_stop_requested l'" "device_ok (l_device l')"
    by blast+
qed

lemma body_explains:
  assumes "lidar_run_body record_frame it f l c = (go_on, f', l', c')" "device_ok (l_device l)" "explains l" "l_running l"
    "\<not> l_stop_requested l"
  shows "explains (if go_on then l' else lidar_run_exit l')" "l_stop_requested l' \<longleftrightarrow> it_stop it"
proof -
  obtain ok l1 c1 where a: "acquireOnce record_frame (it_grab it) (it_now it) l c = (ok, l1, c1)" by (metis prod_cases3)
  note acq = acquire_explains [OF a assms(2-5)]
  define l3 where "l3 = (count_read_error (l1\<lparr>l_stop_requested := l_stop_requested l1 \<or> it_stop it\<rparr>))
    \<lparr>l_device := dev_close (l_device l1)\<rparr>"
  obtain ok2 l4 where o: "openDevice (it_reopen it) l3 = (ok2, l4)" by fastforce
  have l3: "device_ok (l_device l3)" "l_running l3" "l_stop_requested l3 \<longleftrightarrow> it_stop it" "l_last_error l3 = l_last_error l1"
    using acq closed_ok by (simp_all add: l3_def)
  note o_ok = openDevice_explains [OF o l3(1)]
  have cases: "lidar_run_body record_frame it f l c =
    (if ok then (True, 0, l1\<lparr>l_stop_requested := l_stop_requested l1 \<or> it_stop it\<rparr>, c1)
     else if f + 1 < kMaxConsecutiveGrabFailures
     then (True, f + 1, count_read_error (l1\<lparr>l_stop_requested := l_stop_requested l1 \<or> it_stop it\<rparr>), c1)
     else if \<not> auto_reconnect (l_config l1) \<or> l_stop_requested l1 \<or> it_stop it then (False, 0, l3, c1)
     else (True, 0, l4, c1))"
    using run_body_cases [OF a, of f, folded l3_def] o by simp
  have "explains (if go_on then l' else lidar_run_exit l') \<and> (l_stop_requested l' \<longleftrightarrow> it_stop it)"
    using assms(1) acq l3 o_ok unfolding cases by (auto simp: explains_def lidar_run_exit_def split: if_splits)
  then show "explains (if go_on then l' else lidar_run_exit l')" "l_stop_requested l' \<longleftrightarrow> it_stop it" by blast+
qed

section \<open>The lines on the console\<close>

fun is_error :: "console_line \<Rightarrow> bool" where
  "is_error (Cerr text) = True"
| "is_error (Cout text) = False"

definition errors :: "application \<Rightarrow> console_line list" where
  "errors a = filter is_error (o_console (a_out a))"

lemma line_kinds [simp]:
  "is_error no_signals_line" "\<not> is_error viewer_only_line" "is_error (can_line ok a) \<longleftrightarrow> \<not> ok"
  "is_error (tcp_line ok a) \<longleftrightarrow> \<not> ok" "is_error (lidar_line ok l a) \<longleftrightarrow> \<not> ok" "\<not> is_error (signal_line n)"
  "is_error (sensor_line l)" "\<not> is_error stopped_line"
  by (simp_all add: no_signals_line_def viewer_only_line_def can_line_def tcp_line_def lidar_line_def signal_line_def
      sensor_line_def stopped_line_def)

lemma console_simps [simp]:
  "o_console (a_out (say line a)) = o_console (a_out a) @ [line]" "o_console (a_out (set_tcp t a)) = o_console (a_out a)"
  "o_console (a_out (at p a)) = o_console (a_out a)" "o_console (a_out (leave_run code a)) = o_console (a_out a)"
  "o_console (a_out (stop_lidar a)) = o_console (a_out a)" "o_console (a_out (stop_tcp cap a)) = o_console (a_out a)"
  "o_console (a_out (after_shutdown c code a)) = o_console (a_out a) @ (if c = FromRun then [stopped_line] else [])"
  by (cases c; simp add: say_def set_tcp_def at_def leave_run_def stop_lidar_def stop_tcp_def)+

lemma release_console:
  "o_console (a_out (release_lidar a)) = o_console (a_out a)"
  "release_tcp_and_can a os = (a', os') \<Longrightarrow> o_console (a_out a') = o_console (a_out a)"
  by (auto simp: release_lidar_def release_tcp_and_can_def split: option.splits prod.splits)

text \<open>The verdicts go to standard output.\<close>

lemma decide_console:
  "\<exists>later_lines. o_console (decide k options can f out) = o_console out @ later_lines \<and> filter is_error later_lines = []"
  by (auto simp: decide_def Let_def split: option.splits prod.splits)

lemma callbacks_console:
  assumes "callbacks cap k options can frames (out, os) (out', os')"
  shows "\<exists>later_lines. o_console out' = o_console out @ later_lines \<and> filter is_error later_lines = []"
  using assms
proof (induction rule: callbacks_induct)
  case (cons f frames out os t os1 out' os')
  from cons.IH obtain later where l: "o_console out' = o_console (decide k options can f (out\<lparr>o_tcp := t\<rparr>)) @ later"
    "filter is_error later = []" by blast
  obtain verdict where "o_console (decide k options can f (out\<lparr>o_tcp := t\<rparr>)) = o_console (out\<lparr>o_tcp := t\<rparr>) @ verdict"
    "filter is_error verdict = []" using decide_console by blast
  with l show ?case by (intro exI [of _ "verdict @ later"]) simp
qed simp_all

section \<open>What has been said at each place\<close>

fun exit_code :: "phase \<Rightarrow> int option" where
  "exit_code (Shutting c st code) = Some code"
| "exit_code (Exited code) = Some code"
| "exit_code _ = None"

text \<open>Whether \<open>run\<close> has returned.\<close>

fun run_returned :: "phase \<Rightarrow> bool" where
  "run_returned (Shutting c st code) \<longleftrightarrow> c = FromDestructor"
| "run_returned (Exited code) \<longleftrightarrow> True"
| "run_returned _ \<longleftrightarrow> False"

definition signalled :: "application \<Rightarrow> bool" where
  "signalled a \<longleftrightarrow> signal_line SIGINT \<in> set (o_console (a_out a)) \<or> signal_line SIGTERM \<in> set (o_console (a_out a))"

definition accounted_for :: "application \<Rightarrow> bool" where
  "accounted_for a \<longleftrightarrow> (case exit_code (a_phase a) of
     None \<Rightarrow> errors a = []
   | Some code \<Rightarrow>
       code = 0 \<and> errors a = [] \<and> signalled a \<and> (case a_phase a of Shutting c _ _ \<Rightarrow> c \<noteq> FromStart | _ \<Rightarrow> True) \<and>
         (run_returned (a_phase a) \<longrightarrow> stopped_line \<in> set (o_console (a_out a))) \<or>
       code = 1 \<and> (\<exists>line. errors a = [line]))"

definition lidar_explains :: "application \<Rightarrow> bool" where
  "lidar_explains a \<longleftrightarrow>
     (\<forall>l. a_lidar a = Some l \<longrightarrow> explains l \<and> (a_phase a = Supervising \<longrightarrow> \<not> l_stop_requested l))"

lemma wait_signal:
  assumes "waitFor bits w timeout script = Some (n, waits)" "from_mask w script" "w = fst (SignalWaiter True b)"
  shows "n \<in> {0, SIGINT, SIGTERM}"
proof -
  have "n \<in> {0, SIGINT, SIGTERM}" if "wait_loop ts script = Some (n, waits)" "from_mask w script" for ts
    using that
  proof (induction ts script arbitrary: waits rule: wait_loop.induct)
    case (2 ts signal err script)
    then show ?case using assms(3)
      by (fastforce simp: from_mask_def SignalWaiter_def SIGPIPE_def Let_def split: if_splits)
  qed simp
  with assms show ?thesis by (auto simp: waitFor_def split: if_splits)
qed

lemma accounted_stays:
  assumes "accounted_for a" "o_console (a_out a') = o_console (a_out a) @ later_lines" "filter is_error later_lines = []" "a_phase a' = a_phase a"
  shows "accounted_for a'"
  using assms by (auto simp: accounted_for_def errors_def signalled_def split: option.splits)

lemma tcp_start_explains:
  assumes "node_ok base (a, os)" "fresh_main mi a os" "a_phase a = AtTcp"
    and "tcp_start (mi_tcp mi) (a_tcp a) os = Some (started, t, os')" "\<not> started"
  shows "t_last_error t \<noteq> []" "\<not> t_running t"
proof -
  have det: "t_worker (a_tcp a) = Detached" and tcp: "tcp_ok (base \<union> can_fds a) (a_tcp a, os)"
    using assms(1,3) by (simp_all add: node_ok_def)
  then have "\<not> t_running (a_tcp a)" by (simp add: tcp_ok_def thread_ok_def)
  moreover have "fresh_start (mi_tcp mi) (a_tcp a) os" using assms(2,3) by (simp add: fresh_main_def)
  ultimately have out: "start_post (base \<union> can_fds a) (mi_tcp mi) (a_tcp a) (tcp_start (mi_tcp mi) (a_tcp a) os)"
    using tcp_start_outcome [OF tcp] by blast
  then show "t_last_error t \<noteq> []" "\<not> t_running t"
    using assms(4,5) det by (simp_all add: start_post_def tcp_ok_def thread_ok_def)
qed

lemma boot_accounted:
  assumes "main_step cap mi (a_phase a) a os = Goes a' os'" "node_ok base (a, os)" "fresh_main mi a os" "accounted_for a"
    and "a_phase a \<in> {AtSignals, AtCan, AtTcp, AtLidar}"
  shows "accounted_for a' \<and> lidar_explains a'"
proof -
  have quiet: "errors a = []" using assms(4,5) by (auto simp: accounted_for_def)
  have no_lidar: "a_lidar a = None" using assms(2,5) by (auto simp: node_ok_def all_stopped_def)
  consider "a_phase a = AtSignals" | "a_phase a = AtCan" | "a_phase a = AtTcp" | "a_phase a = AtLidar" using assms(5) by blast
  then show ?thesis
  proof cases
    case 1
    then show ?thesis using assms(1) quiet no_lidar
      by (auto simp: accounted_for_def lidar_explains_def errors_def exit_codes Let_def split: prod.splits if_splits)
  next
    case 2
    obtain ok can os1 where c: "can_open (mi_can mi) (a_can a) os = (ok, can, os1)" by (metis prod_cases3)
    have "\<not> ok \<Longrightarrow> can_error can \<noteq> []" using can_open_explains [of "mi_can mi" "a_can a" os can os1] c by auto
    with 2 c assms(1) quiet no_lidar show ?thesis
      by (auto simp: startCanBus_def accounted_for_def lidar_explains_def errors_def exit_codes Let_def split: if_splits)
  next
    case 3
    obtain started t os1 where t: "tcp_start (mi_tcp mi) (a_tcp a) os = Some (started, t, os1)"
      using assms(1) 3 by (cases "tcp_start (mi_tcp mi) (a_tcp a) os") (auto simp: startTcpServer_def)
    with 3 assms(1) quiet no_lidar show ?thesis
      by (auto simp: startTcpServer_def accounted_for_def lidar_explains_def errors_def exit_codes Let_def split: if_splits)
  next
    case 4
    obtain ok l where l: "lidar_start (mi_sdk mi) (mi_spawn_error mi) True (Lidar (o_lidar (a_options a))) = Some (ok, l)"
      using lidar_never_terminates by fastforce
    note why = lidar_start_explains [OF l]
    show ?thesis using 4 l why assms(1) quiet no_lidar
      by (cases ok) (auto simp: startLidar_def accounted_for_def lidar_explains_def errors_def exit_codes)
  qed
qed

lemma supervision_accounted:
  assumes "main_step cap mi (a_phase a) a os = Goes a' os'" "fresh_main mi a os" "accounted_for a" "lidar_explains a"
    and "waiter_ok a" "a_phase a = Supervising"
  shows "accounted_for a' \<and> lidar_explains a'"
proof -
  obtain n waits l where w: "waitFor (mi_long mi) (a_waiter a) (tick (a_options a)) (mi_wait mi) = Some (n, waits)" "a_lidar a = Some l"
    using assms(1,6) by (auto split: option.splits)
  have quiet: "errors a = []" using assms(3,6) by (simp add: accounted_for_def)
  have l: "explains l" "\<not> l_stop_requested l" using assms(4,6) w(2) by (simp_all add: lidar_explains_def)
  obtain b where "a_waiter a = fst (SignalWaiter True b)" using assms(5,6) by (auto simp: waiter_ok_def)
  then have n: "n \<in> {0, SIGINT, SIGTERM}" using wait_signal [OF w(1)] assms(2,6) by (simp add: fresh_main_def)
  consider "n \<noteq> 0" | "n = 0" "\<not> l_running l" | "n = 0" "l_running l" by blast
  then show ?thesis
  proof cases
    case 1
    then have "a' = at (Shutting FromRun StopLidar 0) (say (signal_line n) a)"
      using assms(1,6) w by (simp add: supervise_round_def exit_codes)
    with 1 n quiet l w(2) show ?thesis by (auto simp: accounted_for_def lidar_explains_def signalled_def errors_def)
  next
    case 2
    then have "a' = at (Shutting FromRun StopLidar 1) (say (sensor_line l) a)"
      using assms(1,6) w by (simp add: supervise_round_def exit_codes)
    then show ?thesis using quiet l w(2) by (auto simp: accounted_for_def lidar_explains_def errors_def)
  next
    case 3
    then have "a' = (if 0 < o_health_interval_s (a_options a) then reportHealth l a else a)"
      using assms(1,6) w by (simp add: supervise_round_def split: if_splits)
    then show ?thesis using quiet l w(2) assms(6)
      by (auto simp: accounted_for_def lidar_explains_def errors_def reportHealth_def say_def Let_def)
  qed
qed

lemma shutdown_accounted:
  assumes "main_step cap mi (a_phase a) a os = Goes a' os'" "accounted_for a" "lidar_explains a" "a_phase a = Shutting c st code"
  shows "accounted_for a' \<and> lidar_explains a'"
proof (cases st)
  case StopLidar
  then show ?thesis using assms
    by (auto simp: accounted_for_def lidar_explains_def errors_def signalled_def stop_lidar_def explains_def stop_request_def Let_def
        split: if_splits)
next
  case JoinLidar
  then show ?thesis using assms release_console(1) [of a]
    by (auto simp: accounted_for_def lidar_explains_def errors_def signalled_def release_lidar_def split: if_splits option.splits)
next
  case StopTcp
  then show ?thesis using assms
    by (auto simp: accounted_for_def lidar_explains_def errors_def signalled_def stop_tcp_def)
next
  case JoinTcp
  obtain a1 os1 where r: "release_tcp_and_can a os = (a1, os1)" by fastforce
  then have same: "a_lidar a1 = a_lidar a" by (auto simp: release_tcp_and_can_def split: prod.splits)
  have a': "a' = after_shutdown c code a1" using assms(1,4) JoinTcp r by (auto split: if_splits)
  show ?thesis using assms(2-4) JoinTcp same release_console(2) [OF r]
    by (cases c) (auto simp: a' accounted_for_def lidar_explains_def errors_def signalled_def)
qed

lemma accounted_step:
  assumes "node_step cap s s'" "node_ok base s" "waiter_ok (fst s)" "accounted_for (fst s)" "lidar_explains (fst s)"
  shows "accounted_for (fst s') \<and> lidar_explains (fst s')"
  using assms(1)
proof cases
  case (main_steps mi a os a' os')
  have here: "node_ok base (a, os)" "waiter_ok a" "accounted_for a" "lidar_explains a" using assms(2-5) main_steps(1) by simp_all
  show ?thesis
  proof (cases "a_phase a")
    case Supervising
    then show ?thesis using supervision_accounted [OF main_steps(3,4) here(3,4,2)] main_steps(2) by simp
  next
    case (Shutting c st code)
    then show ?thesis using shutdown_accounted [OF main_steps(3) here(3,4)] main_steps(2) by simp
  next
    case (Exited code)
    then show ?thesis using main_steps(3) by simp
  qed (use boot_accounted [OF main_steps(3) here(1) main_steps(4) here(3)] main_steps(2) in simp_all)
next
  case (acquires a l it go_on f l' frames k os out os')
  have l: "device_ok (l_device l)" "explains l" "l_running l"
    using assms(2,5) acquires(1,3,4) by (auto simp: node_ok_def lidar_ok_def lidar_explains_def)
  note body = body_explains [OF acquires(7) l acquires(5)]
  obtain later_lines where "o_console out = o_console (a_out a) @ later_lines" "filter is_error later_lines = []"
    using callbacks_console [OF acquires(8)] by blast
  then have "accounted_for (fst s')"
    using assms(4) acquires(1,2) accounted_stays [of a "fst s'" later_lines] by simp
  moreover have "lidar_explains (fst s')"
    using body acquires(2,6) by (auto simp: lidar_explains_def stop_pending_def lidar_run_exit_def)
  ultimately show ?thesis by blast
next
  case (acquisition_leaves a l os)
  then show ?thesis using assms(4,5) accounted_stays [of a "fst s'" "[]"]
    by (auto simp: lidar_explains_def explains_def lidar_run_exit_def)
next
  case (serves a os t os')
  then show ?thesis using assms(4,5) accounted_stays [of a "fst s'" "[]"] by (simp add: lidar_explains_def)
qed

lemma reachable_accounted:
  assumes "node_start base s" "0 < cap" "(node_step cap)\<^sup>*\<^sup>* s s'"
  shows "accounted_for (fst s') \<and> lidar_explains (fst s')"
  using assms(3)
proof (induction rule: rtranclp_induct)
  case base
  then show ?case using assms(1)
    by (auto simp: node_start_def Application_def accounted_for_def errors_def lidar_explains_def)
next
  case (step y z)
  show ?case using reachable_waiter_ok [OF assms(1) step.hyps(1)]
      accounted_step [OF step.hyps(2) reachable_node_ok [OF assms(1,2) step.hyps(1)]] step.IH by blast
qed

section \<open>Which failure, and why\<close>

text \<open>The lidar objects so far: those destroyed, then the one that lives.\<close>

definition lidars :: "application \<Rightarrow> lidar list" where
  "lidars a = a_destroyed a @ (case a_lidar a of None \<Rightarrow> [] | Some l \<Rightarrow> [l])"

text \<open>What start-up prints as it succeeds.\<close>

definition up_lines :: "options \<Rightarrow> console_line list" where
  "up_lines options =
     [Cout (if o_no_can options then ''aeb_node: CAN disabled (--no-can), running in viewer-only mode''
            else ''aeb_node: CAN interface '' @ o_canbus options @ '' open''),
      Cout (''aeb_node: TCP visualisation server listening on port '' @ to_string (unat (port (o_tcp_server options)))),
      Cout (''aeb_node: acquiring from '' @ serial_port (o_lidar options) @ '' @ '' @ to_string (unat (baudrate (o_lidar options))) @
        '' baud'')]"

text \<open>
  The reasons to give up: each with the place start-up has reached, as the lines printed so far tell, and
  the error text of the component that failed.
\<close>

definition start_failed :: "application \<Rightarrow> console_line \<Rightarrow> bool" where
  "start_failed a line \<longleftrightarrow>
     (lidars a = [] \<and> o_console (a_out a) = [line] \<and> \<not> sw_valid (a_waiter a) \<and>
        line = Cerr ''fatal: unable to install signal mask'') \<or>
     (lidars a = [] \<and> o_console (a_out a) = [line] \<and> sw_valid (a_waiter a) \<and> can_error (a_can a) \<noteq> [] \<and>
        line = Cerr (''fatal: CanBus::open failed: '' @ can_error (a_can a))) \<or>
     (lidars a = [] \<and> o_console (a_out a) = take 1 (up_lines (a_options a)) @ [line] \<and> \<not> t_running (a_tcp a) \<and>
        t_last_error (a_tcp a) \<noteq> [] \<and> line = Cerr (''fatal: TcpServer::start failed: '' @ t_last_error (a_tcp a))) \<or>
     (\<exists>l. lidars a = [l] \<and> a_lidar a = None \<and> o_console (a_out a) = take 2 (up_lines (a_options a)) @ [line] \<and>
        l_last_error l \<noteq> [] \<and> line = Cerr (''fatal: Lidar::start failed: '' @ l_last_error l))"

definition sensor_failed :: "application \<Rightarrow> console_line \<Rightarrow> bool" where
  "sensor_failed a line \<longleftrightarrow> prefix (up_lines (a_options a)) (o_console (a_out a)) \<and> line \<in> set (o_console (a_out a)) \<and>
     (\<exists>l. lidars a = [l] \<and> \<not> l_running l \<and> l_last_error l \<noteq> [] \<and>
        line = Cerr (''fatal: acquisition stopped: '' @ l_last_error l))"

fun failure_told :: "phase \<Rightarrow> application \<Rightarrow> bool" where
  "failure_told AtSignals a \<longleftrightarrow> lidars a = [] \<and> o_console (a_out a) = []"
| "failure_told AtCan a \<longleftrightarrow> lidars a = [] \<and> o_console (a_out a) = [] \<and> sw_valid (a_waiter a)"
| "failure_told AtTcp a \<longleftrightarrow> lidars a = [] \<and> o_console (a_out a) = take 1 (up_lines (a_options a))"
| "failure_told AtLidar a \<longleftrightarrow> lidars a = [] \<and> o_console (a_out a) = take 2 (up_lines (a_options a))"
| "failure_told Supervising a \<longleftrightarrow> a_destroyed a = [] \<and> prefix (up_lines (a_options a)) (o_console (a_out a))"
| "failure_told (Shutting c st code) a \<longleftrightarrow> (code = 1 \<longrightarrow> (\<exists>line.
     if c = FromStart then start_failed a line else if c = FromRun then sensor_failed a line
     else start_failed a line \<or> sensor_failed a line))"
| "failure_told (Exited code) a \<longleftrightarrow> (code = 1 \<longrightarrow> (\<exists>line. start_failed a line \<or> sensor_failed a line))"

text \<open>What may change without touching the reason.\<close>

lemma start_failed_cong:
  assumes "start_failed a line" "a_options a' = a_options a" "o_console (a_out a') = o_console (a_out a)" "a_waiter a' = a_waiter a"
    "can_error (a_can a') = can_error (a_can a)" "t_last_error (a_tcp a') = t_last_error (a_tcp a)"
    "t_running (a_tcp a') \<longrightarrow> t_running (a_tcp a)" "lidars a' = lidars a" "a_lidar a' = a_lidar a"
  shows "start_failed a' line"
  using assms by (auto simp: start_failed_def)

lemma sensor_failed_cong:
  assumes "sensor_failed a line" "a_options a' = a_options a" "o_console (a_out a') = o_console (a_out a) @ later_lines"
    "\<And>l. lidars a = [l] \<Longrightarrow> \<not> l_running l \<Longrightarrow> \<exists>l'. lidars a' = [l'] \<and> l_last_error l' = l_last_error l \<and> \<not> l_running l'"
  shows "sensor_failed a' line"
proof -
  obtain l where l: "lidars a = [l]" "\<not> l_running l" "l_last_error l \<noteq> []" "line = Cerr (''fatal: acquisition stopped: '' @ l_last_error l)"
    using assms(1) by (auto simp: sensor_failed_def)
  obtain l' where "lidars a' = [l']" "l_last_error l' = l_last_error l" "\<not> l_running l'" using assms(4) [OF l(1,2)] by blast
  with l assms(1-3) show ?thesis by (auto simp: sensor_failed_def prefix_def)
qed

text \<open>The objects under each way of changing the application.\<close>

lemma lidars_simps [simp]:
  "lidars (set_tcp t a) = lidars a" "lidars (at p a) = lidars a" "lidars (leave_run code a) = lidars a"
  "lidars (say line a) = lidars a" "lidars (after_shutdown c code a) = lidars a"
  by (simp_all add: lidars_def)

lemma boot_told:
  assumes "main_step cap mi (a_phase a) a os = Goes a' os'" "node_ok base (a, os)" "fresh_main mi a os" "failure_told (a_phase a) a"
    and "a_phase a \<in> {AtSignals, AtCan, AtTcp, AtLidar}"
  shows "failure_told (a_phase a') a'"
proof -
  have no_lidar: "a_lidar a = None" using assms(2,5) by (auto simp: node_ok_def all_stopped_def)
  then have gone: "a_destroyed a = []" using assms(4,5) by (auto simp: lidars_def)
  have fresh: "lidars a = []" using no_lidar gone by (simp add: lidars_def)
  consider "a_phase a = AtSignals" | "a_phase a = AtCan" | "a_phase a = AtTcp" | "a_phase a = AtLidar" using assms(5) by blast
  then show ?thesis
  proof cases
    case 1
    then show ?thesis using assms(1,4) fresh
      by (auto simp: start_failed_def no_signals_line_def lidars_def leave_run_def say_def at_def Let_def split: prod.splits if_splits)
  next
    case 2
    obtain ok can os1 where c: "can_open (mi_can mi) (a_can a) os = (ok, can, os1)" by (metis prod_cases3)
    have "\<not> ok \<Longrightarrow> can_error can \<noteq> []" using can_open_explains [of "mi_can mi" "a_can a" os can os1] c by auto
    with 2 c assms(1,4) fresh show ?thesis
      by (auto simp: startCanBus_def start_failed_def can_line_def viewer_only_line_def up_lines_def lidars_def leave_run_def say_def
          at_def Let_def split: if_splits)
  next
    case 3
    obtain started t os1 where t: "tcp_start (mi_tcp mi) (a_tcp a) os = Some (started, t, os1)"
      using assms(1) 3 by (cases "tcp_start (mi_tcp mi) (a_tcp a) os") (auto simp: startTcpServer_def)
    have "\<not> started \<Longrightarrow> t_last_error t \<noteq> [] \<and> \<not> t_running t" using tcp_start_explains [OF assms(2,3) 3 t] by blast
    with 3 t assms(1,4) fresh show ?thesis
      by (auto simp: startTcpServer_def start_failed_def tcp_line_def up_lines_def Let_def exit_codes split: if_splits)
  next
    case 4
    obtain ok l where l: "lidar_start (mi_sdk mi) (mi_spawn_error mi) True (Lidar (o_lidar (a_options a))) = Some (ok, l)"
      using lidar_never_terminates by fastforce
    have "\<not> ok \<Longrightarrow> l_last_error l \<noteq> []" using lidar_start_explains(2) [OF l] by blast
    with 4 l assms(1,4) no_lidar gone show ?thesis
      by (auto simp: startLidar_def start_failed_def lidar_line_def up_lines_def lidars_def lidar_destroy_def stop_request_def
          stop_finish_def say_def at_def exit_codes split: if_splits)
  qed
qed

lemma supervision_told:
  assumes "main_step cap mi (a_phase a) a os = Goes a' os'" "lidar_explains a" "failure_told (a_phase a) a" "a_phase a = Supervising"
  shows "failure_told (a_phase a') a'"
proof -
  obtain n waits l where w: "waitFor (mi_long mi) (a_waiter a) (tick (a_options a)) (mi_wait mi) = Some (n, waits)" "a_lidar a = Some l"
    using assms(1,4) by (auto split: option.splits)
  have here: "a_destroyed a = []" "prefix (up_lines (a_options a)) (o_console (a_out a))" using assms(3,4) by simp_all
  then have one: "lidars a = [l]" using w(2) by (simp add: lidars_def)
  consider "n \<noteq> 0" | "n = 0" "\<not> l_running l" | "n = 0" "l_running l" by blast
  then show ?thesis
  proof cases
    case 1
    then show ?thesis using assms(1,4) w by (auto simp: supervise_round_def exit_codes)
  next
    case 2
    then have "a' = at (Shutting FromRun StopLidar 1) (say (sensor_line l) a)"
      using assms(1,4) w by (simp add: supervise_round_def exit_codes)
    moreover have "l_last_error l \<noteq> []" using 2 assms(2,4) w(2) by (auto simp: lidar_explains_def explains_def)
    ultimately show ?thesis using here one 2 by (simp add: sensor_failed_def sensor_line_def)
  next
    case 3
    then have "a' = (if 0 < o_health_interval_s (a_options a) then reportHealth l a else a)"
      using assms(1,4) w by (simp add: supervise_round_def split: if_splits)
    then show ?thesis using here assms(4) by (simp add: reportHealth_def say_def Let_def)
  qed
qed

text \<open>A step of the shutdown: no component changes its error text, and the sensor, if there is one, stays down.\<close>

lemma shutdown_keeps:
  assumes "main_step cap mi (a_phase a) a os = Goes a' os'" "a_phase a = Shutting c st code"
  shows "a_options a' = a_options a" "a_waiter a' = a_waiter a" "can_error (a_can a') = can_error (a_can a)"
    "t_last_error (a_tcp a') = t_last_error (a_tcp a)" "t_running (a_tcp a') \<longrightarrow> t_running (a_tcp a)"
    "\<exists>later_lines. o_console (a_out a') = o_console (a_out a) @ later_lines \<and> (c \<noteq> FromRun \<longrightarrow> later_lines = [])"
    "a_lidar a = None \<Longrightarrow> lidars a' = lidars a \<and> a_lidar a' = None"
    "lidars a = [l] \<Longrightarrow> \<not> l_running l \<Longrightarrow> \<exists>l'. lidars a' = [l'] \<and> l_last_error l' = l_last_error l \<and> \<not> l_running l'"
proof -
  have "a_options a' = a_options a \<and> a_waiter a' = a_waiter a \<and> can_error (a_can a') = can_error (a_can a) \<and>
    t_last_error (a_tcp a') = t_last_error (a_tcp a) \<and> (t_running (a_tcp a') \<longrightarrow> t_running (a_tcp a)) \<and>
    (\<exists>later_lines. o_console (a_out a') = o_console (a_out a) @ later_lines \<and> (c \<noteq> FromRun \<longrightarrow> later_lines = [])) \<and>
    (a_lidar a = None \<longrightarrow> lidars a' = lidars a \<and> a_lidar a' = None) \<and>
    (lidars a = [l] \<and> \<not> l_running l \<longrightarrow> (\<exists>l'. lidars a' = [l'] \<and> l_last_error l' = l_last_error l \<and> \<not> l_running l'))"
  proof (cases st)
    case StopLidar
    then have "a' = at (Shutting c (if a_lidar (stop_lidar a) = None then StopTcp else JoinLidar) code) (stop_lidar a)"
      using assms by (simp add: Let_def)
    then show ?thesis by (auto simp: stop_lidar_def lidars_def stop_request_def split: option.splits)
  next
    case JoinLidar
    then have "a' = at (Shutting c StopTcp code) (release_lidar a)" using assms by (simp split: if_splits)
    then show ?thesis by (auto simp: release_lidar_def lidars_def stop_request_def stop_finish_def split: option.splits)
  next
    case StopTcp
    then have "a' = at (Shutting c JoinTcp code) (stop_tcp cap a)" using assms by simp
    then show ?thesis by (auto simp: stop_tcp_def tcp_stop_request_def)
  next
    case JoinTcp
    obtain a1 os1 where r: "release_tcp_and_can a os = (a1, os1)" by fastforce
    then have "a_options a1 = a_options a \<and> a_waiter a1 = a_waiter a \<and> can_error (a_can a1) = can_error (a_can a) \<and>
      t_last_error (a_tcp a1) = t_last_error (a_tcp a) \<and> \<not> t_running (a_tcp a1) \<and> a_lidar a1 = a_lidar a \<and> a_destroyed a1 = a_destroyed a"
      by (auto simp: release_tcp_and_can_def tcp_stop_finish_def can_close_def split: prod.splits if_splits)
    moreover have "a' = after_shutdown c code a1" using assms JoinTcp r by (auto split: if_splits)
    ultimately show ?thesis using release_console(2) [OF r] by (auto simp: lidars_def)
  qed
  then show "a_options a' = a_options a" "a_waiter a' = a_waiter a" "can_error (a_can a') = can_error (a_can a)"
    "t_last_error (a_tcp a') = t_last_error (a_tcp a)" "t_running (a_tcp a') \<longrightarrow> t_running (a_tcp a)"
    "\<exists>later_lines. o_console (a_out a') = o_console (a_out a) @ later_lines \<and> (c \<noteq> FromRun \<longrightarrow> later_lines = [])"
    "a_lidar a = None \<Longrightarrow> lidars a' = lidars a \<and> a_lidar a' = None"
    "lidars a = [l] \<Longrightarrow> \<not> l_running l \<Longrightarrow> \<exists>l'. lidars a' = [l'] \<and> l_last_error l' = l_last_error l \<and> \<not> l_running l'"
    by simp_all
qed

lemma shutdown_told:
  assumes "main_step cap mi (a_phase a) a os = Goes a' os'" "a_phase a = Shutting c st code" "failure_told (a_phase a) a"
  shows "failure_told (a_phase a') a'"
proof -
  note k = shutdown_keeps [OF assms(1,2)]
  have start: "start_failed a' line" if f: "start_failed a line" and c: "c \<noteq> FromRun" for line
  proof -
    have "a_lidar a = None" using f by (auto simp: start_failed_def lidars_def split: option.splits)
    with k(6,7) c show ?thesis by (intro start_failed_cong [OF f k(1) _ k(2-5)]) simp_all
  qed
  have sensor: "sensor_failed a' line" if "sensor_failed a line" for line
    using sensor_failed_cong [OF that k(1)] k(6) k(8) by blast
  have "a_phase a' \<in> next_place c st code"
    using assms(1,2) by (cases st) (auto simp: Let_def split: prod.splits if_splits)
  then have place: "failure_told (a_phase a') a'" if "failure_told (Shutting c st code) a'"
    using that by (cases st; cases c) auto
  consider "code \<noteq> 1" | line where "c \<noteq> FromRun" "start_failed a line" | line where "c \<noteq> FromStart" "sensor_failed a line"
    using assms(2,3) by (auto split: if_splits)
  then show ?thesis
  proof cases
    case (2 line)
    with start [of line] show ?thesis by (intro place) auto
  next
    case (3 line)
    with sensor [of line] show ?thesis by (intro place) auto
  qed (simp add: place)
qed

lemma told_step:
  assumes "node_step cap s s'" "node_ok base s" "accounted_for (fst s)" "lidar_explains (fst s)" "failure_told (a_phase (fst s)) (fst s)"
  shows "failure_told (a_phase (fst s')) (fst s')"
  using assms(1)
proof cases
  case (main_steps mi a os a' os')
  have here: "node_ok base (a, os)" "lidar_explains a" "failure_told (a_phase a) a" using assms(2,4,5) main_steps(1) by simp_all
  show ?thesis
  proof (cases "a_phase a")
    case Supervising
    then show ?thesis using supervision_told [OF main_steps(3) here(2,3)] main_steps(2) by simp
  next
    case (Shutting c st code)
    then show ?thesis using shutdown_told [OF main_steps(3) _ here(3)] main_steps(2) by simp
  next
    case (Exited code)
    then show ?thesis using main_steps(3) by simp
  qed (use boot_told [OF main_steps(3) here(1) main_steps(4) here(3)] main_steps(2) in simp_all)
next
  case (acquires a l it go_on f l' frames k os out os')
  have run: "l_running l" using assms(2) acquires(1,3,4) by (auto simp: node_ok_def lidar_ok_def)
  then have "\<not> start_failed a line" "\<not> sensor_failed a line" for line
    using acquires(3) by (auto simp: start_failed_def sensor_failed_def lidars_def append_eq_Cons_conv)
  moreover obtain later_lines where "o_console out = o_console (a_out a) @ later_lines"
    using callbacks_console [OF acquires(8)] by blast
  moreover have "a_phase a \<notin> {AtSignals, AtCan, AtTcp, AtLidar}"
    using assms(2) acquires(1,3) by (auto simp: node_ok_def all_stopped_def)
  ultimately show ?thesis using assms(5) acquires(1,2) by (cases "a_phase a") (auto simp: prefix_def split: if_splits)
next
  case (acquisition_leaves a l os)
  have run: "l_running l" using assms(2) acquisition_leaves(1,3,4) by (auto simp: node_ok_def lidar_ok_def)
  then have "\<not> start_failed a line" "\<not> sensor_failed a line" for line
    using acquisition_leaves(3) by (auto simp: start_failed_def sensor_failed_def lidars_def append_eq_Cons_conv)
  moreover have "a_phase a \<notin> {AtSignals, AtCan, AtTcp, AtLidar}"
    using assms(2) acquisition_leaves(1,3) by (auto simp: node_ok_def all_stopped_def)
  ultimately show ?thesis using assms(5) acquisition_leaves(1,2) by (cases "a_phase a") (auto split: if_splits)
next
  case (serves a os t os')
  have "t_running (a_tcp a)" using assms(2) serves(1) io_step_fields(1) [OF serves(3)] by (auto simp: node_ok_def tcp_ok_def thread_ok_def)
  then have "start_failed (set_tcp t a) line" if "start_failed a line" for line
    using that by (auto simp: start_failed_def)
  moreover have "sensor_failed (set_tcp t a) line" if "sensor_failed a line" for line
    using that by (auto simp: sensor_failed_def)
  ultimately show ?thesis using assms(5) serves(1,2) by (cases "a_phase a") (auto split: if_splits)
qed

lemma reachable_told:
  assumes "node_start base s" "0 < cap" "(node_step cap)\<^sup>*\<^sup>* s s'"
  shows "failure_told (a_phase (fst s')) (fst s')"
  using assms(3)
proof (induction rule: rtranclp_induct)
  case base
  then show ?case using assms(1) by (auto simp: node_start_def Application_def lidars_def)
next
  case (step y z)
  show ?case using reachable_accounted [OF assms(1,2) step.hyps(1)]
      told_step [OF step.hyps(2) reachable_node_ok [OF assms(1,2) step.hyps(1)] _ _ step.IH] by blast
qed

section \<open>The property\<close>

text \<open>
  C10: A node that fails says why. In every interleaving the process exits with code 1 exactly if one line
  was written to standard error, and then it is a single one. If start-up failed, it names the step that
  failed, in the wording of the code, with what \<open>lastError\<close> of that component says, which is never empty
  (the signal mask has no such text),
  and the lines of the steps before it are all that was printed; if the sensor was lost after start-up, it
  says so, with the text of the lidar, which no longer runs. The process exits with code 0 only after a
  line that names the termination signal and the line that it stopped, and then standard error stayed
  empty. While the node starts and runs, nothing is on standard error.
\<close>
theorem failure_reported:
  assumes "node_start base s" "0 < cap" "(node_step cap)\<^sup>*\<^sup>* s (a, os)"
  shows "(\<forall>code. a_phase a = Exited code \<longrightarrow>
      (code = 1 \<longleftrightarrow> errors a \<noteq> []) \<and>
      (code = 1 \<longrightarrow> (\<exists>line. errors a = [line] \<and> (start_failed a line \<or> sensor_failed a line))) \<and>
      (code = 0 \<longrightarrow> signalled a \<and> stopped_line \<in> set (o_console (a_out a)))) \<and>
    (a_phase a \<in> {AtSignals, AtCan, AtTcp, AtLidar, Supervising} \<longrightarrow> errors a = [])"
proof -
  have acc: "accounted_for a" and told: "failure_told (a_phase a) a"
    using reachable_accounted [OF assms] reachable_told [OF assms] by simp_all
  have "errors a = [line]" if "\<exists>line. errors a = [line]" "start_failed a line \<or> sensor_failed a line" for line
  proof -
    have "is_error line \<and> line \<in> set (o_console (a_out a))" using that(2) by (auto simp: start_failed_def sensor_failed_def)
    then have "line \<in> set (errors a)" by (simp add: errors_def)
    with that(1) show ?thesis by auto
  qed
  with told have "\<exists>line. errors a = [line] \<and> (start_failed a line \<or> sensor_failed a line)"
    if "a_phase a = Exited 1" "\<exists>line. errors a = [line]" using that by auto
  with acc show ?thesis by (auto simp: accounted_for_def)
qed

text \<open>The signal mask cannot be installed.\<close>

theorem failure_reported_witness:
  "\<exists>a os. (node_step 1)\<^sup>*\<^sup>* (Application default_options, sample_os) (a, os) \<and> a_phase a = Exited 1 \<and>
     (\<exists>line. errors a = [line] \<and> (start_failed a line \<or> sensor_failed a line))"
proof -
  let ?mi = "(sample_wait [])\<lparr>mi_sigmask := False\<rparr>" and ?a = "Application default_options"
  have "\<exists>a. main_step 1 ?mi (a_phase ?a) ?a sample_os = Goes a sample_os \<and> a_phase a = Shutting FromDestructor StopLidar 1"
    by (simp add: Application_def SignalWaiter_def sw_valid_def exit_codes Let_def)
  then obtain a where a: "node_step 1 (?a, sample_os) (a, sample_os)" "a_phase a = Shutting FromDestructor StopLidar 1"
    using node_step.main_steps [of 1 ?mi ?a sample_os] by (auto simp: fresh_main_def Application_def)
  from shutdown_possible [OF sample_start _ r_into_rtranclp [where r = "node_step 1", OF a(1)] a(2)]
  obtain a' os' where e: "(node_step 1)\<^sup>*\<^sup>* (?a, sample_os) (a', os')" "a_phase a' = Exited 1"
    using a(1) by (auto intro: converse_rtranclp_into_rtranclp)
  with failure_reported [OF sample_start _ e(1)] show ?thesis by auto
qed

end
