(* ===== verification/NodeLiveness.thy ===== *)
theory NodeLiveness
  imports NodeConsole NodeWakeup
begin

text \<open>
  What the node comes to under a fair schedule: start-up ends, a lost sensor ends the supervision, and a
  process that does not exit supervises a sensor that runs.
\<close>

section \<open>The main thread is never stuck outside a join\<close>

definition starting :: "phase set" where
  "starting = {AtSignals, AtCan, AtTcp, AtLidar}"

text \<open>
  Answers with which the main thread goes on: every call that opens something fails, and the wait ends
  with its timeout.
\<close>

definition failing_answers :: main_input where
  "failing_answers = \<lparr>mi_sigmask = True, mi_can = sample_kernel\<lparr>k_socket := Fail EAGAIN\<rparr>,
     mi_tcp = server_kernel\<lparr>sk_pipe := Fail EAGAIN, sk_listen := (sk_listen server_kernel)\<lparr>lk_socket := Fail EAGAIN\<rparr>\<rparr>,
     mi_sdk = working_sdk [], mi_spawn_error = None, mi_wait = [(- 1, EAGAIN)], mi_long = 32\<rparr>"

lemma failing_fresh: "fresh_main failing_answers a os"
  by (simp add: fresh_main_def failing_answers_def fresh_fd_def fresh_start_def fresh_pair_def from_mask_def)

lemma failing_start: "tcp_start (mi_tcp failing_answers) t os \<noteq> None"
  by (auto simp: tcp_start_def failing_answers_def wp_open_def Let_def split: prod.splits)

lemma main_goes:
  assumes "node_ok base (a, os)" "a_phase a \<in> insert Supervising starting"
  shows "possible (departs cap) MainGoes (a, os)"
proof -
  have "\<exists>a' os'. main_step cap failing_answers (a_phase a) a os = Goes a' os'"
  proof -
    consider "a_phase a \<in> {AtSignals, AtCan}" | "a_phase a = AtTcp" | "a_phase a = AtLidar" | "a_phase a = Supervising"
      using assms(2) by (auto simp: starting_def)
    then show ?thesis
    proof cases
      case 1
      then show ?thesis by (auto simp: Let_def split: prod.splits)
    next
      case 2
      then show ?thesis using failing_start [of "a_tcp a" os]
        by (auto simp: startTcpServer_def Let_def split: option.splits)
    next
      case 3
      obtain ok l where "lidar_start (mi_sdk failing_answers) (mi_spawn_error failing_answers) True (Lidar (o_lidar (a_options a))) = Some (ok, l)"
        using lidar_never_terminates by fastforce
      then show ?thesis using 3 by (cases ok) (simp_all add: startLidar_def)
    next
      case 4
      then obtain l where l: "a_lidar a = Some l" using assms(1) by (auto simp: node_ok_def)
      have "\<exists>waits. waitFor (mi_long failing_answers) (a_waiter a) (tick (a_options a)) (mi_wait failing_answers) = Some (0, waits)"
        by (simp add: waitFor_def failing_answers_def)
      then show ?thesis using 4 l by (auto split: option.splits prod.splits)
    qed
  qed
  then obtain a' os' where "main_step cap failing_answers (a_phase a) a os = Goes a' os'" by blast
  with failing_fresh [of a os] have "departs cap MainGoes (a, os) (a', os')" by auto
  then show ?thesis unfolding possible_def by blast
qed

section \<open>Start-up ends\<close>

definition within :: "int set \<Rightarrow> phase set \<Rightarrow> application \<times> os \<Rightarrow> bool" where
  "within base ps s \<longleftrightarrow> node_ok base s \<and> waiter_ok (fst s) \<and> a_phase (fst s) \<in> ps"

definition shutting_phases :: "phase set" where
  "shutting_phases = {Shutting c st code | c st code. True}"

lemma within_step:
  assumes "node_step cap s s'" "0 < cap" "within base ps s"
  shows "departs cap MainGoes s s' \<or> (within base ps s' \<and> a_phase (fst s') = a_phase (fst s) \<and> (lidar_runs (fst s') \<longrightarrow> lidar_runs (fst s)) \<and>
    (\<not> lidar_runs (fst s) \<longrightarrow> a_lidar (fst s') = a_lidar (fst s)))"
proof -
  have ok: "node_ok base s'" "waiter_ok (fst s')"
    using node_step_ok [OF assms(1,2)] waiter_step [OF assms(1)] assms(3) by (simp_all add: within_def)
  show ?thesis
    using assms(1)
  proof cases
    case (serves a os t os')
    then show ?thesis using assms(3) ok by (auto simp: within_def lidar_runs_def)
  qed (use assms(3) ok in \<open>auto simp: within_def lidar_runs_def lidar_run_exit_def\<close>)
qed

fun after_start :: "phase \<Rightarrow> phase set" where
  "after_start AtSignals = {AtCan}"
| "after_start AtCan = {AtTcp}"
| "after_start AtTcp = {AtLidar}"
| "after_start AtLidar = {Supervising}"
| "after_start p = {}"

lemma start_goes:
  assumes "departs cap MainGoes s s'" "0 < cap" "within base {p} s" "p \<in> starting"
  shows "within base (after_start p \<union> shutting_phases) s'"
proof -
  obtain a os a' os' where s: "s = (a, os)" "s' = (a', os')" by (cases s; cases s')
  obtain mi where go: "main_step cap mi p a os = Goes a' os'" using assms(1,3) by (auto simp: s within_def)
  have "a_phase a' \<in> after_start p \<union> shutting_phases"
    using go assms(4) by (auto simp: starting_def shutting_phases_def Let_def split: prod.splits option.splits if_splits)
  then show ?thesis
    using node_step_ok [OF departs_step [OF assms(1)] assms(2)] waiter_step [OF departs_step [OF assms(1)]] assms(3)
    by (simp add: within_def s)
qed

lemma start_moves:
  assumes "fair_run (node_step cap) (departs cap) run" "0 < cap" "within base {p} (run i)" "p \<in> starting"
  shows "\<exists>j \<ge> i. within base (after_start p \<union> shutting_phases) (run j)"
proof (rule leaving.leads_to [OF assms(1), of "within base {p}" _ MainGoes])
  fix s s' assume "within base {p} s" "node_step cap s s'"
  then show "within base {p} s' \<or> within base (after_start p \<union> shutting_phases) s'"
    using within_step [OF _ assms(2)] start_goes [OF _ assms(2) _ assms(4)] by blast
next
  fix s assume "within base {p} s"
  then show "possible (departs cap) MainGoes s"
    using main_goes assms(4) by (cases s) (auto simp: within_def)
next
  fix s s' assume "within base {p} s" "departs cap MainGoes s s'"
  then show "within base (after_start p \<union> shutting_phases) s'" using start_goes [OF _ assms(2) _ assms(4)] by blast
qed (rule assms(3))

lemma start_ends:
  assumes "fair_run (node_step cap) (departs cap) run" "0 < cap" "within base {p} (run i)" "p \<in> starting"
  shows "\<exists>j \<ge> i. within base (insert Supervising shutting_phases) (run j)"
proof -
  note on = start_moves [OF assms(1,2)]
  have step: "\<exists>j \<ge> i. within base (insert Supervising shutting_phases) (run j)"
    if at: "within base {p} (run i)" "p \<in> starting" "after_start p = {p'}"
      and rest: "\<And>i. within base {p'} (run i) \<Longrightarrow> \<exists>j \<ge> i. within base (insert Supervising shutting_phases) (run j)" for p p' i
  proof -
    obtain j where "i \<le> j" "within base (insert p' shutting_phases) (run j)" using on [OF at(1,2)] at(3) by auto
    then show ?thesis using rest [of j] by (auto simp: within_def intro: le_trans)
  qed
  have 0: "\<exists>j \<ge> i. within base (insert Supervising shutting_phases) (run j)" if "within base {Supervising} (run i)" for i
    using that by (auto simp: within_def)
  have 1: "\<exists>j \<ge> i. within base (insert Supervising shutting_phases) (run j)" if "within base {AtLidar} (run i)" for i
    by (rule step [OF that _ _ 0]) (simp_all add: starting_def)
  have 2: "\<exists>j \<ge> i. within base (insert Supervising shutting_phases) (run j)" if "within base {AtTcp} (run i)" for i
    by (rule step [OF that _ _ 1]) (simp_all add: starting_def)
  have 3: "\<exists>j \<ge> i. within base (insert Supervising shutting_phases) (run j)" if "within base {AtCan} (run i)" for i
    by (rule step [OF that _ _ 2]) (simp_all add: starting_def)
  have 4: "\<exists>j \<ge> i. within base (insert Supervising shutting_phases) (run j)" if "within base {AtSignals} (run i)" for i
    by (rule step [OF that _ _ 3]) (simp_all add: starting_def)
  show ?thesis using assms(3,4) 1 2 3 4 by (auto simp: starting_def)
qed

section \<open>A sensor that is lost\<close>

definition lost :: "int set \<Rightarrow> lidar \<Rightarrow> application \<times> os \<Rightarrow> bool" where
  "lost base l s \<longleftrightarrow> within base {Supervising} s \<and> a_lidar (fst s) = Some l \<and> \<not> l_running l"

text \<open>The main thread has decided, and said so.\<close>

definition decided :: "int set \<Rightarrow> lidar \<Rightarrow> application \<times> os \<Rightarrow> bool" where
  "decided base l s \<longleftrightarrow> shutting base FromRun StopLidar 0 s \<or>
     shutting base FromRun StopLidar 1 s \<and> sensor_line l \<in> set (o_console (a_out (fst s)))"

lemma lost_decides:
  assumes "departs cap MainGoes s s'" "0 < cap" "lost base l s"
  shows "decided base l s'"
proof -
  obtain a os a' os' where s: "s = (a, os)" "s' = (a', os')" by (cases s; cases s')
  have "a_phase a = Supervising" using assms(3) by (simp add: lost_def within_def s)
  then obtain mi where "main_step cap mi Supervising a os = Goes a' os'" using assms(1) unfolding s departs.simps by metis
  moreover have "a_lidar a = Some l" "\<not> l_running l" using assms(3) by (simp_all add: lost_def s)
  ultimately have "a_phase a' = Shutting FromRun StopLidar 0 \<or>
      a_phase a' = Shutting FromRun StopLidar 1 \<and> sensor_line l \<in> set (o_console (a_out a'))"
    by (auto simp: supervise_round_def exit_codes split: option.splits prod.splits if_splits)
  moreover have "node_ok base s'"
    using node_step_ok [OF departs_step [OF assms(1)] assms(2)] assms(3) by (simp add: lost_def within_def)
  ultimately show ?thesis by (auto simp: decided_def shutting_def s)
qed

lemma lost_stays:
  assumes "node_step cap s s'" "0 < cap" "lost base l s"
  shows "departs cap MainGoes s s' \<or> lost base l s'"
proof -
  have "\<not> lidar_runs (fst s)"
    using assms(3) by (cases s) (auto simp: lost_def within_def lidar_runs_def node_ok_def lidar_ok_def)
  then show ?thesis using within_step [OF assms(1,2)] assms(3) by (auto simp: lost_def)
qed

lemma lost_leads:
  assumes "fair_run (node_step cap) (departs cap) run" "0 < cap" "lost base l (run i)"
  shows "\<exists>j \<ge> i. decided base l (run j)"
proof (rule leaving.leads_to [OF assms(1), of "lost base l" _ MainGoes])
  fix s s' assume "lost base l s" "node_step cap s s'"
  then show "lost base l s' \<or> decided base l s'" using lost_stays lost_decides assms(2) by blast
next
  fix s assume "lost base l s"
  then show "possible (departs cap) MainGoes s" using main_goes by (cases s) (auto simp: lost_def within_def)
next
  fix s s' assume "lost base l s" "departs cap MainGoes s s'"
  then show "decided base l s'" using lost_decides assms(2) by blast
qed (rule assms(3))

text \<open>What is on the console stays there.\<close>

lemma console_grows:
  assumes "node_step cap s s'"
  shows "set (o_console (a_out (fst s))) \<subseteq> set (o_console (a_out (fst s')))"
  using assms
proof cases
  case (main_steps mi a os a' os')
  have "set (o_console (a_out a)) \<subseteq> set (o_console (a_out a'))"
  proof (cases "a_phase a")
    case (Shutting c st code)
    then show ?thesis using main_steps(3) release_console
      by (cases st) (fastforce simp: Let_def split: if_splits prod.splits)+
  qed (use main_steps(3) in \<open>auto simp: startCanBus_def startTcpServer_def startLidar_def supervise_round_def reportHealth_def
      Let_def split: prod.splits option.splits if_splits\<close>)
  then show ?thesis using main_steps(1,2) by simp
next
  case (acquires a l it go_on f l' frames k os out os')
  then show ?thesis using callbacks_console [OF acquires(8)] by auto
qed simp_all

lemma consoles_grow: "(node_step cap)\<^sup>*\<^sup>* s s' \<Longrightarrow> set (o_console (a_out (fst s))) \<subseteq> set (o_console (a_out (fst s')))"
  by (induction rule: rtranclp_induct) (use console_grows in blast)+

lemma lidar_running: "within base ps s \<Longrightarrow> a_lidar (fst s) = Some l \<Longrightarrow> l_running l \<longleftrightarrow> l_worker l = Running"
  by (cases s) (auto simp: within_def node_ok_def lidar_ok_def)

lemma lost_if_not_running:
  assumes "within base {Supervising} s" "\<not> lidar_runs (fst s)"
  shows "\<exists>l. lost base l s"
proof -
  obtain l where "a_lidar (fst s) = Some l" using assms(1) by (cases s) (auto simp: within_def node_ok_def)
  then show ?thesis using assms lidar_running by (auto simp: lost_def lidar_runs_def)
qed

lemma running_if_runs:
  assumes "within base ps s" "lidar_runs (fst s)"
  shows "\<exists>l. a_lidar (fst s) = Some l \<and> lidar_isRunning l"
  using assms(2) lidar_running [OF assms(1)] by (auto simp: lidar_runs_def)

text \<open>Two places that a run does not leave: the end, and the supervision as long as no shutdown begins.\<close>

lemma stays_exited:
  assumes "fair_run (node_step cap) (departs cap) run" "\<And>i. node_ok base (run i)" "a_phase (fst (run k)) = Exited code" "k \<le> j"
  shows "run j = run k"
  using assms(4)
proof (induction j rule: dec_induct)
  case (step j)
  then have "\<not> node_step cap (run j) (run (Suc j))" using exited_quiet(1) assms(2,3) by metis
  then show ?case using assms(1) step.IH unfolding fair_run_def by metis
qed simp

lemma supervision_goes:
  assumes "departs cap MainGoes s s'" "0 < cap" "within base {Supervising} s"
  shows "within base (insert Supervising shutting_phases) s'"
proof -
  obtain a os a' os' where s: "s = (a, os)" "s' = (a', os')" by (cases s; cases s')
  have "a_phase a = Supervising" using assms(3) by (simp add: within_def s)
  then obtain mi where "main_step cap mi Supervising a os = Goes a' os'" using assms(1) unfolding s departs.simps by metis
  then have "a_phase a' \<in> insert Supervising shutting_phases"
    using \<open>a_phase a = Supervising\<close>
    by (auto simp: supervise_round_def reportHealth_def shutting_phases_def Let_def split: option.splits prod.splits if_splits)
  then show ?thesis
    using node_step_ok [OF departs_step [OF assms(1)] assms(2)] waiter_step [OF departs_step [OF assms(1)]] assms(3)
    by (simp add: within_def s)
qed

lemma within_more: "within base {p} s \<Longrightarrow> within base (insert p ps) s"
  by (simp add: within_def)

lemma supervision_step:
  assumes "node_step cap s s'" "0 < cap" "within base {Supervising} s"
  shows "within base (insert Supervising shutting_phases) s'"
proof -
  have "within base {Supervising} s' \<Longrightarrow> within base (insert Supervising shutting_phases) s'" by (rule within_more)
  then show ?thesis using within_step [OF assms] supervision_goes [OF _ assms(2,3)] by blast
qed

lemma stays_supervising:
  assumes "fair_run (node_step cap) (departs cap) run" "0 < cap" "within base {Supervising} (run i)" "i \<le> j"
    and "\<nexists>j c st code. shutting base c st code (run j)"
  shows "within base {Supervising} (run j)"
  using assms(4)
proof (induction j rule: dec_induct)
  case (step j)
  have "node_step cap (run j) (run (Suc j)) \<or> run (Suc j) = run j" using assms(1) unfolding fair_run_def by blast
  then have "within base (insert Supervising shutting_phases) (run (Suc j))"
    using supervision_step [OF _ assms(2) step.IH] within_more [OF step.IH] by metis
  then show ?case using assms(5) by (auto simp: within_def shutting_phases_def shutting_def)
qed (rule assms(3))

section \<open>A sensor that dies\<close>

text \<open>
  The example: without CAN and without automatic reconnection. Five failed readings in a row, and the
  acquisition thread leaves.
\<close>

definition one_chance :: options where
  "one_chance = default_options\<lparr>o_no_can := True, o_lidar := default_lidar_config\<lparr>auto_reconnect := False\<rparr>\<rparr>"

lemma one_chance_start: "node_start {0, 1, 2} (Application one_chance, sample_os)"
  by (auto simp: node_start_def sample_os_def)

definition one_chance_runs :: "u32 \<Rightarrow> application \<Rightarrow> bool" where
  "one_chance_runs failures a \<longleftrightarrow> a_phase a = Supervising \<and> a_failures a = failures \<and> (\<exists>l. a_lidar a = Some l \<and>
     l_worker l = Running \<and> \<not> l_stop_requested l \<and> \<not> auto_reconnect (l_config l))"

lemma one_chance_fails:
  assumes "one_chance_runs f a"
  shows "\<exists>a'. tested_step 1 (a, os) (a', os) \<and>
    (if f + 1 < kMaxConsecutiveGrabFailures then one_chance_runs (f + 1) a'
     else a_phase a' = Supervising \<and> (\<exists>l. a_lidar a' = Some l \<and> \<not> lidar_isRunning l))"
proof -
  obtain l where l: "a_lidar a = Some l" "l_worker l = Running" "\<not> l_stop_requested l" "\<not> auto_reconnect (l_config l)"
    and a: "a_phase a = Supervising" "a_failures a = f" using assms by (auto simp: one_chance_runs_def)
  have it: "grab_fails (it_grab silent_iteration) (l_device l)" "\<not> it_stop silent_iteration"
    by (simp_all add: silent_iteration_def grab_fails_def working_sdk_def)
  obtain ok l1 c1 where acq: "acquireOnce record_frame (it_grab silent_iteration) (it_now silent_iteration) l [] = (ok, l1, c1)"
    by (metis prod_cases3)
  note fails = acquire_fails [OF it(1) acq]
  let ?body = "lidar_run_body record_frame silent_iteration f l []"
  let ?l = "count_read_error (l1\<lparr>l_stop_requested := l_stop_requested l1 \<or> it_stop silent_iteration\<rparr>)"
  have body: "?body = (if f + 1 < kMaxConsecutiveGrabFailures then (True, f + 1, ?l, [])
      else (False, 0, ?l\<lparr>l_device := dev_close (l_device l1)\<rparr>, []))"
    using run_body_cases(2,3) [OF acq, of f] fails l(4) by simp
  let ?l' = "if f + 1 < kMaxConsecutiveGrabFailures then ?l else lidar_run_exit (?l\<lparr>l_device := dev_close (l_device l1)\<rparr>)"
  let ?a = "a\<lparr>a_lidar := Some ?l', a_failures := if f + 1 < kMaxConsecutiveGrabFailures then f + 1 else 0\<rparr>"
  have "tested_step 1 (a, os) (?a, os)"
    using p_acquires [OF l(1-3), where p = BeforeTest and p' = BeforeTest and it = silent_iteration and cap = 1 and frames = "[]" and out = "a_out a" and os = os and os' = os
        and go_on = "fst ?body" and f = "fst (snd ?body)" and l' = "fst (snd (snd ?body))"]
      it(2) body a(2) no_frame [where s = "(a_out a, os)"]
    by (cases "f + 1 < kMaxConsecutiveGrabFailures") (simp_all add: tested_step_def)
  moreover have "if f + 1 < kMaxConsecutiveGrabFailures then one_chance_runs (f + 1) ?a
     else a_phase ?a = Supervising \<and> (\<exists>l. a_lidar ?a = Some l \<and> \<not> lidar_isRunning l)"
    using l fails a it(2) by (simp add: one_chance_runs_def lidar_run_exit_def)
  ultimately show ?thesis by blast
qed

lemma one_chance_supervises: "\<exists>a os. (tested_step 1)\<^sup>*\<^sup>* (Application one_chance, sample_os) (a, os) \<and> one_chance_runs 0 a"
proof -
  let ?opts = "o_lidar one_chance"
  obtain ok l where l: "lidar_start (working_sdk wall_ahead) None True (Lidar ?opts) = Some (ok, l)"
    using lidar_never_terminates by fastforce
  have started: "ok" "l_worker l = Running" "\<not> l_stop_requested l" "\<not> auto_reconnect (l_config l)"
    using l by (auto simp: one_chance_def lidar_start_def Lidar_def openDevice_def dev_open_def dev_close_def working_sdk_def
        RpLidarDevice_def joinable_def dev_isOpen_def Let_def)
  let ?a1 = "at AtCan ((Application one_chance)\<lparr>a_waiter := fst (SignalWaiter True {}), a_blocked := snd (SignalWaiter True {})\<rparr>)"
  let ?a2 = "at AtTcp (say viewer_only_line ?a1)"
  let ?t2 = "set_tcp sample_server ?a2"
  let ?a3 = "at AtLidar (say (tcp_line True ?t2) ?t2)"
  let ?a4 = "at Supervising (say (lidar_line True l ?a3) (?a3\<lparr>a_lidar := Some l, a_failures := 0\<rparr>))"
  have 1: "tested_step 1 (Application one_chance, sample_os) (?a1, sample_os)"
    by (rule sample_main)
      (simp_all add: Application_def sample_wait_def fresh_main_def SignalWaiter_def sw_valid_def Let_def)
  have 2: "tested_step 1 (?a1, sample_os) (?a2, sample_os)"
    by (rule sample_main)
      (simp_all add: Application_def sample_wait_def fresh_main_def startCanBus_def one_chance_def fresh_fd_def sample_os_def)
  have 3: "tested_step 1 (?a2, sample_os) (?a3, sample_server_os)"
    using sample_started sample_fresh
    by (intro sample_main)
      (simp_all add: Application_def sample_wait_def fresh_main_def startTcpServer_def one_chance_def default_options_def Let_def)
  have 4: "tested_step 1 (?a3, sample_server_os) (?a4, sample_server_os)"
    by (rule sample_main)
      (use l started(1) in \<open>simp_all add: Application_def sample_wait_def fresh_main_def startLidar_def one_chance_def\<close>)
  have "one_chance_runs 0 ?a4" using started by (simp add: one_chance_runs_def)
  moreover note cons = converse_rtranclp_into_rtranclp [where r = "tested_step 1"]
  have "(tested_step 1)\<^sup>*\<^sup>* (Application one_chance, sample_os) (?a4, sample_server_os)"
    by (rule cons [OF 1 cons [OF 2 cons [OF 3 r_into_rtranclp [where r = "tested_step 1", OF 4]]]])
  ultimately show ?thesis by blast
qed

lemma one_chance_lost:
  "\<exists>a os l. (tested_step 1)\<^sup>*\<^sup>* (Application one_chance, sample_os) (a, os) \<and> a_phase a = Supervising \<and>
     a_lidar a = Some l \<and> \<not> lidar_isRunning l"
proof -
  let ?reach = "\<lambda>a os. (tested_step 1)\<^sup>*\<^sup>* (Application one_chance, sample_os) (a, os)"
  have on: "\<exists>a os. ?reach a os \<and> one_chance_runs (f + 1) a"
    if "\<exists>a os. ?reach a os \<and> one_chance_runs f a" "f + 1 < kMaxConsecutiveGrabFailures" for f
    using that one_chance_fails rtranclp.rtrancl_into_rtrancl [where r = "tested_step 1"] by metis
  have "\<exists>a os. ?reach a os \<and> one_chance_runs 4 a"
    using on [OF on [OF on [OF on [OF one_chance_supervises]]]] by (simp add: kMaxConsecutiveGrabFailures_def)
  then obtain a os where a: "?reach a os" "one_chance_runs 4 a" by blast
  obtain a' l where "tested_step 1 (a, os) (a', os)" "a_phase a' = Supervising" "a_lidar a' = Some l" "\<not> lidar_isRunning l"
    using one_chance_fails [OF a(2), of os] by (auto simp: kMaxConsecutiveGrabFailures_def)
  with a(1) show ?thesis by (meson rtranclp.rtrancl_into_rtrancl)
qed

text \<open>From there the main thread notices, and the rest follows.\<close>

lemma one_chance_exits:
  assumes "(tested_step 1)\<^sup>*\<^sup>* (Application one_chance, sample_os) (a, os)" "a_phase a = Supervising"
    "a_lidar a = Some l" "\<not> lidar_isRunning l"
  shows "\<exists>s. (tested_step 1)\<^sup>*\<^sup>* (a, os) s \<and> a_phase (fst s) = Exited 1"
proof -
  let ?a = "at (Shutting FromRun StopLidar 1) (say (sensor_line l) a)"
  have "main_step 1 failing_answers (a_phase a) a os = Goes ?a os"
    using assms(2-4) by (simp add: failing_answers_def waitFor_def supervise_round_def exit_codes)
  from tested_main [OF this failing_fresh] have step: "tested_step 1 (a, os) (?a, os)" .
  note reach = tested_node [OF rtranclp.rtrancl_into_rtrancl [where r = "tested_step 1", OF assms(1) step]]
  obtain a' os' where "(tested_step 1)\<^sup>*\<^sup>* (?a, os) (a', os')" "a_phase a' = Exited 1"
    using shutdown_tested [OF one_chance_start _ reach] by auto
  with converse_rtranclp_into_rtranclp [where r = "tested_step 1", OF step] show ?thesis by (intro exI [of _ "(a', os')"]) simp
qed

section \<open>The end of every fair run\<close>

lemma fair_node_settles:
  assumes "node_start base s" "0 < cap" "fair_run (node_step cap) (departs cap) run" "run 0 = s"
  shows "\<exists>i. (\<exists>code \<in> {0, 1}. \<forall>j \<ge> i. a_phase (fst (run j)) = Exited code \<and> open_fds (snd (run j)) = base) \<or>
    (\<forall>j \<ge> i. a_phase (fst (run j)) = Supervising \<and> (\<exists>l. a_lidar (fst (run j)) = Some l \<and> lidar_isRunning l))"
proof -
  have "(node_step cap)\<^sup>*\<^sup>* s (run 0)" using assms(4) by simp
  note ok = fair_run_ok [OF assms(1,2) this assms(3)]
  have start: "within base {AtSignals} (run 0)"
    using assms(1,4) ok(2) [of 0] reachable_waiter_ok [OF assms(1) ok(1), of 0] by (auto simp: within_def node_start_def Application_def)
  then obtain i where i: "within base (insert Supervising shutting_phases) (run i)"
    using start_ends [OF assms(3,2) start] by (auto simp: starting_def)
  show ?thesis
  proof (cases "\<exists>j c st code. shutting base c st code (run j)")
    case True
    then obtain j c st code where j: "shutting base c st code (run j)" by blast
    obtain k where k: "gone base code (run k)" using shutdown_exits [OF assms(3,2) j] by blast
    have at_k: "a_phase (fst (run k)) = Exited code" "open_fds (snd (run k)) = base" using k by (simp_all add: gone_def)
    have "node_ok base (run k)" by (rule ok(2))
    then have "code \<in> {0, 1}" using at_k(1) by (cases "run k") (simp add: node_ok_def)
    moreover have "a_phase (fst (run j)) = Exited code \<and> open_fds (snd (run j)) = base" if "k \<le> j" for j
      using stays_exited [OF assms(3) ok(2) at_k(1) that] at_k by metis
    ultimately show ?thesis by blast
  next
    case False
    have "a_phase (fst (run i)) \<notin> shutting_phases" using False ok(2) [of i] by (auto simp: shutting_phases_def shutting_def)
    with i have "within base {Supervising} (run i)" by (simp add: within_def)
    note super = stays_supervising [OF assms(3,2) this _ False]
    have "lidar_runs (fst (run j))" if j: "i \<le> j" for j
    proof (rule ccontr)
      assume dead: "\<not> lidar_runs (fst (run j))"
      then obtain l where "lost base l (run j)" using super [OF j] lost_if_not_running by blast
      then obtain k where "decided base l (run k)" using lost_leads [OF assms(3,2)] by blast
      with False show False by (auto simp: decided_def)
    qed
    then have "a_phase (fst (run j)) = Supervising \<and> (\<exists>l. a_lidar (fst (run j)) = Some l \<and> lidar_isRunning l)" if "i \<le> j" for j
      using super [OF that] running_if_runs [OF super [OF that]] that by (simp add: within_def)
    then show ?thesis by blast
  qed
qed

section \<open>Properties\<close>

text \<open>
  C7: A lost sensor ends the node. Once the acquisition thread has left by itself, in every fair run the
  process exits with everything closed: with code 1 and, as the only line on standard error, the reason the
  lidar gave; or with code 0 and a silent standard error, if a termination signal comes before the main
  thread looks. It never goes on without a sensor.
\<close>
theorem sensor_loss_ends:
  assumes "node_start base s" "0 < cap" "(node_step cap)\<^sup>*\<^sup>* s (run 0)" "fair_run (node_step cap) (departs cap) run"
    and "a_phase (fst (run i)) = Supervising" "a_lidar (fst (run i)) = Some l" "\<not> lidar_isRunning l"
  shows "\<exists>j \<ge> i. open_fds (snd (run j)) = base \<and>
    (a_phase (fst (run j)) = Exited 1 \<and> errors (fst (run j)) = [sensor_line l] \<or>
     a_phase (fst (run j)) = Exited 0 \<and> errors (fst (run j)) = [] \<and> signalled (fst (run j)))"
proof -
  note ok = fair_run_ok [OF assms(1-4)]
  have "lost base l (run i)" using ok(2) reachable_waiter_ok [OF assms(1) ok(1)] assms(5-7) by (simp add: lost_def within_def)
  then obtain j where j: "i \<le> j" "decided base l (run j)" using lost_leads [OF assms(4,2)] by blast
  then obtain code where code: "shutting base FromRun StopLidar code (run j)"
    "code = 0 \<or> code = 1 \<and> sensor_line l \<in> set (o_console (a_out (fst (run j))))" by (auto simp: decided_def)
  obtain k where k: "j \<le> k" "gone base code (run k)" using shutdown_exits [OF assms(4,2) code(1)] by blast
  have acc: "accounted_for (fst (run k))" using reachable_accounted [OF assms(1,2) ok(1)] by blast
  have "code = 1 \<Longrightarrow> sensor_line l \<in> set (errors (fst (run k)))"
    using code(2) consoles_grow [OF leaving.run_steps [OF assms(4) k(1)]] by (auto simp: errors_def)
  then show ?thesis using k j(1) code(2) acc
    by (intro exI [of _ k]) (auto simp: gone_def accounted_for_def)
qed

theorem sensor_loss_ends_witness:
  "\<exists>run l j. fair_run (node_step 1) (departs 1) run \<and> (node_step 1)\<^sup>*\<^sup>* (Application one_chance, sample_os) (run 0) \<and>
     a_phase (fst (run 0)) = Supervising \<and> a_lidar (fst (run 0)) = Some l \<and> \<not> lidar_isRunning l \<and>
     open_fds (snd (run j)) = {0, 1, 2} \<and> (a_phase (fst (run j)) = Exited 1 \<or> signalled (fst (run j)))"
proof -
  obtain a os l where a: "(tested_step 1)\<^sup>*\<^sup>* (Application one_chance, sample_os) (a, os)" "a_phase a = Supervising"
    "a_lidar a = Some l" "\<not> lidar_isRunning l" using one_chance_lost by blast
  note reach = tested_node [OF a(1)]
  obtain s where s: "(node_step 1)\<^sup>*\<^sup>* (a, os) s" "a_phase (fst s) = Exited 1" using one_chance_exits [OF a] tested_node by blast
  have "node_ok {0, 1, 2} s" by (rule reachable_node_ok [OF one_chance_start _ rtranclp_trans [OF reach s(1)]]) simp
  from leaving.finite_fair_run [OF s(1) exited_quiet(2) [OF this s(2)]] obtain run where
    run: "fair_run (node_step 1) (departs 1) run" "run 0 = (a, os)" by blast
  from sensor_loss_ends [OF one_chance_start _ _ run(1), of 0 l] a(2-4) reach run show ?thesis by fastforce
qed

text \<open>
  C5: Where the node ends up. In every run from its start, whatever the sensor, the bus, the viewers and the
  operating system answer, one of two things holds in the end: the process has exited with code 0 or 1 and
  everything closed, and stays so; or it supervises for ever, and at every moment from some point on the
  sensor's thread runs. So it ends neither in start-up, nor in a shutdown, nor supervising a dead sensor.
  This takes a schedule that holds nobody back for ever who can go on: calls that can return do so, a
  viewer pauses at some time (one that does not can hold up the shutdown), and a thread that has been told
  to stop gets to the test of its loop, except that the I/O thread gets out of \<open>poll\<close> only if something has
  been written to its wake pipe.
\<close>
theorem node_settles:
  assumes "polled_start base s" "0 < cap" "fair_run (polled_step cap) (goes cap) run" "run 0 = s"
  shows "\<exists>i. (\<exists>code \<in> {0, 1}. \<forall>j \<ge> i. a_phase (fst (snd (run j))) = Exited code \<and> open_fds (snd (snd (run j))) = base) \<or>
    (\<forall>j \<ge> i. a_phase (fst (snd (run j))) = Supervising \<and> (\<exists>l. a_lidar (fst (snd (run j))) = Some l \<and> lidar_isRunning l))"
proof -
  have "(polled_step cap)\<^sup>*\<^sup>* s (run 0)" "node_start base (forget run 0)" using assms(1,4) by (simp_all add: polled_start_def forget_def)
  with fair_node_settles [OF _ assms(2) polled_fair [OF assms(1,2) _ assms(3)]] show ?thesis by (simp add: forget_def)
qed

text \<open>The node whose sensor dies.\<close>

theorem node_settles_witness:
  "\<exists>run i code. fair_run (polled_step 1) (goes 1) run \<and> run 0 = (BeforeTest, Application one_chance, sample_os) \<and>
     (\<forall>j \<ge> i. a_phase (fst (snd (run j))) = Exited code \<and> open_fds (snd (snd (run j))) = {0, 1, 2})"
proof -
  have start: "polled_start {0, 1, 2} (BeforeTest, Application one_chance, sample_os)"
    using one_chance_start by (simp add: polled_start_def)
  obtain a os l where a: "(tested_step 1)\<^sup>*\<^sup>* (Application one_chance, sample_os) (a, os)" "a_phase a = Supervising"
    "a_lidar a = Some l" "\<not> lidar_isRunning l" using one_chance_lost by blast
  obtain s where s: "(tested_step 1)\<^sup>*\<^sup>* (a, os) s" "a_phase (fst s) = Exited 1" using one_chance_exits [OF a] by blast
  note path = tested_polled [OF rtranclp_trans [OF a(1) s(1)]]
  have ok: "polled_ok {0, 1, 2} (BeforeTest, s)" by (rule reachable_polled_ok [OF start _ path]) simp
  have "a_phase (fst (snd (BeforeTest, s))) = Exited 1" using s(2) by simp
  from polled_fair_run [OF path ok this] obtain run n where run: "fair_run (polled_step 1) (goes 1) run"
    "run 0 = (BeforeTest, Application one_chance, sample_os)" "\<forall>j \<ge> n. run j = (BeforeTest, s)" by blast
  have "a_phase (fst (snd (run (max i n)))) \<noteq> Supervising" for i using run(3) s(2) by simp
  then have "\<not> (\<forall>j \<ge> i. a_phase (fst (snd (run j))) = Supervising)" for i by (meson max.cobounded1)
  with node_settles [OF start _ run(1,2)] have "\<exists>i. \<exists>code \<in> {0, 1}. \<forall>j \<ge> i. a_phase (fst (snd (run j))) = Exited code \<and>
      open_fds (snd (snd (run j))) = {0, 1, 2}" by (metis zero_less_one)
  with run(1,2) show ?thesis by blast
qed

end
