(* ===== verification/NodeConfiguration.thy ===== *)
theory NodeConfiguration
  imports NodeProperties
begin

text \<open>
  From the command line to the brake: what the options a user gives do to everything the node will ever
  put on the CAN bus.
\<close>

lemma raw_numeric: "raw_frame f \<Longrightarrow> p \<in> set (points f) \<Longrightarrow> \<not> f32_is_nan (angle_deg p)"
  using toDegrees_exact(1) by (auto simp: raw_frame_def collect_points_eq to_point_def f32_finite_iff)

lemma brake_frame_command: "brake_frame cfg f = Some g \<Longrightarrow> \<exists>r. process cfg f = Some r \<and> g = brake_command (any_obstacle r)"
  by (auto simp: brake_frame_def brake_command_def)

lemma sent_commands:
  assumes "g \<in> set (sent_for options frames)"
  shows "\<not> o_no_can options \<and> (\<exists>f \<in> set frames. \<exists>r. process (o_perception options) f = Some r \<and> g = brake_command (any_obstacle r))"
proof -
  have "\<not> o_no_can options" using assms by (auto simp: sent_for_def)
  then have "g \<in> (\<lambda>f. the (brake_frame (o_perception options) f)) `
      set (takeWhile (\<lambda>f. brake_frame (o_perception options) f \<noteq> None) frames)"
    using assms by (simp add: sent_for_def)
  then obtain f where f: "f \<in> set (takeWhile (\<lambda>f. brake_frame (o_perception options) f \<noteq> None) frames)"
    "g = the (brake_frame (o_perception options) f)" by blast
  from set_takeWhileD [OF f(1)] f(2) have "f \<in> set frames" "brake_frame (o_perception options) f = Some g" by auto
  with \<open>\<not> o_no_can options\<close> brake_frame_command show ?thesis by blast
qed

lemma reachable_outlets:
  assumes "node_start base s" "0 < cap" "(node_step cap)\<^sup>*\<^sup>* s (a, os)"
  shows "a_options a = a_options (fst s) \<and> (\<exists>frames. outlets_ok (a_options a) frames (a_out a))"
proof -
  obtain st where "node_sensed base (a, os) st" using reachable_sensed [OF assms] by blast
  then have "\<exists>frames. outlets_ok (a_options a) frames (a_out a)" by (cases st) (auto simp: node_sensed_def sensed_def)
  moreover have "a_options (fst (a, os)) = a_options (fst s)"
    using assms(3) by (induction rule: rtranclp_induct) (auto dest: step_options)
  ultimately show ?thesis by simp
qed

lemma no_can_step:
  assumes "node_step cap s s'" "o_no_can (a_options (fst s)) \<longrightarrow> \<not> isOpen (a_can (fst s))"
  shows "o_no_can (a_options (fst s')) \<longrightarrow> \<not> isOpen (a_can (fst s'))"
proof -
  have same: "a_options (fst s') = a_options (fst s)" by (rule step_options [OF assms(1)])
  have "isOpen (a_can (fst s')) \<longrightarrow> isOpen (a_can (fst s)) \<or> \<not> o_no_can (a_options (fst s))"
    using assms(1)
  proof (induction rule: node_step.induct)
    case (main_steps mi a os a' os')
    show ?case
    proof (cases "a_phase a")
      case (Shutting c st code)
      then show ?thesis using main_steps(1)
        by (cases st) (auto simp: stop_lidar_def release_lidar_def stop_tcp_def release_tcp_and_can_def can_close_def isOpen_def
            Let_def split: if_splits prod.splits option.splits)
    qed (use main_steps(1) in \<open>auto simp: startCanBus_def startTcpServer_def startLidar_def supervise_round_def
        reportHealth_def Let_def split: if_splits prod.splits option.splits\<close>)
  qed simp_all
  with same assms(2) show ?thesis by auto
qed

lemma reachable_no_can:
  assumes "node_start base s" "(node_step cap)\<^sup>*\<^sup>* s s'"
  shows "o_no_can (a_options (fst s')) \<longrightarrow> \<not> isOpen (a_can (fst s'))"
  using assms(2)
proof (induction rule: rtranclp_induct)
  case base
  then show ?case using assms(1) by (auto simp: node_start_def Application_def CanBus_def isOpen_def)
next
  case (step y z)
  show ?case by (rule no_can_step [OF step.hyps(2) step.IH])
qed

text \<open>
  C12: Only two frames ever reach the CAN bus. Whatever the options, the sensor, the viewers and the
  schedule, everything the node hands to the socket is the engage or the disengage command, of
  identifier 0x080 and one byte; with \<open>--no-can\<close> it hands over nothing and never owns a socket.
\<close>
theorem commands_well_formed:
  assumes "node_start base s" "0 < cap" "(node_step cap)\<^sup>*\<^sup>* s (a, os)"
  shows "set (o_can_sent (a_out a)) \<subseteq> {brake_command True, brake_command False} \<and>
    (o_no_can (a_options a) \<longrightarrow> o_can_sent (a_out a) = [] \<and> \<not> isOpen (a_can a))"
proof -
  obtain frames where out: "outlets_ok (a_options a) frames (a_out a)" using reachable_outlets [OF assms] by blast
  then have sent: "o_can_sent (a_out a) = sent_for (a_options a) frames" by (simp add: outlets_ok_def)
  have "g \<in> {brake_command True, brake_command False}" if "g \<in> set (o_can_sent (a_out a))" for g
    using sent_commands [OF that [unfolded sent]] by (metis insertCI)
  moreover have "o_can_sent (a_out a) = [] \<and> \<not> isOpen (a_can a)" if "o_no_can (a_options a)"
    using out that reachable_no_can [OF assms(1,3)] by (simp add: outlets_ok_def sent_for_def)
  ultimately show ?thesis by blast
qed

theorem commands_well_formed_witness:
  "set (o_can_sent (a_out sample_leaving)) \<subseteq> {brake_command True, brake_command False}"
  using commands_well_formed [OF sample_start _ sample_leaving_reached] by simp

text \<open>
  C11: A field of view given the wrong way round disarms the node. For every command line \<open>main\<close> accepts
  that leaves \<open>--max-angle\<close> below \<open>--min-angle\<close>, no schedule and no sensor data make the node send
  anything but the disengage command, nor lead to undefined behaviour.
\<close>
theorem swapped_view_never_brakes:
  assumes "main bits argv = Inr a0"
    and "max_angle_deg (o_perception (a_options a0)) < min_angle_deg (o_perception (a_options a0))"
    and "node_start base (a0, os0)" "0 < cap" "(node_step cap)\<^sup>*\<^sup>* (a0, os0) (a, os)"
  shows "set (o_can_sent (a_out a)) \<subseteq> {brake_command False} \<and> \<not> o_undefined (a_out a)"
proof -
  have opts: "a_options a = a_options a0" using reachable_outlets [OF assms(3-5)] by simp
  obtain frames where out: "outlets_ok (a_options a) frames (a_out a)" using reachable_outlets [OF assms(3-5)] by blast
  have clear: "\<exists>r. process (o_perception (a_options a)) f = Some r \<and> \<not> any_obstacle r" if "f \<in> set frames" for f
  proof -
    have "\<forall>p \<in> set (points f). \<not> f32_is_nan (angle_deg p)"
      using out that raw_numeric by (auto simp: outlets_ok_def)
    from swapped_blind [OF assms(2) this] show ?thesis
      by (auto simp: opts any_obstacle_def sectors_def default_sector_def numeral_eq_Suc)
  qed
  have "g = brake_command False" if "g \<in> set (o_can_sent (a_out a))" for g
    using sent_commands [of g "a_options a" frames] out clear that by (fastforce simp: outlets_ok_def)
  moreover have "\<not> o_undefined (a_out a)"
    using out clear by (fastforce simp: outlets_ok_def brake_frame_def)
  ultimately show ?thesis by blast
qed

definition swapped_argv :: "string list" where
  "swapped_argv = [''aeb_node'', ''--min-angle'', ''45'', ''--max-angle'', ''-45'']"

definition swapped_options :: options where
  "swapped_options = default_options\<lparr>o_perception := default_perception_config
     \<lparr>min_angle_deg := f32_round False (45 * f32_unit) 1, max_angle_deg := f32_round True (45 * f32_unit) 1\<rparr>\<rparr>"

lemma swapped_main: "main 64 swapped_argv = Inr (Application swapped_options)"
proof -
  note text_defs = stof_def strtof_unsigned_def mantissa_def is_digit_def is_space_def starts_with_def lower_def
    exponent_def decimal_def digit_value_def
  have "stof ''45'' = Some (f32_round False (45 * f32_unit) 1)" "stof ''-45'' = Some (f32_round True (45 * f32_unit) 1)"
    using scaled_whole(1) [of 45] by (simp_all add: text_defs del: mult_numeral_1)
  then show ?thesis
    by (simp add: main_def parse_def swapped_argv_def applyFlag_def applyValued_def float_option_def swapped_options_def
        default_options_def)
qed

theorem swapped_view_never_brakes_witness:
  "main 64 swapped_argv = Inr (Application swapped_options) \<and>
   {g. \<exists>a os. (node_step 1)\<^sup>*\<^sup>* (Application swapped_options, sample_os) (a, os) \<and> g \<in> set (o_can_sent (a_out a))}
     \<subseteq> {brake_command False}"
proof -
  have n: "(45 :: nat) \<le> 2 ^ 24" by simp
  note x = scaled_whole(2,3) [OF n, of True] and y = scaled_whole(2,3) [OF n, of False]
  have "f32_round True (45 * f32_unit) 1 < f32_round False (45 * f32_unit) 1"
    using x y by (simp add: f32_less_iff f32_finite_iff)
  then have v: "max_angle_deg (o_perception (a_options (Application swapped_options))) <
      min_angle_deg (o_perception (a_options (Application swapped_options)))"
    by (simp add: Application_def swapped_options_def)
  have start: "node_start {0, 1, 2} (Application swapped_options, sample_os)"
    by (auto simp: node_start_def sample_os_def)
  show ?thesis using swapped_view_never_brakes [OF swapped_main v start, of 1] swapped_main by auto
qed

end
