(* ===== verification/Spec2Isabelle.thy ===== *)
theory Spec2Isabelle
  imports Protocol FrameQueue Perception SensorGeometry Lidar BackOff CanBus FileDescriptor WakePipe CommandLine Usage
    ServerProperties HandoverProperties NodeAccounting NodeViewer NodeWakeup NodeConsole NodeLiveness NodeConfiguration
begin

text \<open>
  Verification of the AEB sensing node, the C++ program under \<open>src/aeb_node\<close>: a process that reads
  revolutions from a rotating laser scanner, decides for each whether something stands in the way, tells
  the brake over a CAN bus, and streams the revolutions to one viewer over TCP. Paths below are relative
  to \<open>src/aeb_node\<close>.

  \<^bold>\<open>Parts and how they interact.\<close> \<open>app/main.cpp\<close> parses the command line and runs an \<open>Application\<close>, which
  owns the CAN socket, the streaming server, the lidar and the detector. Three threads run: the main
  thread (start-up, waiting for signals, health report, shutdown), the acquisition thread of \<open>Lidar\<close>
  (reading the sensor, recovering from failures, calling the frame callback), and the I/O thread of
  \<open>TcpServer\<close> (a \<open>poll\<close> loop over a wake pipe, the listening socket and the client). The callback, on the
  acquisition thread, publishes the frame to the server, runs the detector and sends one CAN frame. The
  threads meet in the frame queue, in the wake pipe and in the flags and counters of the objects.

  \<^bold>\<open>Theories.\<close> Every function of the code is a definition of the same name where Isabelle allows it;
  every class is a record with its fields; a result that may be undefined, or a call of \<open>std::terminate\<close>,
  is \<^const>\<open>None\<close>; integers have the width of the code, \<open>long\<close> that of the target, a parameter; \<open>float\<close> is binary32, computed bit by bit.

  \<^item> \<open>Prelude\<close>: machine integers, the state of a thread handle, and the interfaces all state machines are
    verified against, the locales \<open>inductive_invariant\<close> and \<open>simulation\<close>, and \<open>actions\<close> for fair runs. \<open>Float32\<close>: binary32.
    \<open>Posix\<close>: system calls as answers, and the table of open descriptors with a flag for a bad \<open>close\<close>.
  \<^item> \<open>DomainTypes\<close> (\<open>common/Types.hpp\<close>) and \<open>Protocol\<close> (\<open>common/Protocol.hpp\<close>): encoder, decoder with its
    reassembly buffer, resynchronisation. Round trip through any chunking, memory safety, refusals,
    readers of newer writers. The locales \<open>stream_decoder\<close> and \<open>frame_codec\<close> hold what follows from the
    laws of one decoding step.
  \<^item> \<open>FrameQueue\<close> (\<open>network/FrameQueue.cpp\<close>): bounded, drop-oldest, with recycling; the locale
    \<open>drop_oldest_queue\<close> is its contract.
  \<^item> \<open>FileDescriptor\<close>, \<open>WakePipe\<close> (\<open>network/*.hpp\<close>): sole ownership of descriptors, with the ledger \<open>owns\<close>
    the other theories use; the self-pipe and its lost-wakeup freedom under any number of signallers.
  \<^item> \<open>ListenSocket\<close>, \<open>ClientSession\<close>, \<open>TcpServer\<close> (\<open>network/*.cpp\<close>): the server's code.
    \<open>ServerInterleaving\<close>: its threads as a step relation and the invariant. \<open>ServerStream\<close>: the steps of
    one session and the stream of bytes they make. \<open>ServerProperties\<close>: what a viewer receives, what happens
    to what it sends, descriptors and counters, \<open>start\<close>, \<open>publish\<close>, and the emptying of the backlog.
    \<open>ServerHandover\<close>: the same server one access at a time, with its invariants; \<open>HandoverProperties\<close>: what
    they say of wakeups, of the age of a viewer's frames and of the counters.
  \<^item> \<open>RpLidarDevice\<close>, \<open>Lidar\<close> (\<open>lidar/*.cpp\<close>): the driver against a log of SDK calls that a small machine
    replays, the acquisition loop one iteration at a time, recovery, \<open>start\<close> and \<open>stop\<close>. \<open>BackOff\<close>: the
    same loop place by place, down to the steps of \<open>wait_for\<close> on the condition variable, against \<open>stop\<close>.
  \<^item> \<open>Perception\<close> (\<open>perception/Perception.cpp\<close>) and \<open>SensorGeometry\<close>: the detector, its functional
    specification by filters, and the integer function the binary32 pipeline computes from raw readings.
  \<^item> \<open>CanBus\<close> (\<open>canbus/CanBus.cpp\<close>), \<open>CommandLine\<close> (\<open>app/CommandLine.cpp\<close>, \<open>app/Options.hpp\<close>, with \<open>strtoul\<close>
    and \<open>stof\<close>), \<open>Usage\<close> (the help text, read back and compared with the parser), \<open>SignalWaiter\<close> (\<open>app/SignalWaiter.cpp\<close>).
  \<^item> \<open>Application\<close> (\<open>app/Application.cpp\<close>, \<open>app/main.cpp\<close>): the callback, start-up, supervision,
    shutdown and destruction as steps of the main thread, with every line they print. \<open>Node\<close>: the three threads interleaved, the invariant of the
    whole process, and the simulation by the sensing machine alone. \<open>NodePolling\<close>: the node with the place of
    the I/O thread in its loop, each of whose steps is one of the node's or changes the place alone, and the
    invariant that a thread which is asked to leave and waits in \<open>poll\<close> has a byte in its wake pipe.
    \<open>NodeProperties\<close>, \<open>NodeAccounting\<close>, \<open>NodeViewer\<close>, \<open>NodeShutdown\<close>, \<open>NodeWakeup\<close>, \<open>NodeConsole\<close>, \<open>NodeLiveness\<close>,
    \<open>NodeConfiguration\<close>: what the node promises, with the run of \<open>NodeSample\<close> as example.

  \<^bold>\<open>What the main groups of lemmas show.\<close> The node's brake commands refine an abstract machine in which
  only the sensor exists (\<open>brake_refines_sensing\<close>), and with the default detector each command is a
  predicate of the raw measurements (\<open>sensor_to_brake\<close>, \<open>sensor_sector_exact\<close>); the counters of all
  components agree on the revolutions (\<open>revolution_accounting\<close>). No interleaving terminates
  the process through the runtime, leaks or closes twice a descriptor, or leaves SDK objects alive
  (\<open>node_lifecycle\<close>); every fair run ends with the process gone or with a sensor that runs for ever
  (\<open>node_settles\<close>): a lost sensor ends the node (\<open>sensor_loss_ends\<close>), and a shutdown that has begun completes
  (\<open>shutdown_completes\<close>), after at most one reading, one back-off and one opening of the sensor
  (\<open>stop_latency\<close>); a process that exits with an error has named the reason (\<open>failure_reported\<close>). A viewer's bytes decode, in
  order and without duplicates, to frames pushed after it connected (\<open>viewer_stream\<close>), in the node to
  revolutions whose brake commands went out (\<open>viewer_and_brake\<close>), and a
  kernel that accepts bytes empties the backlog (\<open>server_drains\<close>). Between any two accesses of the server's
  threads no frame waits without a wakeup (\<open>frame_never_waits\<close>), at most one frame for each publisher is older
  than the viewer's connection (\<open>viewer_freshness\<close>), and every published frame is in one place
  (\<open>frames_accounted\<close>). Several theorems state behaviour a user
  may not expect: swapped or equal bounds of the field of view, narrowed or wrapping numbers, a restart
  after the acquisition thread has left, a lost notification in \<open>Lidar::stop\<close>, a viewer that keeps sending,
  a frame lost at the handover to a new viewer (\<open>handover_loses_frame\<close>), a backlog kept after a failed \<open>send\<close>.

  \<^bold>\<open>Environment, scripts and bounds.\<close> The kernel, the C library's address parser, and the Slamtec SDK are
  not part of the repository: records of answers stand for them, arguments of the definitions. The only
  assumptions on them are that a descriptor returned as new is not open (\<open>fresh_fd\<close> and the predicates
  built on it), that \<open>sigtimedwait\<close> reports signals of its mask (\<open>from_mask\<close>), and that a pipe holds at
  least one byte. A loop around a system call takes one element of a script for each call; \<^const>\<open>None\<close>
  means that the script was shorter than the loop. Safety theorems hold for every script; those that say
  that a loop ends give the length that is enough (\<open>server_drains\<close>: as many writes as there are
  bytes owed). Revolutions are assumed shorter than 2 to the power of 32 where a 32-bit counter
  is read as a number; the SDK's buffer is far smaller.

  \<^bold>\<open>Fairness.\<close> A fair run (\<open>fair_run\<close> in \<open>Prelude\<close>) does not hold back for ever an action that stays
  possible. \<open>shutdown_completes\<close> and \<open>node_settles\<close> need it for three (\<open>goes\<close> in \<open>NodeWakeup\<close>): the main thread
  going on; the acquisition thread, told to stop, coming to the test of its loop; and the I/O thread ending a
  stage of its loop, but inside \<open>poll\<close> only while the wake pipe holds a byte, so that a \<open>stop\<close> which did not
  signal would leave it there. The assumption covers what blocks elsewhere: calls of the main thread and
  of the SDK return, the wait of the back-off ends with its timeout (\<open>BackOff\<close> bounds what the acquisition
  thread may still do), and a viewer pauses at some time (\<open>viewer_input\<close> shows that otherwise the I/O thread
  need not come back). \<open>NodeShutdown\<close> has the coarser version (\<open>departs\<close>), in which the I/O thread, asked
  to leave, does so: every run that is fair in the first sense is fair in this one (\<open>polled_fair\<close>), and
  \<open>sensor_loss_ends\<close> is stated with it.

  \<^bold>\<open>Granularity.\<close> In \<open>Node\<close> the acquisition thread takes an iteration of its loop as a step, and the I/O
  thread a stage of its own loop, in any order there and in the order of the code in \<open>NodePolling\<close>; within an iteration the pieces of \<open>publish\<close> are separate, and the I/O
  thread runs on between them (\<open>callbacks\<close>, \<open>publishes\<close>). What follows \<open>publish\<close> in the callback touches
  nothing another thread does but the console, whose lines are taken as units. \<open>acceptClient\<close> and
  \<open>endSession\<close> are single steps there; \<open>ServerHandover\<close> takes them apart, each load, store and critical section
  a step, down to the accesses of \<open>signal\<close> and \<open>drain\<close>, and shows by equations that the undisturbed pieces are the functions. \<open>WakePipe\<close> goes down
  to the single accesses to the flag and the pipe, \<open>BackOff\<close> to those of the condition variable. Memory is
  sequentially consistent: the mutexes and the acquire and release accesses of the code order all
  accesses the model shares.

  \<^bold>\<open>Not modelled.\<close> Time, except as values: delays and timeouts only wait, and may end at any moment.
  The clock itself: an iteration takes the value of \<open>nowMicros\<close> as an answer. Exhaustion of memory. The Python viewers and scripts, the
  build, and the launch script.
\<close>

end
